(* ===== verification/Prelude.thy ===== *)
theory Prelude
  imports Main
begin

text \<open>
  Shared vocabulary of the development: the named collections the component theories
  fill, the Rust integer operations that saturate, and the list lemmas that several
  components use.
\<close>

section \<open>Collections of facts\<close>

named_theorems inv_intros \<open>operations preserve the invariant of their component\<close>
named_theorems frame_simps \<open>what an operation leaves unchanged\<close>
named_theorems op_defs \<open>definitions of the operations of a component\<close>

section \<open>Rust integers\<close>

text \<open>
  Sizes and counters that the source keeps in \<^verbatim>\<open>usize\<close> are \<^typ>\<open>nat\<close>; where the
  source reduces modulo a width or saturates, the operation is written out.
  \<^verbatim>\<open>saturating_sub\<close> is subtraction on \<^typ>\<open>nat\<close>.
\<close>

abbreviation U32_MAX :: nat where "U32_MAX \<equiv> 2 ^ 32 - 1"
abbreviation U64_MOD :: nat where "U64_MOD \<equiv> 2 ^ 64"

definition sat_add32 :: "nat \<Rightarrow> nat \<Rightarrow> nat" where
  "sat_add32 a b = min U32_MAX (a + b)"

lemma sat_add32_le [simp]: "sat_add32 a b \<le> U32_MAX"
  by (simp add: sat_add32_def)

lemma sat_add32_exact: "a + b \<le> U32_MAX \<Longrightarrow> sat_add32 a b = a + b"
  by (simp add: sat_add32_def)

definition inc32 :: "nat \<Rightarrow> nat" where
  "inc32 n = (n + 1) mod 2 ^ 32"

text \<open>
  \<^verbatim>\<open>fetch_add\<close> and \<^verbatim>\<open>fetch_sub\<close> wrap around, and so does \<^verbatim>\<open>-= 1\<close> on a
  \<^verbatim>\<open>usize\<close> in a release build.
\<close>

definition wrap_inc :: "nat \<Rightarrow> nat" where
  "wrap_inc n = (n + 1) mod U64_MOD"

definition wrap_dec :: "nat \<Rightarrow> nat" where
  "wrap_dec n = (if n = 0 then U64_MOD - 1 else n - 1)"

lemma wrap_dec_pos [simp]: "0 < n \<Longrightarrow> wrap_dec n = n - 1"
  by (simp add: wrap_dec_def)

lemma wrap_inc_small [simp]: "n + 1 < U64_MOD \<Longrightarrow> wrap_inc n = n + 1"
  by (simp add: wrap_inc_def)

lemma wrap_dec_inc [simp]: "n < U64_MOD \<Longrightarrow> wrap_dec (wrap_inc n) = n"
  by (cases "n + 1 = U64_MOD") (auto simp: wrap_dec_def wrap_inc_def)

section \<open>Lists\<close>

lemma length_filter_append [simp]:
  "length (filter P (xs @ ys)) = length (filter P xs) + length (filter P ys)"
  by simp

lemma filter_eq_length_iff: "length (filter P xs) = length xs \<longleftrightarrow> (\<forall>x \<in> set xs. P x)"
  by (metis filter_id_conv filter_True length_filter_less less_irrefl)

lemma list_all_snoc [simp]: "list_all P (xs @ [x]) \<longleftrightarrow> list_all P xs \<and> P x"
  by auto

lemma dropWhile_sorted_filter:
  "sorted (map f xs) \<Longrightarrow> dropWhile (\<lambda>x. f x < c) xs = filter (\<lambda>x. c \<le> f x) xs"
proof (induction xs)
  case (Cons x xs)
  show ?case
  proof (cases "f x < c")
    case False
    with Cons.prems have "\<forall>y \<in> set (x # xs). c \<le> f y" by fastforce
    then have "filter (\<lambda>x. c \<le> f x) (x # xs) = x # xs" by (rule filter_True)
    with False show ?thesis by simp
  qed (use Cons in auto)
qed simp

lemma set_dropWhile_subset: "set (dropWhile P xs) \<subseteq> set xs"
  by (auto dest: set_dropWhileD)

lemma dropWhile_snoc_keep: "\<not> P x \<Longrightarrow> dropWhile P (xs @ [x]) = dropWhile P xs @ [x]"
  by (induction xs) auto

lemma length_filter_update:
  "i < length xs \<Longrightarrow>
     length (filter P (xs[i := y])) + (if P (xs ! i) then 1 else 0)
       = length (filter P xs) + (if P y then 1 else 0)"
proof (induction xs arbitrary: i)
  case (Cons x xs)
  show ?case
  proof (cases i)
    case (Suc j)
    with Cons show ?thesis by fastforce
  qed simp
qed simp

end
