(* ===== verification/F64.thy ===== *)
theory F64
  imports Complex_Main "HOL-Library.Log_Nat"
begin

text \<open>
  The part of IEEE 754 binary64 arithmetic the program relies on: the quotient of two
  counts, \<^verbatim>\<open>a as f64 / b as f64\<close>, rounded to 53 significant bits, to nearest, ties to
  even. Counts are below \<open>2 ^ 53\<close>, so both conversions are exact and the quotient is
  the only rounding; its exponent is far from the limits of the format. Values are kept
  as rationals, so that the comparison with a threshold is the comparison of values that
  the hardware performs.
\<close>

section \<open>Rounding to nearest, ties to even\<close>

definition rne :: "rat \<Rightarrow> int" where
  "rne x =
     (let d = \<lfloor>x\<rfloor>; r = x - of_int d in
      if r < 1 / 2 then d
      else if 1 / 2 < r then d + 1
      else if even d then d else d + 1)"

text \<open>\<open>f64_exp a b\<close> is the binary exponent of \<open>a / b\<close>: \<open>2 ^ e \<le> a / b < 2 ^ (e + 1)\<close>.\<close>

definition f64_exp :: "nat \<Rightarrow> nat \<Rightarrow> int" where
  "f64_exp a b =
     (let e = int (floorlog 2 a) - int (floorlog 2 b) in
      if 2 powi e * of_nat b \<le> (of_nat a :: rat) then e else e - 1)"

definition f64_div :: "nat \<Rightarrow> nat \<Rightarrow> rat" where
  "f64_div a b =
     (if a = 0 then 0
      else let e = f64_exp a b
           in of_int (rne (of_nat a / of_nat b * 2 powi (52 - e))) * 2 powi (e - 52))"

definition f64_repr :: "rat \<Rightarrow> bool" where
  "f64_repr t \<longleftrightarrow> (\<exists>m k. m < (2::nat) ^ 53 \<and> t = of_nat m * 2 powi k)"

section \<open>The rounded quotient stays on its side of every representable value\<close>

lemma rne_ge: "of_int m \<le> x \<Longrightarrow> m \<le> rne x"
  by (auto simp: rne_def Let_def le_floor_iff add_increasing2)

lemma rne_le:
  assumes "x \<le> of_int m"
  shows "rne x \<le> m"
proof (cases "x = of_int \<lfloor>x\<rfloor>")
  case True
  with assms have "\<lfloor>x\<rfloor> \<le> m" by (metis of_int_le_iff)
  then show ?thesis using True by (simp add: rne_def Let_def)
next
  case False
  then have "of_int \<lfloor>x\<rfloor> < x" using of_int_floor_le [of x] by linarith
  with assms have "(of_int \<lfloor>x\<rfloor> :: rat) < of_int m" by linarith
  then have "\<lfloor>x\<rfloor> + 1 \<le> m" by simp
  then show ?thesis by (auto simp: rne_def Let_def)
qed

lemma floorlog2_bounds:
  assumes "0 < a"
  shows "2 powi (int (floorlog 2 a) - 1) \<le> (of_nat a :: rat)"
    and "(of_nat a :: rat) < 2 powi (int (floorlog 2 a))"
proof -
  have "floorlog 2 a \<noteq> 0" using assms floorlog_eq_zero_iff [of 2 a] by simp
  then obtain j where j: "floorlog 2 a = Suc j" using not0_implies_Suc by blast
  have b: "2 ^ j \<le> a" "a < 2 ^ Suc j" using assms floorlog_bounds [of a 2] j by auto
  have "(of_nat (2 ^ j) :: rat) \<le> of_nat a" using b(1) of_nat_le_iff by blast
  then have "(2::rat) ^ j \<le> of_nat a" by (simp only: of_nat_power of_nat_numeral)
  moreover have "(2::rat) powi (int (floorlog 2 a) - 1) = 2 ^ j" unfolding j by simp
  ultimately show "2 powi (int (floorlog 2 a) - 1) \<le> (of_nat a :: rat)" by (simp only:)
  have "(of_nat a :: rat) < of_nat (2 ^ Suc j)" using b(2) of_nat_less_iff by blast
  then have "(of_nat a :: rat) < 2 ^ Suc j" by (simp only: of_nat_power of_nat_numeral)
  then show "(of_nat a :: rat) < 2 powi (int (floorlog 2 a))"
    unfolding j by (simp only: power_int_of_nat)
qed

lemma powi2_mult: "(2::rat) powi k * 2 powi l = 2 powi (k + l)"
  by (simp add: power_int_add)

lemma f64_exp_bounds:
  assumes "0 < a" "0 < b"
  shows "2 powi (f64_exp a b) * of_nat b \<le> (of_nat a :: rat)"
    and "(of_nat a :: rat) < 2 powi (f64_exp a b + 1) * of_nat b"
proof -
  let ?A = "of_nat a :: rat" and ?B = "of_nat b :: rat"
  let ?la = "int (floorlog 2 a)" and ?lb = "int (floorlog 2 b)"
  let ?e = "?la - ?lb"
  have B: "0 < ?B" using assms by simp
  have "2 powi (?e - 1) * ?B \<le> 2 powi (?e - 1) * 2 powi ?lb"
    using floorlog2_bounds(2) [OF assms(2)] by simp
  also have "\<dots> = 2 powi (?la - 1)" unfolding powi2_mult by (rule arg_cong) simp
  also have "\<dots> \<le> ?A" by (rule floorlog2_bounds(1) [OF assms(1)])
  finally have low: "2 powi (?e - 1) * ?B \<le> ?A" .
  have "?A < 2 powi ?la" by (rule floorlog2_bounds(2) [OF assms(1)])
  also have "\<dots> = 2 powi (?e + 1) * 2 powi (?lb - 1)" unfolding powi2_mult by (rule arg_cong) simp
  also have "\<dots> \<le> 2 powi (?e + 1) * ?B"
    using floorlog2_bounds(1) [OF assms(2)] by simp
  finally have high: "?A < 2 powi (?e + 1) * ?B" .
  show "2 powi (f64_exp a b) * ?B \<le> ?A" "?A < 2 powi (f64_exp a b + 1) * ?B"
    using low high by (auto simp: f64_exp_def Let_def)
qed

lemma powi2_less_imp_less:
  assumes "(2::rat) powi k < 2 powi l"
  shows "k < l"
proof (rule ccontr)
  assume "\<not> k < l"
  then have "(2::rat) powi l \<le> 2 powi k" by (intro power_int_increasing) auto
  with assms show False by simp
qed

text \<open>A representable value that is at least \<open>2 ^ e\<close> is a multiple of the unit \<open>2 ^ (e - 52)\<close>.\<close>

lemma repr_multiple_of_unit:
  assumes "f64_repr t" "2 powi e \<le> t"
  obtains j :: int where "t = of_int j * 2 powi (e - 52)"
proof -
  from assms(1) obtain m k where m: "m < (2::nat) ^ 53" and t: "t = of_nat m * 2 powi k"
    by (auto simp: f64_repr_def)
  have "(of_nat m :: rat) < 2 powi 53" using m of_nat_less_iff [of m "2 ^ 53", where 'a = rat] by simp
  then have "t < 2 powi 53 * 2 powi k" unfolding t by (simp add: mult_strict_right_mono)
  with assms(2) have "(2::rat) powi e < 2 powi (53 + k)" by (simp add: power_int_add)
  then have k: "e - 52 \<le> k" using powi2_less_imp_less [of e "53 + k"] by simp
  have "(2::rat) powi k = of_int (2 ^ nat (k - (e - 52))) * 2 powi (e - 52)"
    using k powi2_mult [of "int (nat (k - (e - 52)))" "e - 52"]
    by (simp only: power_int_of_nat) simp
  then have "t = of_int (int m * 2 ^ nat (k - (e - 52))) * 2 powi (e - 52)"
    unfolding t by simp
  then show ?thesis by (rule that)
qed

lemma unit_cancel: "(x::rat) * 2 powi (52 - e) * 2 powi (e - 52) = x"
  by (simp only: mult.assoc powi2_mult) simp

theorem f64_div_ge:
  assumes "0 < b" "f64_repr t" "t * of_nat b \<le> of_nat a"
  shows "t \<le> f64_div a b"
proof (cases "a = 0")
  case True
  with assms have "t \<le> 0" by (simp add: mult_le_0_iff)
  with True show ?thesis by (simp add: f64_div_def)
next
  case False
  let ?e = "f64_exp a b" and ?q = "of_nat a / of_nat b :: rat"
  let ?x = "?q * 2 powi (52 - ?e)"
  have q: "2 powi ?e \<le> ?q" "t \<le> ?q"
    using f64_exp_bounds(1) [of a b] False assms by (auto simp: pos_le_divide_eq)
  have "t \<le> of_int (rne ?x) * 2 powi (?e - 52)"
  proof (cases "2 powi ?e \<le> t")
    case True
    then obtain j where j: "t = of_int j * 2 powi (?e - 52)"
      using repr_multiple_of_unit [OF assms(2)] by blast
    have "of_int j * 2 powi (?e - 52) \<le> ?x * 2 powi (?e - 52)"
      using q(2) unfolding unit_cancel j .
    then have "of_int j \<le> ?x" by (rule mult_right_le_imp_le) simp
    then show ?thesis unfolding j using rne_ge [of j ?x] by simp
  next
    case False
    have "2 powi 52 * 2 powi (?e - 52) \<le> ?x * 2 powi (?e - 52)"
      using q(1) unfolding unit_cancel powi2_mult by simp
    then have "2 powi 52 \<le> ?x" by (rule mult_right_le_imp_le) simp
    then have "of_int (2 ^ 52) \<le> ?x" by simp
    then have "of_int (2 ^ 52) * 2 powi (?e - 52) \<le> of_int (rne ?x) * (2::rat) powi (?e - 52)"
      using rne_ge [of "2 ^ 52" ?x] by (intro mult_right_mono of_int_le_iff [THEN iffD2]) auto
    moreover have "of_int (2 ^ 52) * 2 powi (?e - 52) = (2::rat) powi ?e"
      using powi2_mult [of 52 "?e - 52"] by simp
    ultimately show ?thesis using False by linarith
  qed
  then show ?thesis using False by (simp add: f64_div_def Let_def)
qed

theorem f64_div_le:
  assumes "0 < b" "f64_repr t" "of_nat a \<le> t * of_nat b" "0 \<le> t"
  shows "f64_div a b \<le> t"
proof (cases "a = 0")
  case True
  with assms show ?thesis by (simp add: f64_div_def)
next
  case False
  let ?e = "f64_exp a b" and ?q = "of_nat a / of_nat b :: rat"
  let ?x = "?q * 2 powi (52 - ?e)"
  have q: "2 powi ?e \<le> ?q" "?q \<le> t"
    using f64_exp_bounds(1) [of a b] False assms by (auto simp: pos_le_divide_eq pos_divide_le_eq)
  then have "2 powi ?e \<le> t" by linarith
  then obtain j where j: "t = of_int j * 2 powi (?e - 52)"
    using repr_multiple_of_unit [OF assms(2)] by blast
  have "?x * 2 powi (?e - 52) \<le> of_int j * 2 powi (?e - 52)"
    using q(2) unfolding unit_cancel j .
  then have "?x \<le> of_int j" by (rule mult_right_le_imp_le) simp
  then have "of_int (rne ?x) * 2 powi (?e - 52) \<le> t"
    unfolding j using rne_le [of ?x j] by simp
  then show ?thesis using False by (simp add: f64_div_def Let_def)
qed

section \<open>Consequences the components use\<close>

lemma f64_repr_nat_power: "m < 2 ^ 53 \<Longrightarrow> f64_repr (of_nat m * 2 powi k)"
  by (auto simp: f64_repr_def)

lemma f64_repr_0 [simp]: "f64_repr 0"
  using f64_repr_nat_power [of 0 0] by simp

lemma f64_repr_1 [simp]: "f64_repr 1"
  using f64_repr_nat_power [of 1 0] by simp

lemma f64_repr_half [simp]: "f64_repr (1 / 2)"
  using f64_repr_nat_power [of 1 "- 1"] by simp

lemma f64_div_nonneg: "0 < b \<Longrightarrow> 0 \<le> f64_div a b"
  by (rule f64_div_ge) auto

lemma f64_div_le_1: "0 < b \<Longrightarrow> a \<le> b \<Longrightarrow> f64_div a b \<le> 1"
  by (rule f64_div_le) auto

lemma f64_div_self: "0 < b \<Longrightarrow> f64_div b b = 1"
  by (rule antisym [OF f64_div_le_1 f64_div_ge]) auto

lemma f64_div_zero [simp]: "f64_div 0 b = 0"
  by (simp add: f64_div_def)

text \<open>
  Against one half the rounded quotient of two counts below \<open>2 ^ 53\<close> compares exactly: a
  quotient below one half is at most the largest double below one half.
\<close>

lemma f64_div_half_iff:
  assumes "0 < b" "b \<le> 2 ^ 53"
  shows "1 / 2 \<le> f64_div a b \<longleftrightarrow> b \<le> 2 * a"
proof
  assume "b \<le> 2 * a"
  then have "(of_nat b :: rat) \<le> of_nat (2 * a)" using of_nat_le_iff by blast
  then show "1 / 2 \<le> f64_div a b" using assms by (intro f64_div_ge) auto
next
  assume h: "1 / 2 \<le> f64_div a b"
  show "b \<le> 2 * a"
  proof (rule ccontr)
    assume "\<not> b \<le> 2 * a"
    then have "2 * a + 1 \<le> b" by simp
    then have lo: "(of_nat (2 * a + 1) :: rat) \<le> of_nat b" using of_nat_le_iff by blast
    have "(of_nat b :: rat) \<le> of_nat (2 ^ 53)" using assms(2) of_nat_le_iff by blast
    then have hi: "of_nat b / 18014398509481984 \<le> (1 / 2 :: rat)" by (simp del: of_nat_le_numeral_iff)
    define p :: rat where "p = of_nat (2 ^ 53 - 1) * 2 powi (- 54)"
    have "p = 1 / 2 - 1 / 18014398509481984" by (simp add: p_def power_int_minus field_simps)
    then have "p * of_nat b = of_nat b / 2 - of_nat b / 18014398509481984"
      by (simp only: left_diff_distrib)
    moreover have "of_nat (2 * a + 1) = 2 * (of_nat a :: rat) + 1" by simp
    ultimately have "of_nat a \<le> p * of_nat b" using lo hi by linarith
    moreover have "f64_repr p" unfolding p_def by (rule f64_repr_nat_power) simp
    ultimately have "f64_div a b \<le> p" using assms(1) by (intro f64_div_le) (auto simp: p_def)
    moreover have "p < 1 / 2" by (simp add: p_def power_int_minus field_simps)
    ultimately show False using h by linarith
  qed
qed

section \<open>Values a comparison can meet\<close>

text \<open>A threshold read from the configuration is any double, infinities and NaN included.\<close>

datatype f64 = Fin rat | PosInf | NegInf | NaN

fun f64_ge :: "rat \<Rightarrow> f64 \<Rightarrow> bool" where
  "f64_ge x (Fin t) \<longleftrightarrow> t \<le> x"
| "f64_ge x PosInf \<longleftrightarrow> False"
| "f64_ge x NegInf \<longleftrightarrow> True"
| "f64_ge x NaN \<longleftrightarrow> False"

end
