(* ===== verification/Window.thy ===== *)
theory Window
  imports Prelude F64
begin

text \<open>
  The sliding window of the circuit breaker
  (\<^verbatim>\<open>crates/common/ccode-circuit-breaker/src/window.rs\<close>): a bounded queue of
  timestamped outcomes with an incrementally maintained failure counter, the contract
  the breaker relies on as the locale \<open>sample_window\<close>, and its interpretation.
  An instant is a number of nanoseconds on the monotonic clock; the least instant is 0,
  and \<^verbatim>\<open>checked_sub\<close> is \<^const>\<open>None\<close> below it. (On a platform whose instants
  go below 0 the eviction cutoff is negative there and removes nothing either.)
\<close>

section \<open>Model\<close>

type_synonym instant = nat
type_synonym sample = "instant \<times> bool"

definition MAX_WINDOW_ENTRIES :: nat where
  "MAX_WINDOW_ENTRIES = 10000"

record sliding_window =
  entries :: "sample list"
  failures :: nat

definition sw_new :: sliding_window where
  "sw_new = \<lparr>entries = [], failures = 0\<rparr>"

definition sw_push :: "sliding_window \<Rightarrow> bool \<Rightarrow> instant \<Rightarrow> sliding_window" where
  "sw_push w is_failure ts =
     (let w1 = (if MAX_WINDOW_ENTRIES \<le> length (entries w)
                then (case entries w of
                        [] \<Rightarrow> w
                      | (_, was_failure) # rest \<Rightarrow>
                          \<lparr>entries = rest,
                           failures = (if was_failure then wrap_dec (failures w) else failures w)\<rparr>)
                else w)
      in \<lparr>entries = entries w1 @ [(ts, is_failure)],
          failures = (if is_failure then wrap_inc (failures w1) else failures w1)\<rparr>)"

fun sw_evict_loop :: "instant \<Rightarrow> sample list \<Rightarrow> nat \<Rightarrow> sliding_window" where
  "sw_evict_loop cutoff [] n = \<lparr>entries = [], failures = n\<rparr>"
| "sw_evict_loop cutoff ((ts, was_failure) # rest) n =
     (if ts < cutoff
      then sw_evict_loop cutoff rest (if was_failure then wrap_dec n else n)
      else \<lparr>entries = (ts, was_failure) # rest, failures = n\<rparr>)"

definition sw_evict :: "sliding_window \<Rightarrow> nat \<Rightarrow> instant \<Rightarrow> sliding_window" where
  "sw_evict w dur now =
     (if now < dur then w else sw_evict_loop (now - dur) (entries w) (failures w))"

definition sw_error_rate :: "sliding_window \<Rightarrow> rat" where
  "sw_error_rate w =
     (if entries w = [] then 0 else f64_div (failures w) (length (entries w)))"

definition sw_sample_count :: "sliding_window \<Rightarrow> nat" where
  "sw_sample_count w = length (entries w)"

definition sw_clear :: "sliding_window \<Rightarrow> sliding_window" where
  "sw_clear w = \<lparr>entries = [], failures = 0\<rparr>"

section \<open>Invariant\<close>

definition nfail :: "sample list \<Rightarrow> nat" where
  "nfail xs = length (filter snd xs)"

lemma nfail_simps [simp]:
  "nfail [] = 0"
  "nfail (x # xs) = (if snd x then Suc (nfail xs) else nfail xs)"
  "nfail (xs @ ys) = nfail xs + nfail ys"
  by (simp_all add: nfail_def)

lemma nfail_le: "nfail xs \<le> length xs"
  by (simp add: nfail_def)

lemma nfail_all: "\<forall>s \<in> set xs. snd s \<Longrightarrow> nfail xs = length xs"
  by (simp add: nfail_def)

definition sw_inv :: "sliding_window \<Rightarrow> bool" where
  "sw_inv w \<longleftrightarrow> failures w = nfail (entries w) \<and> length (entries w) \<le> MAX_WINDOW_ENTRIES"

lemma sw_inv_new [inv_intros]: "sw_inv sw_new"
  by (simp add: sw_inv_def sw_new_def)

lemma sw_inv_clear [inv_intros]: "sw_inv (sw_clear w)"
  by (simp add: sw_inv_def sw_clear_def)

lemma sw_inv_bound: "sw_inv w \<Longrightarrow> failures w < U64_MOD - 1"
  using nfail_le [of "entries w"] by (auto simp: sw_inv_def MAX_WINDOW_ENTRIES_def)

lemma sw_push_entries:
  "entries (sw_push w f t) =
     (if MAX_WINDOW_ENTRIES \<le> length (entries w) then tl (entries w) else entries w) @ [(t, f)]"
  by (auto simp: sw_push_def Let_def MAX_WINDOW_ENTRIES_def split: list.splits)

lemma sw_inv_push [inv_intros]:
  assumes "sw_inv w"
  shows "sw_inv (sw_push w f t)"
proof -
  have b: "nfail xs < U64_MOD - 1" if "length xs \<le> MAX_WINDOW_ENTRIES" for xs
    using nfail_le [of xs] that by (simp add: MAX_WINDOW_ENTRIES_def)
  show ?thesis
  proof (cases "MAX_WINDOW_ENTRIES \<le> length (entries w)")
    case True
    then obtain x rest where e: "entries w = x # rest"
      by (cases "entries w") (auto simp: MAX_WINDOW_ENTRIES_def)
    with assms have "length rest \<le> MAX_WINDOW_ENTRIES" by (simp add: sw_inv_def)
    from b [OF this] show ?thesis
      using True assms e by (cases x) (auto simp: sw_inv_def sw_push_def Let_def)
  next
    case False
    with assms b [of "entries w"] show ?thesis by (auto simp: sw_inv_def sw_push_def Let_def)
  qed
qed

lemma sw_evict_loop_spec:
  "entries (sw_evict_loop c xs n) = dropWhile (\<lambda>s. fst s < c) xs"
  "failures (sw_evict_loop c xs (nfail xs)) = nfail (dropWhile (\<lambda>s. fst s < c) xs)"
  by (induction c xs n rule: sw_evict_loop.induct) auto

lemma sw_evict_entries:
  "entries (sw_evict w d now) =
     (if now < d then entries w else dropWhile (\<lambda>s. fst s < now - d) (entries w))"
  by (simp add: sw_evict_def sw_evict_loop_spec)

lemma sw_inv_evict [inv_intros]:
  assumes "sw_inv w"
  shows "sw_inv (sw_evict w d now)"
  using assms length_dropWhile_le [of "\<lambda>s. fst s < now - d" "entries w"]
  by (auto simp: sw_inv_def sw_evict_def sw_evict_loop_spec intro: order_trans)

section \<open>The contract the breaker relies on\<close>

text \<open>
  A window is known by its samples, oldest first. \<open>push\<close> appends the newest sample and
  drops the oldest one of a full window, \<open>evict\<close> drops the leading samples older than
  the window, and the counter-based rate is the rate of the samples.
\<close>

locale sample_window =
  fixes samples :: "'w \<Rightarrow> sample list"
    and winv :: "'w \<Rightarrow> bool"
    and push :: "'w \<Rightarrow> bool \<Rightarrow> instant \<Rightarrow> 'w"
    and evict :: "'w \<Rightarrow> nat \<Rightarrow> instant \<Rightarrow> 'w"
    and rate :: "'w \<Rightarrow> rat"
    and count :: "'w \<Rightarrow> nat"
  assumes winv_push: "winv w \<Longrightarrow> winv (push w f t)"
    and winv_evict: "winv w \<Longrightarrow> winv (evict w d t)"
    and winv_length: "winv w \<Longrightarrow> length (samples w) \<le> MAX_WINDOW_ENTRIES"
    and samples_push: "samples (push w f t) =
          (if MAX_WINDOW_ENTRIES \<le> length (samples w) then tl (samples w) else samples w) @ [(t, f)]"
    and samples_evict: "winv w \<Longrightarrow> samples (evict w d t) =
          (if t < d then samples w else dropWhile (\<lambda>s. fst s < t - d) (samples w))"
    and rate_eq: "winv w \<Longrightarrow> rate w =
          (if samples w = [] then 0 else f64_div (nfail (samples w)) (length (samples w)))"
    and count_eq: "count w = length (samples w)"
begin

lemma winv_observe: "winv w \<Longrightarrow> winv (evict (push w f t) d t)"
  by (simp add: winv_push winv_evict)

text \<open>The sample just recorded is never evicted, so the window the breaker judges is not empty.\<close>

lemma observe_last:
  assumes "winv w"
  obtains xs where "samples (evict (push w f t) d t) = xs @ [(t, f)]"
    and "set xs \<subseteq> set (samples w)"
proof -
  let ?old = "if MAX_WINDOW_ENTRIES \<le> length (samples w) then tl (samples w) else samples w"
  let ?xs = "if t < d then ?old else dropWhile (\<lambda>s. fst s < t - d) ?old"
  have "samples (evict (push w f t) d t) = ?xs @ [(t, f)]"
    using assms by (simp add: samples_evict samples_push winv_push dropWhile_snoc_keep)
  moreover have "set ?xs \<subseteq> set ?old"
    by (cases "t < d") (simp_all only: if_True if_False set_dropWhile_subset subset_refl)
  moreover have "set ?old \<subseteq> set (samples w)" by (cases "samples w") auto
  ultimately show ?thesis using that by (meson order_trans)
qed

lemma observe_count: "winv w \<Longrightarrow> 0 < count (evict (push w f t) d t)"
  by (metis count_eq observe_last length_greater_0_conv snoc_eq_iff_butlast)

lemma rate_bounds: "winv w \<Longrightarrow> 0 \<le> rate w \<and> rate w \<le> 1"
  by (auto simp: rate_eq nfail_le intro: f64_div_nonneg f64_div_le_1)

lemma rate_all_failures:
  assumes "winv w" "samples w \<noteq> []" "\<forall>s \<in> set (samples w). snd s"
  shows "rate w = 1"
  using assms by (simp add: rate_eq nfail_all f64_div_self)

lemma rate_half_iff:
  assumes "winv w" "samples w \<noteq> []"
  shows "1 / 2 \<le> rate w \<longleftrightarrow> length (samples w) \<le> 2 * nfail (samples w)"
proof -
  have "length (samples w) \<le> 2 ^ 53"
    using winv_length [OF assms(1)] by (simp add: MAX_WINDOW_ENTRIES_def)
  with assms have "1 / 2 \<le> f64_div (nfail (samples w)) (length (samples w))
      \<longleftrightarrow> length (samples w) \<le> 2 * nfail (samples w)"
    by (intro f64_div_half_iff) auto
  with assms show ?thesis by (simp only: rate_eq if_False)
qed

text \<open>With timestamps in order, eviction keeps exactly the samples inside the window.\<close>

lemma evict_live:
  assumes "winv w" "sorted (map fst (samples w))"
  shows "samples (evict w d t) = filter (\<lambda>s. t \<le> fst s + d) (samples w)"
proof (cases "t < d")
  case True
  then have "filter (\<lambda>s. t \<le> fst s + d) (samples w) = samples w" by (intro filter_True) auto
  with True assms show ?thesis by (simp add: samples_evict)
next
  case False
  then have "(t - d \<le> fst s) = (t \<le> fst s + d)" for s :: sample by auto
  with False assms show ?thesis by (simp add: samples_evict dropWhile_sorted_filter)
qed

end

interpretation sw: sample_window entries sw_inv sw_push sw_evict sw_error_rate sw_sample_count
proof unfold_locales
  show "sw_error_rate w = (if entries w = [] then 0
      else f64_div (nfail (entries w)) (length (entries w)))" if "sw_inv w" for w
    using that by (simp add: sw_error_rate_def sw_inv_def)
  show "length (entries w) \<le> MAX_WINDOW_ENTRIES" if "sw_inv w" for w
    using that by (simp add: sw_inv_def)
qed (simp_all add: inv_intros sw_push_entries sw_evict_entries sw_sample_count_def)

end
