(* ===== verification/Breaker.thy ===== *)
theory Breaker
  imports Window
begin

text \<open>
  The circuit breaker of \<^verbatim>\<open>crates/common/ccode-circuit-breaker\<close>: the configuration
  presets (\<^verbatim>\<open>config.rs\<close>), the three states (\<^verbatim>\<open>state.rs\<close>) and the state machine
  of \<^verbatim>\<open>breaker.rs\<close>, every operation run without interleaving. The clock is read by the
  operations where the source reads it: an operation takes one instant per reading.
  Durations are nanoseconds; the millisecond fields are \<^verbatim>\<open>u64\<close> and reduced modulo
  \<open>2 ^ 64\<close> where the source casts to \<^verbatim>\<open>u64\<close>. The observer callbacks are recorded, in
  order, in the field \<open>events\<close>.
\<close>

section \<open>Data\<close>

datatype breaker_state = Closed | Open | HalfOpen

fun to_u8 :: "breaker_state \<Rightarrow> nat" where
  "to_u8 Closed = 0"
| "to_u8 Open = 1"
| "to_u8 HalfOpen = 2"

definition from_u8 :: "nat \<Rightarrow> breaker_state" where
  "from_u8 v = (if v = 0 then Closed else if v = 1 then Open else if v = 2 then HalfOpen else Closed)"

datatype outcome = Success | Failure

record breaker_config =
  window_duration :: nat
  min_samples :: nat
  error_rate_threshold :: f64
  open_duration :: nat
  half_open_max_probes :: nat
  failure_codes :: "nat list"
  enabled :: bool

abbreviation secs :: "nat \<Rightarrow> nat" where "secs n \<equiv> n * 1000000000"
abbreviation millis :: "nat \<Rightarrow> nat" where "millis n \<equiv> n * 1000000"

definition default_failure_codes :: "nat list" where
  "default_failure_codes = [429, 500, 502, 503, 504]"

definition config_server :: breaker_config where
  "config_server = \<lparr>window_duration = secs 60, min_samples = 10,
     error_rate_threshold = Fin (1 / 2), open_duration = secs 10, half_open_max_probes = 1,
     failure_codes = default_failure_codes, enabled = True\<rparr>"

definition config_client :: breaker_config where
  "config_client = \<lparr>window_duration = secs 60, min_samples = 5,
     error_rate_threshold = Fin (1 / 2), open_duration = secs 60, half_open_max_probes = 1,
     failure_codes = [401], enabled = True\<rparr>"

definition is_failure_status :: "breaker_config \<Rightarrow> nat \<Rightarrow> bool" where
  "is_failure_status c status \<longleftrightarrow> status \<in> set (failure_codes c)"

datatype obs_event =
    StateChange breaker_state breaker_state string
  | ProbeAdmission bool
  | OnOutcome outcome breaker_state

record breaker =
  config :: breaker_config
  st :: nat
  baseline :: instant
  opened_at_millis :: nat
  half_open_probes :: nat
  probe_claimed_at_millis :: nat
  is_open_fast :: bool
  window :: sliding_window
  events :: "obs_event list"

section \<open>Operations\<close>

definition with_clock :: "breaker_config \<Rightarrow> instant \<Rightarrow> breaker" where
  "with_clock c now = \<lparr>config = c\<lparr>half_open_max_probes := max (half_open_max_probes c) 1\<rparr>,
     st = to_u8 Closed, baseline = now, opened_at_millis = 0, half_open_probes = 0,
     probe_claimed_at_millis = 0, is_open_fast = False, window = sw_new, events = []\<rparr>"

definition state :: "breaker \<Rightarrow> breaker_state" where
  "state b = from_u8 (st b)"

definition notify :: "obs_event \<Rightarrow> breaker \<Rightarrow> breaker" where
  "notify e b = b\<lparr>events := events b @ [e]\<rparr>"

definition elapsed_millis :: "breaker \<Rightarrow> instant \<Rightarrow> nat" where
  "elapsed_millis b now = ((now - baseline b) div 1000000) mod U64_MOD"

definition is_open :: "breaker \<Rightarrow> bool" where
  "is_open b = is_open_fast b"

definition cb_error_rate :: "breaker \<Rightarrow> instant \<Rightarrow> rat \<times> breaker" where
  "cb_error_rate b now =
     (let w = sw_evict (window b) (window_duration (config b)) now
      in (sw_error_rate w, b\<lparr>window := w\<rparr>))"

definition cas_state :: "breaker \<Rightarrow> breaker_state \<Rightarrow> breaker_state \<Rightarrow> bool \<times> breaker" where
  "cas_state b from to = (if st b = to_u8 from then (True, b\<lparr>st := to_u8 to\<rparr>) else (False, b))"

definition trip :: "breaker \<Rightarrow> breaker_state \<Rightarrow> string \<Rightarrow> instant \<Rightarrow> breaker" where
  "trip b prev reason now =
     (let b1 = b\<lparr>st := to_u8 Open, opened_at_millis := elapsed_millis b now,
                 half_open_probes := 0, is_open_fast := True\<rparr>
      in if prev \<noteq> Open then notify (StateChange prev Open reason) b1 else b1)"

definition close :: "breaker \<Rightarrow> breaker_state \<Rightarrow> string \<Rightarrow> breaker" where
  "close b prev reason =
     (let b1 = b\<lparr>st := to_u8 Closed, window := sw_clear (window b),
                 half_open_probes := 0, is_open_fast := False\<rparr>
      in if prev \<noteq> Closed then notify (StateChange prev Closed reason) b1 else b1)"

definition HALF_OPEN_PROBE_BACKOFF :: nat where
  "HALF_OPEN_PROBE_BACKOFF = millis 50"

text \<open>\<^verbatim>\<open>Err(BreakerOpen { retry_after })\<close> is \<open>Inl retry_after\<close>.\<close>

definition try_half_open_probe :: "breaker \<Rightarrow> instant \<Rightarrow> (nat + unit) \<times> breaker" where
  "try_half_open_probe b t =
     (let now = elapsed_millis b t;
          prev = half_open_probes b;
          b1 = b\<lparr>half_open_probes := wrap_inc prev\<rparr>
      in if prev < half_open_max_probes (config b)
         then (Inr (), notify (ProbeAdmission True) (b1\<lparr>probe_claimed_at_millis := now\<rparr>))
         else
           let b2 = b1\<lparr>half_open_probes := wrap_dec (half_open_probes b1)\<rparr>;
               lease_millis = (open_duration (config b) div 1000000) mod U64_MOD;
               claimed = probe_claimed_at_millis b2
           in if lease_millis \<le> now - claimed
              then (Inr (), notify (ProbeAdmission True) (b2\<lparr>probe_claimed_at_millis := now\<rparr>))
              else (Inl (min HALF_OPEN_PROBE_BACKOFF (open_duration (config b))),
                    notify (ProbeAdmission False) b2))"

definition check_open :: "breaker \<Rightarrow> instant \<Rightarrow> instant \<Rightarrow> (nat + unit) \<times> breaker" where
  "check_open b t t' =
     (let opened = opened_at_millis b;
          now = elapsed_millis b t;
          elapsed = millis (now - opened)
      in if open_duration (config b) \<le> elapsed
         then (case cas_state b Open HalfOpen of
                 (True, b1) \<Rightarrow>
                   try_half_open_probe
                     (notify (StateChange Open HalfOpen ''open_elapsed'') (b1\<lparr>is_open_fast := False\<rparr>)) t'
               | (False, b1) \<Rightarrow>
                   (case state b1 of
                      Closed \<Rightarrow> (Inr (), b1)
                    | HalfOpen \<Rightarrow> try_half_open_probe b1 t'
                    | Open \<Rightarrow>
                        (Inl (open_duration (config b1)
                                - millis (elapsed_millis b1 t' - opened_at_millis b1)), b1)))
         else (Inl (open_duration (config b) - elapsed), b))"

definition check :: "breaker \<Rightarrow> instant \<Rightarrow> instant \<Rightarrow> (nat + unit) \<times> breaker" where
  "check b t t' =
     (if \<not> enabled (config b) then (Inr (), b)
      else case state b of
             Closed \<Rightarrow> (Inr (), b)
           | Open \<Rightarrow> check_open b t t'
           | HalfOpen \<Rightarrow> try_half_open_probe b t')"

definition cb_record :: "breaker \<Rightarrow> outcome \<Rightarrow> instant \<Rightarrow> instant \<Rightarrow> breaker" where
  "cb_record b out t t' =
     (if \<not> enabled (config b) then b
      else
        let is_failure = (out = Failure);
            prev = state b;
            w = sw_evict (sw_push (window b) is_failure t) (window_duration (config b)) t;
            b1 = (case prev of
                    Closed \<Rightarrow>
                      (if min_samples (config b) \<le> sw_sample_count w
                          \<and> f64_ge (sw_error_rate w) (error_rate_threshold (config b))
                       then trip (b\<lparr>window := w\<rparr>) prev ''trip'' t'
                       else b\<lparr>window := w\<rparr>)
                  | HalfOpen \<Rightarrow>
                      (if is_failure then trip b prev ''probe_failure'' t'
                       else close b prev ''probe_success'')
                  | Open \<Rightarrow> b\<lparr>window := w\<rparr>)
        in notify (OnOutcome out (state b1)) b1)"

definition force_half_open :: "breaker \<Rightarrow> breaker" where
  "force_half_open b =
     (let prev = state b;
          b1 = b\<lparr>st := to_u8 HalfOpen, is_open_fast := False, half_open_probes := 0\<rparr>
      in if prev \<noteq> HalfOpen then notify (StateChange prev HalfOpen ''force_half_open'') b1 else b1)"

section \<open>Runs\<close>

datatype cb_op =
    OpCheck instant instant
  | OpRecord outcome instant instant
  | OpErrorRate instant
  | OpForceHalfOpen

fun cb_step :: "breaker \<Rightarrow> cb_op \<Rightarrow> breaker" where
  "cb_step b (OpCheck t t') = snd (check b t t')"
| "cb_step b (OpRecord out t t') = cb_record b out t t'"
| "cb_step b (OpErrorRate t) = snd (cb_error_rate b t)"
| "cb_step b OpForceHalfOpen = force_half_open b"

definition cb_run :: "breaker \<Rightarrow> cb_op list \<Rightarrow> breaker" where
  "cb_run b ops = foldl cb_step b ops"

text \<open>
  What an observer can reconstruct: starting from \<open>s\<close>, each reported transition must start
  where the previous one ended and change the state, probe admissions happen in
  \<^const>\<open>HalfOpen\<close> only, and every outcome is reported with the current state.
\<close>

fun obs_track :: "breaker_state \<Rightarrow> obs_event list \<Rightarrow> breaker_state option" where
  "obs_track s [] = Some s"
| "obs_track s (StateChange old new _ # es) =
     (if old = s \<and> new \<noteq> old then obs_track new es else None)"
| "obs_track s (ProbeAdmission _ # es) = (if s = HalfOpen then obs_track s es else None)"
| "obs_track s (OnOutcome _ s' # es) = (if s' = s then obs_track s es else None)"

lemma obs_track_append:
  "obs_track s (xs @ ys) = (case obs_track s xs of None \<Rightarrow> None | Some s' \<Rightarrow> obs_track s' ys)"
  by (induction s xs rule: obs_track.induct) auto

section \<open>Invariant\<close>

definition cb_inv :: "breaker \<Rightarrow> bool" where
  "cb_inv b \<longleftrightarrow>
     st b \<in> {0, 1, 2}
     \<and> (is_open_fast b \<longleftrightarrow> st b = 1)
     \<and> 0 < half_open_max_probes (config b) \<and> half_open_max_probes (config b) < U64_MOD
     \<and> half_open_probes b \<le> half_open_max_probes (config b)
     \<and> (st b \<noteq> 2 \<longrightarrow> half_open_probes b = 0)
     \<and> sw_inv (window b)
     \<and> obs_track Closed (events b) = Some (state b)"

lemma from_u8_to_u8 [simp]: "from_u8 (to_u8 s) = s"
  by (cases s) (auto simp: from_u8_def)

lemma state_simps [simp]:
  "st b = 0 \<Longrightarrow> state b = Closed"
  "st b = Suc 0 \<Longrightarrow> state b = Open"
  "st b = 2 \<Longrightarrow> state b = HalfOpen"
  by (simp_all add: state_def from_u8_def)

lemma state_eqs:
  assumes "cb_inv b"
  shows "state b = Closed \<longleftrightarrow> st b = 0" "state b = Open \<longleftrightarrow> st b = 1" "state b = HalfOpen \<longleftrightarrow> st b = 2"
  using assms by (auto simp: cb_inv_def)

lemma notify_simps [simp]:
  "config (notify e b) = config b" "st (notify e b) = st b" "baseline (notify e b) = baseline b"
  "opened_at_millis (notify e b) = opened_at_millis b"
  "half_open_probes (notify e b) = half_open_probes b"
  "probe_claimed_at_millis (notify e b) = probe_claimed_at_millis b"
  "is_open_fast (notify e b) = is_open_fast b" "window (notify e b) = window b"
  "events (notify e b) = events b @ [e]" "state (notify e b) = state b"
  "elapsed_millis (notify e b) t = elapsed_millis b t"
  by (simp_all add: notify_def state_def elapsed_millis_def)

lemma cb_inv_notify:
  assumes "cb_inv b" "obs_track (state b) [e] = Some (state b)"
  shows "cb_inv (notify e b)"
  using assms by (simp add: cb_inv_def obs_track_append)

lemma cb_inv_with_clock [inv_intros]:
  "half_open_max_probes c < U64_MOD \<Longrightarrow> cb_inv (with_clock c t)"
  by (auto simp: cb_inv_def with_clock_def inv_intros)

lemma cb_inv_window: "cb_inv b \<Longrightarrow> sw_inv w \<Longrightarrow> cb_inv (b\<lparr>window := w\<rparr>)"
  by (simp add: cb_inv_def state_def)

lemma cb_inv_trip:
  assumes "cb_inv b" "prev = state b"
  shows "cb_inv (trip b prev r t)"
  using assms
  by (auto simp: cb_inv_def trip_def Let_def obs_track_append state_def from_u8_def)

lemma cb_inv_close:
  assumes "cb_inv b" "prev = state b"
  shows "cb_inv (close b prev r)"
  using assms
  by (auto simp: cb_inv_def close_def Let_def obs_track_append state_def from_u8_def inv_intros)

lemma cb_inv_probe:
  assumes "cb_inv b" "st b = 2"
  shows "cb_inv (snd (try_half_open_probe b t))"
  using assms
  by (auto simp: cb_inv_def try_half_open_probe_def Let_def obs_track_append state_def from_u8_def)

lemma cb_inv_check_open:
  assumes "cb_inv b" "st b = 1"
  shows "cb_inv (snd (check_open b t t'))"
proof (cases "open_duration (config b) \<le> millis (elapsed_millis b t - opened_at_millis b)")
  case True
  let ?b1 = "notify (StateChange Open HalfOpen ''open_elapsed'')
               (b\<lparr>st := to_u8 HalfOpen, is_open_fast := False\<rparr>)"
  have "cb_inv ?b1"
    using assms by (auto simp: cb_inv_def obs_track_append state_def from_u8_def)
  then have "cb_inv (snd (try_half_open_probe ?b1 t'))" by (rule cb_inv_probe) simp
  then show ?thesis using True assms by (simp add: check_open_def Let_def cas_state_def)
next
  case False
  then show ?thesis using assms by (simp add: check_open_def Let_def)
qed

lemma cb_inv_check [inv_intros]: "cb_inv b \<Longrightarrow> cb_inv (snd (check b t t'))"
  by (auto simp: check_def state_eqs intro: cb_inv_check_open cb_inv_probe split: breaker_state.splits)

lemma cb_inv_record [inv_intros]:
  assumes "cb_inv b"
  shows "cb_inv (cb_record b out t t')"
proof -
  have "sw_inv (sw_evict (sw_push (window b) f t) d t)" for f d
    using assms by (simp add: cb_inv_def inv_intros)
  note w = cb_inv_window [OF assms this]
  show ?thesis
    unfolding cb_record_def Let_def
    using assms by (auto intro!: cb_inv_notify cb_inv_trip cb_inv_close w
        simp: state_def split: breaker_state.splits)
qed

lemma cb_inv_error_rate [inv_intros]: "cb_inv b \<Longrightarrow> cb_inv (snd (cb_error_rate b t))"
  by (simp add: cb_error_rate_def Let_def cb_inv_window inv_intros cb_inv_def [of b])

lemma cb_inv_force_half_open [inv_intros]: "cb_inv b \<Longrightarrow> cb_inv (force_half_open b)"
  by (auto simp: cb_inv_def force_half_open_def Let_def obs_track_append state_def from_u8_def)

lemma cb_inv_step [inv_intros]: "cb_inv b \<Longrightarrow> cb_inv (cb_step b op)"
  by (cases op) (simp_all add: inv_intros)

lemma cb_inv_run: "cb_inv b \<Longrightarrow> cb_inv (cb_run b ops)"
  by (induction ops arbitrary: b) (auto simp: cb_run_def inv_intros)

end
