(* ===== verification/Breaker_Props.thy ===== *)
theory Breaker_Props
  imports Breaker
begin

text \<open>
  What the circuit breaker promises its callers: the abstract machine it refines, when it
  trips, how long it sheds, how many probes it admits, and that it cannot get stuck.
\<close>

section \<open>Frame facts\<close>

lemma config_ops [frame_simps]:
  "config (trip b p r t) = config b" "config (close b p r) = config b"
  "config (snd (try_half_open_probe b t)) = config b"
  "config (snd (check_open b t t')) = config b"
  "baseline (trip b p r t) = baseline b" "baseline (close b p r) = baseline b"
  "baseline (snd (try_half_open_probe b t)) = baseline b"
  "baseline (snd (check_open b t t')) = baseline b"
  by (auto simp: trip_def close_def try_half_open_probe_def check_open_def cas_state_def Let_def
      split: breaker_state.splits)

lemma config_step [frame_simps]:
  "config (cb_step b op) = config b" "baseline (cb_step b op) = baseline b"
  by (cases op; auto simp: check_def cb_record_def cb_error_rate_def force_half_open_def Let_def
      frame_simps split: breaker_state.splits)+

lemma config_run [frame_simps]:
  "config (cb_run b ops) = config b" "baseline (cb_run b ops) = baseline b"
  by (induction ops arbitrary: b) (auto simp: cb_run_def frame_simps)

lemma elapsed_cong: "baseline b = baseline b' \<Longrightarrow> elapsed_millis b t = elapsed_millis b' t"
  by (simp add: elapsed_millis_def)

section \<open>The abstract machine\<close>

text \<open>
  A closed breaker is its samples; an open one remembers when it opened; a half-open one
  counts the probes in flight and remembers the last claim, which is 0 while there is none. There is
  no mirror flag, no failure counter and no byte encoding of the state.
\<close>

datatype abs_breaker =
    AClosed "sample list"
  | AOpen nat "sample list"
  | AHalf nat nat "sample list"

definition abs :: "breaker \<Rightarrow> abs_breaker" where
  "abs b = (case state b of
      Closed \<Rightarrow> AClosed (entries (window b))
    | Open \<Rightarrow> AOpen (opened_at_millis b) (entries (window b))
    | HalfOpen \<Rightarrow> AHalf (half_open_probes b) (if half_open_probes b = 0 then 0 else probe_claimed_at_millis b)
        (entries (window b)))"

definition spec_live :: "nat \<Rightarrow> sample list \<Rightarrow> bool \<Rightarrow> instant \<Rightarrow> sample list" where
  "spec_live dur xs f t =
     (let ys = (if MAX_WINDOW_ENTRIES \<le> length xs then tl xs else xs) @ [(t, f)]
      in if t < dur then ys else dropWhile (\<lambda>s. fst s < t - dur) ys)"

fun spec_probe :: "breaker_config \<Rightarrow> nat \<Rightarrow> nat \<Rightarrow> nat \<Rightarrow> sample list \<Rightarrow> (nat + unit) \<times> abs_breaker" where
  "spec_probe c now n claimed xs =
     (if n < half_open_max_probes c then (Inr (), AHalf (Suc n) now xs)
      else if (open_duration c div 1000000) mod U64_MOD \<le> now - claimed then (Inr (), AHalf n now xs)
      else (Inl (min HALF_OPEN_PROBE_BACKOFF (open_duration c)), AHalf n claimed xs))"

fun spec_check :: "breaker_config \<Rightarrow> nat \<Rightarrow> nat \<Rightarrow> abs_breaker \<Rightarrow> (nat + unit) \<times> abs_breaker" where
  "spec_check c m m' (AClosed xs) = (Inr (), AClosed xs)"
| "spec_check c m m' (AOpen opened xs) =
     (if open_duration c \<le> millis (m - opened) then (Inr (), AHalf 1 m' xs)
      else (Inl (open_duration c - millis (m - opened)), AOpen opened xs))"
| "spec_check c m m' (AHalf n claimed xs) = spec_probe c m' n claimed xs"

fun spec_record :: "breaker_config \<Rightarrow> outcome \<Rightarrow> instant \<Rightarrow> nat \<Rightarrow> abs_breaker \<Rightarrow> abs_breaker" where
  "spec_record c out t m' (AClosed xs) =
     (let ys = spec_live (window_duration c) xs (out = Failure) t
      in if min_samples c \<le> length ys
            \<and> f64_ge (f64_div (nfail ys) (length ys)) (error_rate_threshold c)
         then AOpen m' ys else AClosed ys)"
| "spec_record c out t m' (AOpen opened xs) =
     AOpen opened (spec_live (window_duration c) xs (out = Failure) t)"
| "spec_record c out t m' (AHalf n claimed xs) =
     (if out = Failure then AOpen m' xs else AClosed [])"

lemma entries_observe:
  assumes "sw_inv w"
  shows "entries (sw_evict (sw_push w f t) d t) = spec_live d (entries w) f t"
  using assms by (simp add: spec_live_def Let_def sw_evict_entries sw_push_entries)

lemma rate_observe:
  assumes "sw_inv w"
  shows "sw_error_rate (sw_evict (sw_push w f t) d t) =
         (let ys = spec_live d (entries w) f t in f64_div (nfail ys) (length ys))"
    and "sw_sample_count (sw_evict (sw_push w f t) d t) = length (spec_live d (entries w) f t)"
proof -
  let ?w = "sw_evict (sw_push w f t) d t"
  have i: "sw_inv ?w" using assms by (simp add: inv_intros)
  have "0 < sw_sample_count ?w" by (rule sw.observe_count [OF assms])
  then have ne: "entries ?w \<noteq> []" by (simp add: sw_sample_count_def)
  show "sw_error_rate ?w = (let ys = spec_live d (entries w) f t in f64_div (nfail ys) (length ys))"
    using sw.rate_eq [OF i] ne by (simp add: entries_observe [OF assms] Let_def)
  show "sw_sample_count ?w = length (spec_live d (entries w) f t)"
    by (simp add: sw_sample_count_def entries_observe [OF assms])
qed

lemma abs_probe:
  assumes "cb_inv b" "st b = 2"
  shows "map_prod id abs (try_half_open_probe b t) =
         spec_probe (config b) (elapsed_millis b t) (half_open_probes b)
           (probe_claimed_at_millis b) (entries (window b))"
proof -
  have "half_open_probes b < U64_MOD" using assms by (simp add: cb_inv_def)
  then show ?thesis
    using assms
    by (auto simp: try_half_open_probe_def Let_def abs_def cb_inv_def state_def from_u8_def)
qed

lemma abs_check:
  assumes "cb_inv b" "enabled (config b)"
  shows "map_prod id abs (check b t t') =
         spec_check (config b) (elapsed_millis b t) (elapsed_millis b t') (abs b)"
proof (cases "state b")
  case Closed
  then show ?thesis using assms by (simp add: check_def abs_def)
next
  case HalfOpen
  moreover have "0 < half_open_max_probes (config b)" using assms(1) by (simp add: cb_inv_def)
  ultimately show ?thesis
    using assms abs_probe [of b t'] by (simp add: check_def abs_def state_eqs)
next
  case Open
  let ?b1 = "notify (StateChange Open HalfOpen ''open_elapsed'')
               (b\<lparr>st := to_u8 HalfOpen, is_open_fast := False\<rparr>)"
  have s: "st b = 1" using Open assms by (simp add: state_eqs)
  have i: "cb_inv ?b1"
    using assms s by (auto simp: cb_inv_def obs_track_append state_def from_u8_def)
  have "map_prod id abs (try_half_open_probe ?b1 t') =
      spec_probe (config b) (elapsed_millis b t') 0 (probe_claimed_at_millis b) (entries (window b))"
    using abs_probe [OF i, of t'] assms s elapsed_cong [of ?b1 b t'] by (simp add: cb_inv_def)
  then show ?thesis
    using Open assms s
    by (auto simp: check_def check_open_def Let_def cas_state_def abs_def cb_inv_def)
qed

lemma abs_record:
  assumes "cb_inv b" "enabled (config b)"
  shows "abs (cb_record b out t t') =
         spec_record (config b) out t (elapsed_millis b t') (abs b)"
proof -
  have w: "sw_inv (window b)" using assms by (simp add: cb_inv_def)
  show ?thesis
    using assms
    by (cases "state b"; cases out)
      (auto simp: cb_record_def trip_def close_def Let_def abs_def notify_def state_def
        entries_observe [OF w] rate_observe [OF w] sw_clear_def elapsed_millis_def from_u8_def
        split: if_splits)
qed

text \<open>Runs of the abstract machine, with the verdicts its checks return.\<close>

fun spec_evict :: "nat \<Rightarrow> instant \<Rightarrow> abs_breaker \<Rightarrow> abs_breaker" where
  "spec_evict d t (AClosed xs) = AClosed (if t < d then xs else dropWhile (\<lambda>s. fst s < t - d) xs)"
| "spec_evict d t (AOpen m xs) = AOpen m (if t < d then xs else dropWhile (\<lambda>s. fst s < t - d) xs)"
| "spec_evict d t (AHalf n m xs) = AHalf n m (if t < d then xs else dropWhile (\<lambda>s. fst s < t - d) xs)"

definition spec_ms :: "instant \<Rightarrow> instant \<Rightarrow> nat" where
  "spec_ms t0 t = ((t - t0) div 1000000) mod U64_MOD"

text \<open>Forcing a breaker half-open keeps its samples and frees all probe slots.\<close>

fun spec_force :: "abs_breaker \<Rightarrow> abs_breaker" where
  "spec_force (AClosed xs) = AHalf 0 0 xs"
| "spec_force (AOpen m xs) = AHalf 0 0 xs"
| "spec_force (AHalf n m xs) = AHalf 0 0 xs"

fun spec_step :: "breaker_config \<Rightarrow> instant \<Rightarrow> abs_breaker \<Rightarrow> cb_op \<Rightarrow> abs_breaker" where
  "spec_step c t0 a (OpCheck t t') =
     (if enabled c then snd (spec_check c (spec_ms t0 t) (spec_ms t0 t') a) else a)"
| "spec_step c t0 a (OpRecord out t t') =
     (if enabled c then spec_record c out t (spec_ms t0 t') a else a)"
| "spec_step c t0 a (OpErrorRate t) = spec_evict (window_duration c) t a"
| "spec_step c t0 a OpForceHalfOpen = spec_force a"

fun verdicts :: "breaker \<Rightarrow> cb_op list \<Rightarrow> (nat + unit) list" where
  "verdicts b [] = []"
| "verdicts b (OpCheck t t' # ops) = fst (check b t t') # verdicts (snd (check b t t')) ops"
| "verdicts b (op # ops) = verdicts (cb_step b op) ops"

fun spec_verdicts :: "breaker_config \<Rightarrow> instant \<Rightarrow> abs_breaker \<Rightarrow> cb_op list \<Rightarrow> (nat + unit) list" where
  "spec_verdicts c t0 a [] = []"
| "spec_verdicts c t0 a (OpCheck t t' # ops) =
     (if enabled c then fst (spec_check c (spec_ms t0 t) (spec_ms t0 t') a) else Inr ())
       # spec_verdicts c t0 (spec_step c t0 a (OpCheck t t')) ops"
| "spec_verdicts c t0 a (op # ops) = spec_verdicts c t0 (spec_step c t0 a op) ops"

lemma spec_ms_elapsed: "elapsed_millis b t = spec_ms (baseline b) t"
  by (simp add: elapsed_millis_def spec_ms_def)

lemma abs_evict: "cb_inv b \<Longrightarrow> abs (snd (cb_error_rate b t)) = spec_evict (window_duration (config b)) t (abs b)"
  by (cases "state b") (auto simp: cb_error_rate_def Let_def abs_def state_def sw_evict_entries)

lemma abs_force: "abs (force_half_open b) = spec_force (abs b)"
  by (cases "state b") (simp_all add: force_half_open_def Let_def abs_def state_def from_u8_def)

lemma abs_step:
  assumes "cb_inv b"
  shows "abs (cb_step b op) = spec_step (config b) (baseline b) (abs b) op"
proof (cases op)
  case (OpCheck t t')
  then show ?thesis
  proof (cases "enabled (config b)")
    case True
    then have "abs (snd (check b t t')) =
        snd (spec_check (config b) (elapsed_millis b t) (elapsed_millis b t') (abs b))"
      using abs_check [OF assms True, of t t'] by (metis snd_map_prod)
    with True OpCheck show ?thesis by (simp add: spec_ms_elapsed)
  qed (simp add: check_def)
next
  case (OpRecord out t t')
  then show ?thesis
    using assms abs_record [OF assms] by (auto simp: spec_ms_elapsed cb_record_def)
qed (use assms in \<open>simp_all add: abs_evict abs_force\<close>)

lemma refine_verdicts:
  assumes "cb_inv b"
  shows "verdicts b ops = spec_verdicts (config b) (baseline b) (abs b) ops"
  using assms
proof (induction ops arbitrary: b)
  case (Cons op ops)
  have IH: "verdicts (cb_step b op) ops =
      spec_verdicts (config b) (baseline b) (spec_step (config b) (baseline b) (abs b) op) ops"
    using Cons abs_step [of b op] by (auto simp: frame_simps inv_intros)
  show ?case
  proof (cases op)
    case (OpCheck t t')
    have "fst (check b t t') = (if enabled (config b)
        then fst (spec_check (config b) (elapsed_millis b t) (elapsed_millis b t') (abs b)) else Inr ())"
      using abs_check [OF Cons.prems, of t t']
      by (cases "enabled (config b)") (auto simp: check_def dest: arg_cong [where f = fst])
    with OpCheck IH show ?thesis by (simp add: spec_ms_elapsed)
  qed (use Cons.prems IH in auto)
qed simp

lemma refine_run:
  assumes "cb_inv b"
  shows "abs (cb_run b ops) = foldl (spec_step (config b) (baseline b)) (abs b) ops"
  using assms
  by (induction ops arbitrary: b) (auto simp: cb_run_def abs_step frame_simps inv_intros)

text \<open>
  C15. Refinement: whatever sequence of checks, outcomes, rate reads and forced transitions the breaker
  goes through, it passes exactly the verdicts of the abstract machine to its callers and ends in
  the state the abstract machine ends in; the mirror flag, the incremental failure counter
  and the byte encoding of the state are invisible.
\<close>

theorem breaker_refines_spec:
  assumes "half_open_max_probes c < U64_MOD"
  shows "verdicts (with_clock c t0) ops =
           spec_verdicts (c\<lparr>half_open_max_probes := max (half_open_max_probes c) 1\<rparr>) t0 (AClosed []) ops
       \<and> abs (cb_run (with_clock c t0) ops) =
           foldl (spec_step (c\<lparr>half_open_max_probes := max (half_open_max_probes c) 1\<rparr>) t0) (AClosed []) ops"
proof -
  let ?b = "with_clock c t0"
  have "abs ?b = AClosed []" by (simp add: abs_def with_clock_def state_def from_u8_def sw_new_def)
  then show ?thesis
    using refine_verdicts [of ?b ops] refine_run [of ?b ops] assms cb_inv_with_clock [of c t0]
    by (simp add: with_clock_def)
qed

theorem breaker_refines_spec_witness:
  "half_open_max_probes config_client < U64_MOD
   \<and> verdicts (with_clock config_client 0) [OpRecord Failure 5 6, OpForceHalfOpen, OpCheck 7 8000000] = [Inr ()]
   \<and> abs (cb_run (with_clock config_client 0) [OpRecord Failure 5 6, OpForceHalfOpen, OpCheck 7 8000000]) =
       AHalf 1 8 [(5, True)]"
  using breaker_refines_spec [of config_client 0 "[OpRecord Failure 5 6, OpForceHalfOpen, OpCheck 7 8000000]"]
  by (simp add: config_client_def spec_live_def MAX_WINDOW_ENTRIES_def spec_ms_def)

section \<open>Invariants of every run\<close>

text \<open>
  C18. In every state a run can reach, the state byte is the code of one of the three states, the lock-free flag read by \<^verbatim>\<open>is_open()\<close> agrees with
  the authoritative state, probe slots are claimed only while half-open and never beyond the
  configured number, the incremental failure counter is the number of failed samples of a
  window of at most 10000, and the callbacks an observer received form one path of
  transitions from \<^const>\<open>Closed\<close> to the current state.
\<close>

theorem breaker_run_invariant:
  assumes "half_open_max_probes c < U64_MOD" "b = cb_run (with_clock c t0) ops"
  shows "st b = to_u8 (state b)
       \<and> (is_open b \<longleftrightarrow> state b = Open)
       \<and> half_open_probes b \<le> max (half_open_max_probes c) 1
       \<and> (state b \<noteq> HalfOpen \<longrightarrow> half_open_probes b = 0)
       \<and> failures (window b) = nfail (entries (window b))
       \<and> length (entries (window b)) \<le> MAX_WINDOW_ENTRIES
       \<and> obs_track Closed (events b) = Some (state b)"
proof -
  have i: "cb_inv b" unfolding assms(2) by (intro cb_inv_run cb_inv_with_clock assms(1))
  have "config b = config (with_clock c t0)" unfolding assms(2) by (simp add: frame_simps)
  then show ?thesis
    using i state_eqs [OF i] by (auto simp: cb_inv_def sw_inv_def is_open_def with_clock_def)
qed

theorem breaker_run_invariant_witness:
  "half_open_max_probes config_client < U64_MOD \<and>
   failures (window (cb_run (with_clock config_client 0) [OpRecord Failure 5 6])) = 1"
  using breaker_run_invariant [of config_client "cb_run (with_clock config_client 0) [OpRecord Failure 5 6]" 0
      "[OpRecord Failure 5 6]"]
  by (simp add: config_client_def cb_run_def cb_record_def with_clock_def state_def from_u8_def Let_def
      sw_push_def sw_new_def sw_evict_def sw_sample_count_def MAX_WINDOW_ENTRIES_def)

section \<open>When it trips\<close>

text \<open>Clock readings of an operation, in the order it takes them.\<close>

fun op_times :: "cb_op \<Rightarrow> instant list" where
  "op_times (OpCheck t t') = [t, t']"
| "op_times (OpRecord out t t') = [t, t']"
| "op_times (OpErrorRate t) = [t]"
| "op_times OpForceHalfOpen = []"

definition chron :: "breaker \<Rightarrow> instant \<Rightarrow> bool" where
  "chron b t \<longleftrightarrow> sorted (map fst (entries (window b)) @ [t])"

lemma chron_mono: "chron b t \<Longrightarrow> t \<le> t' \<Longrightarrow> chron b t'"
  by (auto simp: chron_def sorted_append)

lemma chron_dropWhile: "sorted (map f xs) \<Longrightarrow> sorted (map f (dropWhile P xs))"
  by (induction xs) auto

lemma chron_live:
  assumes "sorted (map fst xs @ [t])"
  shows "sorted (map fst (spec_live d xs f t) @ [t])"
proof -
  let ?ys = "(if MAX_WINDOW_ENTRIES \<le> length xs then tl xs else xs) @ [(t, f)]"
  have le: "sorted (map fst xs)" "\<forall>x \<in> set xs. fst x \<le> t" using assms by (auto simp: sorted_append)
  have "sorted (map fst (tl xs))" "\<forall>x \<in> set (tl xs). fst x \<le> t"
    using le by (cases xs; auto)+
  with le have "sorted (map fst ?ys)" "\<forall>x \<in> set ?ys. fst x \<le> t" by (auto simp: sorted_append)
  note ys = this
  have "sorted (map fst (dropWhile P ?ys))" for P using ys(1) by (rule chron_dropWhile)
  moreover have "\<forall>x \<in> set (dropWhile P ?ys). fst x \<le> t" for P using ys(2) by (meson set_dropWhileD)
  ultimately show ?thesis
    using ys by (simp add: spec_live_def Let_def sorted_append)
qed

lemma window_step:
  assumes "cb_inv b"
  shows "window (cb_step b op) = window b
       \<or> entries (window (cb_step b op)) = []
       \<or> (\<exists>d f t t' out. op = OpRecord out t t' \<and> entries (window (cb_step b op)) = spec_live d (entries (window b)) f t)
       \<or> (\<exists>P t. op = OpErrorRate t \<and> entries (window (cb_step b op)) = dropWhile P (entries (window b)))"
proof (cases op)
  case (OpCheck t t')
  then show ?thesis
    by (auto simp: check_def check_open_def try_half_open_probe_def cas_state_def Let_def
        split: breaker_state.splits)
next
  case (OpRecord out t t')
  have w: "sw_inv (window b)" using assms by (simp add: cb_inv_def)
  show ?thesis
    using OpRecord
    by (auto simp: cb_record_def trip_def close_def Let_def entries_observe [OF w] sw_clear_def
        split: breaker_state.splits)
next
  case (OpErrorRate t)
  then show ?thesis by (auto simp: cb_error_rate_def Let_def sw_evict_def sw_evict_loop_spec)
qed (auto simp: force_half_open_def Let_def)

lemma chron_step:
  assumes "cb_inv b" "chron b t0" "sorted (t0 # op_times op)" "\<forall>t \<in> set (t0 # op_times op). t \<le> u"
  shows "chron (cb_step b op) u"
proof -
  have b: "chron b t" if "t0 \<le> t" for t using assms(2) that by (rule chron_mono)
  from window_step [OF assms(1), of op] show ?thesis
  proof (elim disjE exE conjE)
    fix d f t t' out
    assume "op = OpRecord out t t'" "entries (window (cb_step b op)) = spec_live d (entries (window b)) f t"
    then have "chron (cb_step b op) t" using chron_live b [of t] assms(3) by (simp add: chron_def)
    then show ?thesis using \<open>op = OpRecord out t t'\<close> assms(4) by (auto intro: chron_mono)
  next
    fix P t
    assume "entries (window (cb_step b op)) = dropWhile P (entries (window b))"
    then show ?thesis
      using b [of u] assms(4) by (auto simp: chron_def sorted_append intro: chron_dropWhile dest: set_dropWhileD)
  qed (use b [of u] assms(4) in \<open>auto simp: chron_def\<close>)
qed

lemma chron_run:
  assumes "cb_inv b" "chron b t0" "sorted (t0 # concat (map op_times ops) @ [u])"
  shows "chron (cb_run b ops) u"
  using assms
proof (induction ops arbitrary: b t0)
  case (Cons op ops)
  let ?t1 = "last (t0 # op_times op)"
  have s: "sorted (t0 # op_times op)" "\<forall>t \<in> set (t0 # op_times op). t \<le> ?t1"
    using Cons.prems(3) by (cases op; auto simp: sorted_append)+
  have "chron (cb_step b op) ?t1" using chron_step Cons.prems(1,2) s by blast
  moreover have "sorted (?t1 # concat (map op_times ops) @ [u])"
    using Cons.prems(3) by (cases op) (auto simp: sorted_append)
  ultimately show ?case using Cons.IH [of "cb_step b op" ?t1] Cons.prems(1)
    by (simp add: cb_run_def inv_intros)
qed (auto simp: cb_run_def intro: chron_mono)

text \<open>
  C24. With the server preset and a clock that does not run backwards, a closed breaker opens
  on an outcome exactly when the samples of the last 60 seconds, the new one included, are at
  least 10 and at least half of them failed: the comparison of the double \<open>failures / samples\<close>
  with \<open>0.5\<close> makes no rounding error. Otherwise it stays closed.
\<close>

theorem server_trips_iff_half_failed:
  assumes "sorted (t0 # concat (map op_times ops) @ [t])"
    and "b = cb_run (with_clock config_server t0) ops" "state b = Closed"
    and "live = filter (\<lambda>s. t \<le> fst s + secs 60) (entries (sw_push (window b) (out = Failure) t))"
  shows "state (cb_record b out t t') =
           (if 10 \<le> length live \<and> length live \<le> 2 * nfail live then Open else Closed)"
proof -
  let ?w = "sw_push (window b) (out = Failure) t"
  let ?w' = "sw_evict ?w (secs 60) t"
  have c: "config b = config_server" unfolding assms(2)
    by (simp add: frame_simps with_clock_def config_server_def)
  have i0: "cb_inv (with_clock config_server t0)"
    by (rule cb_inv_with_clock) (simp add: config_server_def)
  have i: "cb_inv b" unfolding assms(2) by (rule cb_inv_run [OF i0])
  then have w: "sw_inv (window b)" by (simp add: cb_inv_def)
  have "chron (with_clock config_server t0) t0" by (simp add: chron_def with_clock_def sw_new_def)
  then have "chron b t" unfolding assms(2) using chron_run [OF i0 _ assms(1)] by blast
  then have "sorted (map fst (entries ?w))"
    by (cases "entries (window b)") (auto simp: chron_def sw_push_entries sorted_append)
  then have live: "entries ?w' = live"
    using sw.evict_live [of ?w "secs 60" t] w by (simp add: assms(4) inv_intros)
  have "entries ?w' \<noteq> []" using sw.observe_count [OF w, of "out = Failure" t "secs 60"]
    by (simp add: sw_sample_count_def)
  then have "1 / 2 \<le> sw_error_rate ?w' \<longleftrightarrow> length live \<le> 2 * nfail live"
    using sw.rate_half_iff [of ?w'] w live by (simp add: inv_intros)
  moreover have "sw_sample_count ?w' = length live" using live by (simp only: sw_sample_count_def)
  moreover have "st b = 0" using assms(3) state_eqs [OF i] by simp
  ultimately show ?thesis
    using c
    by (simp add: cb_record_def Let_def config_server_def trip_def notify_def state_def from_u8_def)
qed

lemmas cb_eval = cb_run_def cb_record_def with_clock_def config_server_def config_client_def
  Let_def state_def from_u8_def sw_new_def sw_push_def sw_evict_def sw_sample_count_def
  MAX_WINDOW_ENTRIES_def notify_def

definition nine_failures :: "cb_op list" where
  "nine_failures = [OpRecord Failure 1 1, OpRecord Failure 2 2, OpRecord Failure 3 3,
     OpRecord Failure 4 4, OpRecord Failure 5 5, OpRecord Failure 6 6, OpRecord Failure 7 7,
     OpRecord Failure 8 8, OpRecord Failure 9 9]"

theorem server_trips_iff_half_failed_witness:
  "sorted (0 # concat (map op_times nine_failures) @ [10])
   \<and> state (cb_run (with_clock config_server 0) nine_failures) = Closed
   \<and> state (cb_record (cb_run (with_clock config_server 0) nine_failures) Success 10 10) = Open"
proof -
  let ?b = "cb_run (with_clock config_server 0) nine_failures"
  have s: "sorted (0 # concat (map op_times nine_failures) @ [10])" by (simp add: nine_failures_def)
  have c: "state ?b = Closed" "entries (window ?b) = map (\<lambda>n. (n, True)) [1, 2, 3, 4, 5, 6, 7, 8, 9]"
    by (simp_all add: nine_failures_def cb_eval)
  have l: "filter (\<lambda>s. 10 \<le> fst s + secs 60) (entries (sw_push (window ?b) (Success = Failure) 10))
      = map (\<lambda>n. (n, True)) [1, 2, 3, 4, 5, 6, 7, 8, 9] @ [(10, False)]"
    by (simp add: sw_push_entries c MAX_WINDOW_ENTRIES_def)
  show ?thesis
    using server_trips_iff_half_failed [OF s refl c(1) refl, of Success 10] s c(1)
    unfolding l by simp
qed

section \<open>Shedding, probing, recovery\<close>

text \<open>
  While open and before the cool-down has passed, \<^verbatim>\<open>check()\<close> refuses the request,
  reports exactly the remaining cool-down, a positive duration, and changes nothing.
\<close>

theorem open_breaker_sheds:
  assumes "enabled (config b)" "state b = Open"
    and "millis (elapsed_millis b t - opened_at_millis b) < open_duration (config b)"
  shows "check b t t' = (Inl (open_duration (config b) - millis (elapsed_millis b t - opened_at_millis b)), b)
       \<and> 0 < open_duration (config b) - millis (elapsed_millis b t - opened_at_millis b)"
  using assms by (simp add: check_def check_open_def Let_def)

definition tripped :: breaker where
  "tripped = trip (with_clock config_server 0) Closed ''trip'' (secs 1)"

theorem open_breaker_sheds_witness:
  "enabled (config tripped) \<and> state tripped = Open
   \<and> check tripped (secs 4) (secs 4) = (Inl (secs 7), tripped)"
proof -
  have "enabled (config tripped)" "state tripped = Open"
    "elapsed_millis tripped (secs 4) = 4000" "opened_at_millis tripped = 1000"
    "open_duration (config tripped) = secs 10"
    by (simp_all add: tripped_def trip_def cb_eval elapsed_millis_def)
  then show ?thesis using open_breaker_sheds [of tripped "secs 4" "secs 4"] by simp
qed

text \<open>Checks of one breaker at the given pairs of clock readings.\<close>

definition admitted :: "breaker \<Rightarrow> (instant \<times> instant) list \<Rightarrow> nat" where
  "admitted b ts = length (filter (\<lambda>v. \<not> isl v) (verdicts b (map (\<lambda>(t, t'). OpCheck t t') ts)))"

lemma admitted_Cons:
  "admitted b ((t, t') # ts) =
     (if \<not> isl (fst (check b t t')) then 1 else 0) + admitted (snd (check b t t')) ts"
  by (simp add: admitted_def)

lemma half_open_check:
  assumes "cb_inv b" "enabled (config b)" "st b = 2"
    and "elapsed_millis b t' - probe_claimed_at_millis b < (open_duration (config b) div 1000000) mod U64_MOD"
  shows "\<not> isl (fst (check b t t')) \<longleftrightarrow> half_open_probes b < half_open_max_probes (config b)"
    and "st (snd (check b t t')) = 2"
    and "half_open_probes (snd (check b t t')) =
           (if half_open_probes b < half_open_max_probes (config b) then Suc (half_open_probes b) else half_open_probes b)"
    and "probe_claimed_at_millis (snd (check b t t')) =
           (if half_open_probes b < half_open_max_probes (config b) then elapsed_millis b t' else probe_claimed_at_millis b)"
proof -
  have "half_open_probes b < U64_MOD" using assms by (simp add: cb_inv_def)
  then show "\<not> isl (fst (check b t t')) \<longleftrightarrow> half_open_probes b < half_open_max_probes (config b)"
    "st (snd (check b t t')) = 2"
    "half_open_probes (snd (check b t t')) =
       (if half_open_probes b < half_open_max_probes (config b) then Suc (half_open_probes b) else half_open_probes b)"
    "probe_claimed_at_millis (snd (check b t t')) =
       (if half_open_probes b < half_open_max_probes (config b) then elapsed_millis b t' else probe_claimed_at_millis b)"
    using assms by (auto simp: check_def try_half_open_probe_def Let_def cb_inv_def)
qed

lemma admitted_half_open:
  assumes "cb_inv b" "enabled (config b)" "st b = 2"
    and "\<forall>(t, t') \<in> set ts. m \<le> elapsed_millis b t'
           \<and> elapsed_millis b t' - m < (open_duration (config b) div 1000000) mod U64_MOD"
    and "m \<le> probe_claimed_at_millis b"
  shows "admitted b ts = min (length ts) (half_open_max_probes (config b) - half_open_probes b)"
  using assms
proof (induction ts arbitrary: b)
  case (Cons p ts)
  obtain t t' where p: "p = (t, t')" by (cases p)
  let ?b = "snd (check b t t')"
  have lease: "elapsed_millis b t' - probe_claimed_at_millis b < (open_duration (config b) div 1000000) mod U64_MOD"
    using Cons.prems(4,5) p by auto
  note c = half_open_check [OF Cons.prems(1-3) lease]
  have f: "config ?b = config b" "\<And>u. elapsed_millis ?b u = elapsed_millis b u"
    using config_step [of b "OpCheck t t'"] by (simp_all add: elapsed_millis_def)
  have "admitted ?b ts = min (length ts) (half_open_max_probes (config ?b) - half_open_probes ?b)"
  proof (rule Cons.IH)
    show "cb_inv ?b" using Cons.prems(1) by (rule cb_inv_check)
    show "m \<le> probe_claimed_at_millis ?b" using c(4) Cons.prems(4,5) p by auto
  qed (use Cons.prems c f in auto)
  then show ?case
    using c f unfolding p admitted_Cons by (auto simp: min_def)
qed (simp add: admitted_def)

text \<open>
  C30. After the cool-down of an enabled breaker a burst of requests gets exactly the configured number of probes
  through, at least one, however many requests there are, as long as the burst stays within the lease of
  the first probe; the other requests are refused.
\<close>

theorem cooldown_admits_exactly_max_probes:
  assumes "half_open_max_probes c < U64_MOD" "enabled c"
    and "b = cb_run (with_clock c t0) ops" "state b = Open"
    and "open_duration c \<le> millis (elapsed_millis b t - opened_at_millis b)"
    and "\<forall>(u, u') \<in> set ts. elapsed_millis b t' \<le> elapsed_millis b u'
           \<and> elapsed_millis b u' - elapsed_millis b t' < (open_duration c div 1000000) mod U64_MOD"
  shows "admitted b ((t, t') # ts) = min (Suc (length ts)) (max (half_open_max_probes c) 1)"
proof -
  let ?b1 = "notify (StateChange Open HalfOpen ''open_elapsed'')
               (b\<lparr>st := to_u8 HalfOpen, is_open_fast := False\<rparr>)"
  let ?b = "snd (check b t t')"
  have cfg: "config b = c\<lparr>half_open_max_probes := max (half_open_max_probes c) 1\<rparr>"
    unfolding assms(3) by (simp add: frame_simps with_clock_def)
  have i: "cb_inv b" unfolding assms(3) by (intro cb_inv_run cb_inv_with_clock assms(1))
  then have s: "st b = 1" "half_open_probes b = 0" using assms(4) state_eqs [OF i] by (auto simp: cb_inv_def)
  have ch: "check b t t' = try_half_open_probe ?b1 t'"
    using assms(2,4,5) cfg s by (simp add: check_def check_open_def Let_def cas_state_def)
  have f: "\<not> isl (fst (check b t t'))" "st ?b = 2" "half_open_probes ?b = 1"
    "probe_claimed_at_millis ?b = elapsed_millis b t'"
    unfolding ch using s cfg by (simp_all add: try_half_open_probe_def Let_def elapsed_millis_def)
  have cb: "config ?b = config b" "\<And>u. elapsed_millis ?b u = elapsed_millis b u"
    using config_step [of b "OpCheck t t'"] by (simp_all add: elapsed_millis_def)
  have "admitted ?b ts = min (length ts) (half_open_max_probes (config ?b) - half_open_probes ?b)"
    by (rule admitted_half_open [where m = "elapsed_millis b t'"])
      (use i f cb cfg assms in \<open>auto simp: inv_intros\<close>)
  then show ?thesis using f cb cfg by (auto simp: admitted_Cons)
qed

definition eager :: breaker_config where
  "eager = config_server\<lparr>min_samples := 1\<rparr>"

definition eager_ops :: "cb_op list" where
  "eager_ops = [OpRecord Failure (secs 1) (secs 1)]"

lemma eager_opens:
  "state (cb_run (with_clock eager 0) eager_ops) = Open"
  "opened_at_millis (cb_run (with_clock eager 0) eager_ops) = 1000"
  "elapsed_millis (cb_run (with_clock eager 0) eager_ops) t = spec_ms 0 t"
  by (simp_all add: eager_def eager_ops_def cb_eval sw_error_rate_def f64_div_self trip_def elapsed_millis_def spec_ms_def)

theorem cooldown_admits_exactly_max_probes_witness:
  "state (cb_run (with_clock eager 0) eager_ops) = Open
   \<and> admitted (cb_run (with_clock eager 0) eager_ops)
        [(secs 11, secs 11), (secs 12, secs 12), (secs 13, secs 13)] = 1"
  using cooldown_admits_exactly_max_probes [of eager
      "cb_run (with_clock eager 0) eager_ops" 0
      eager_ops "secs 11" "[(secs 12, secs 12), (secs 13, secs 13)]" "secs 11"]
  by (simp add: eager_opens) (simp add: eager_def config_server_def spec_ms_def)

text \<open>
  The outcome of a probe decides: success closes the breaker with an empty window and all
  slots free, failure opens it again, starting a full new cool-down at the time of the trip.
\<close>

theorem probe_outcome_decides:
  assumes "enabled (config b)" "state b = HalfOpen"
  shows "(state (cb_record b Success t t') = Closed
          \<and> entries (window (cb_record b Success t t')) = []
          \<and> half_open_probes (cb_record b Success t t') = 0
          \<and> \<not> is_open (cb_record b Success t t'))
       \<and> (state (cb_record b Failure t t') = Open
          \<and> opened_at_millis (cb_record b Failure t t') = elapsed_millis b t'
          \<and> half_open_probes (cb_record b Failure t t') = 0
          \<and> is_open (cb_record b Failure t t'))"
  using assms
  by (simp add: cb_record_def Let_def close_def trip_def is_open_def sw_clear_def state_def from_u8_def)

theorem probe_outcome_decides_witness:
  "enabled (config (force_half_open tripped)) \<and> state (force_half_open tripped) = HalfOpen
   \<and> state (cb_record (force_half_open tripped) Success 5 6) = Closed
   \<and> state (cb_record (force_half_open tripped) Failure 5 6) = Open"
proof -
  have "enabled (config (force_half_open tripped))" "state (force_half_open tripped) = HalfOpen"
    by (simp_all add: tripped_def trip_def cb_eval force_half_open_def)
  then show ?thesis using probe_outcome_decides [of "force_half_open tripped" 5 6] by simp
qed

text \<open>
  C29. The breaker cannot strand its callers: from every reachable state, whatever probes were
  lost on the way, a request made at least one cool-down after the last time the breaker
  opened and the last time a probe was claimed is let through.
\<close>

theorem breaker_never_stuck:
  assumes "half_open_max_probes c < U64_MOD" "open_duration c div 1000000 < U64_MOD"
    and "b = cb_run (with_clock c t0) ops"
    and "open_duration c \<le> millis (elapsed_millis b t - opened_at_millis b)"
    and "open_duration c \<le> millis (elapsed_millis b t' - probe_claimed_at_millis b)"
  shows "fst (check b t t') = Inr ()"
proof -
  have cfg: "config b = c\<lparr>half_open_max_probes := max (half_open_max_probes c) 1\<rparr>"
    unfolding assms(3) by (simp add: frame_simps with_clock_def)
  have i: "cb_inv b" unfolding assms(3) by (intro cb_inv_run cb_inv_with_clock assms(1))
  have lease: "(open_duration c div 1000000) mod U64_MOD \<le> elapsed_millis b t' - probe_claimed_at_millis b"
    using assms(2,5) by simp
  consider "\<not> enabled (config b)" | "state b = Closed" | "state b = HalfOpen"
    | "enabled (config b)" "state b = Open" by (cases "state b") auto
  then show ?thesis
  proof cases
    case 3
    then show ?thesis
      using lease cfg by (auto simp: check_def try_half_open_probe_def Let_def)
  next
    case 4
    then have "st b = 1" "half_open_probes b = 0" using state_eqs [OF i] i by (auto simp: cb_inv_def)
    with 4 show ?thesis
      using assms(4) cfg
      by (simp add: check_def check_open_def cas_state_def try_half_open_probe_def Let_def)
  qed (simp_all add: check_def)
qed

theorem breaker_never_stuck_witness:
  "state (cb_run (with_clock eager 0) eager_ops) = Open
   \<and> fst (check (cb_run (with_clock eager 0) eager_ops) (secs 11) (secs 11)) = Inr ()"
proof -
  let ?b = "cb_run (with_clock eager 0) eager_ops"
  have p: "probe_claimed_at_millis ?b = 0"
    by (simp add: eager_def eager_ops_def cb_eval sw_error_rate_def f64_div_self trip_def)
  have o: "open_duration eager = secs 10" "half_open_max_probes eager = 1"
    by (simp_all add: eager_def config_server_def)
  have "spec_ms 0 (secs 11) = 11000" by (simp add: spec_ms_def)
  then show ?thesis
    using breaker_never_stuck [of eager ?b 0 eager_ops "secs 11" "secs 11"] p o
    by (simp add: eager_opens)
qed

end
