(* ===== verification/Breaker_Conc.thy ===== *)
theory Breaker_Conc
  imports Breaker_Props
begin

text \<open>
  The breaker under concurrency. \<^verbatim>\<open>check()\<close> and \<^verbatim>\<open>record()\<close> of
  \<^verbatim>\<open>crates/common/ccode-circuit-breaker/src/breaker.rs\<close> are cut at every access to an
  atomic, to the window mutex and to the clock; any number of threads interleave these
  steps. Memory is sequentially consistent, so every schedule shown to exist here exists
  under the acquire/release orderings of the source too. Observer callbacks do not touch
  the breaker and are left out.
\<close>

section \<open>Threads\<close>

text \<open>
  The program counter of a thread names its next access. \<open>C\<close> is \<^verbatim>\<open>check\<close> and
  \<^verbatim>\<open>check_open\<close>, \<open>P\<close> is \<^verbatim>\<open>try_half_open_probe\<close>, \<open>R\<close> is \<^verbatim>\<open>record\<close>,
  \<open>T\<close> is \<^verbatim>\<open>trip\<close>, \<open>L\<close> is \<^verbatim>\<open>close\<close>.
\<close>

datatype pc =
    Idle
  | CState | COpened | CElapsed nat | CCas | CFast
  | CReload | CReOpened | CReElapsed nat
  | PNow | PAdd nat | PClaim nat | PSub nat | PLoad nat | PCas nat nat
  | RNow outcome | RState outcome instant | RClosed outcome instant | ROpen outcome instant
  | TState | TNow | TOpened nat | TProbes | TFast
  | LState | LWindow | LProbes | LFast
  | Passed | Probing | Refused nat | Recorded

fun thread_step :: "instant \<Rightarrow> breaker \<Rightarrow> pc \<Rightarrow> pc \<times> breaker" where
  "thread_step now b Idle = (Idle, b)"
| "thread_step now b CState =
     (if \<not> enabled (config b) then (Passed, b)
      else case state b of Closed \<Rightarrow> (Passed, b) | Open \<Rightarrow> (COpened, b) | HalfOpen \<Rightarrow> (PNow, b))"
| "thread_step now b COpened = (CElapsed (opened_at_millis b), b)"
| "thread_step now b (CElapsed opened) =
     (let elapsed = millis (elapsed_millis b now - opened)
      in if open_duration (config b) \<le> elapsed then (CCas, b)
         else (Refused (open_duration (config b) - elapsed), b))"
| "thread_step now b CCas =
     (case cas_state b Open HalfOpen of (True, b1) \<Rightarrow> (CFast, b1) | (False, b1) \<Rightarrow> (CReload, b1))"
| "thread_step now b CFast = (PNow, b\<lparr>is_open_fast := False\<rparr>)"
| "thread_step now b CReload =
     (case state b of Closed \<Rightarrow> (Passed, b) | HalfOpen \<Rightarrow> (PNow, b) | Open \<Rightarrow> (CReOpened, b))"
| "thread_step now b CReOpened = (CReElapsed (opened_at_millis b), b)"
| "thread_step now b (CReElapsed opened) =
     (Refused (open_duration (config b) - millis (elapsed_millis b now - opened)), b)"
| "thread_step now b PNow = (PAdd (elapsed_millis b now), b)"
| "thread_step now b (PAdd m) =
     (if half_open_probes b < half_open_max_probes (config b) then PClaim m else PSub m,
      b\<lparr>half_open_probes := wrap_inc (half_open_probes b)\<rparr>)"
| "thread_step now b (PClaim m) = (Probing, b\<lparr>probe_claimed_at_millis := m\<rparr>)"
| "thread_step now b (PSub m) = (PLoad m, b\<lparr>half_open_probes := wrap_dec (half_open_probes b)\<rparr>)"
| "thread_step now b (PLoad m) = (PCas m (probe_claimed_at_millis b), b)"
| "thread_step now b (PCas m claimed) =
     (if (open_duration (config b) div 1000000) mod U64_MOD \<le> m - claimed
         \<and> probe_claimed_at_millis b = claimed
      then (Probing, b\<lparr>probe_claimed_at_millis := m\<rparr>)
      else (Refused (min HALF_OPEN_PROBE_BACKOFF (open_duration (config b))), b))"
| "thread_step now b (RNow out) =
     (if \<not> enabled (config b) then (Recorded, b) else (RState out now, b))"
| "thread_step now b (RState out t) =
     (case state b of
        Closed \<Rightarrow> (RClosed out t, b)
      | HalfOpen \<Rightarrow> (if out = Failure then TState else LState, b)
      | Open \<Rightarrow> (ROpen out t, b))"
| "thread_step now b (RClosed out t) =
     (let w = sw_evict (sw_push (window b) (out = Failure) t) (window_duration (config b)) t
      in (if min_samples (config b) \<le> sw_sample_count w
             \<and> f64_ge (sw_error_rate w) (error_rate_threshold (config b))
          then TState else Recorded, b\<lparr>window := w\<rparr>))"
| "thread_step now b (ROpen out t) =
     (Recorded, b\<lparr>window := sw_evict (sw_push (window b) (out = Failure) t) (window_duration (config b)) t\<rparr>)"
| "thread_step now b TState = (TNow, b\<lparr>st := to_u8 Open\<rparr>)"
| "thread_step now b TNow = (TOpened (elapsed_millis b now), b)"
| "thread_step now b (TOpened m) = (TProbes, b\<lparr>opened_at_millis := m\<rparr>)"
| "thread_step now b TProbes = (TFast, b\<lparr>half_open_probes := 0\<rparr>)"
| "thread_step now b TFast = (Recorded, b\<lparr>is_open_fast := True\<rparr>)"
| "thread_step now b LState = (LWindow, b\<lparr>st := to_u8 Closed\<rparr>)"
| "thread_step now b LWindow = (LProbes, b\<lparr>window := sw_clear (window b)\<rparr>)"
| "thread_step now b LProbes = (LFast, b\<lparr>half_open_probes := 0\<rparr>)"
| "thread_step now b LFast = (Recorded, b\<lparr>is_open_fast := False\<rparr>)"
| "thread_step now b Passed = (Passed, b)"
| "thread_step now b Probing = (Probing, b)"
| "thread_step now b (Refused r) = (Refused r, b)"
| "thread_step now b Recorded = (Recorded, b)"

section \<open>Schedules\<close>

record csys =
  shared :: breaker
  clock :: instant
  pcs :: "pc list"

datatype sched = Run nat | Tick nat

fun csys_step :: "csys \<Rightarrow> sched \<Rightarrow> csys" where
  "csys_step s (Run i) =
     (if i < length (pcs s)
      then let (p, b) = thread_step (clock s) (shared s) (pcs s ! i)
           in s\<lparr>shared := b, pcs := (pcs s)[i := p]\<rparr>
      else s)"
| "csys_step s (Tick d) = s\<lparr>clock := clock s + d\<rparr>"

definition csys_run :: "csys \<Rightarrow> sched list \<Rightarrow> csys" where
  "csys_run s es = foldl csys_step s es"

section \<open>A thread that runs alone is the sequential operation\<close>

definition solo :: "instant \<Rightarrow> pc \<times> breaker \<Rightarrow> pc \<times> breaker" where
  "solo t = (\<lambda>(p, b). thread_step t b p)"

fun verdict :: "pc \<Rightarrow> (nat + unit) option" where
  "verdict Passed = Some (Inr ())"
| "verdict Probing = Some (Inr ())"
| "verdict (Refused r) = Some (Inl r)"
| "verdict _ = None"

lemma solo_simps [simp]:
  "solo t (p, b) = thread_step t b p"
  by (simp add: solo_def)

lemma funpow_Suc_apply [simp]: "(f ^^ Suc n) x = (f ^^ n) (f x)"
  by (simp add: funpow_swap1)

lemma ten: "(10::nat) = Suc (Suc (Suc (Suc (Suc (Suc (Suc (Suc (Suc (Suc 0)))))))))"
  by simp

lemma eight: "(8::nat) = Suc (Suc (Suc (Suc (Suc (Suc (Suc (Suc 0)))))))"
  by simp

text \<open>
  The interleaving model refines to the sequential one: ten steps of a thread that runs
  \<^verbatim>\<open>check()\<close> undisturbed end with the verdict and the breaker of the sequential
  operation, and eight steps of \<^verbatim>\<open>record()\<close> with the breaker of the sequential one
  (the observer log apart).
\<close>

theorem solo_thread_is_sequential:
  "(case (solo t ^^ 10) (CState, b) of (p, b') \<Rightarrow>
      verdict p = Some (fst (check b t t)) \<and> b' = (snd (check b t t))\<lparr>events := events b\<rparr>)
   \<and> (solo t ^^ 8) (RNow out, b) = (Recorded, (cb_record b out t t)\<lparr>events := events b\<rparr>)"
proof
  show "case (solo t ^^ 10) (CState, b) of (p, b') \<Rightarrow>
      verdict p = Some (fst (check b t t)) \<and> b' = (snd (check b t t))\<lparr>events := events b\<rparr>"
  proof (cases "state b")
    case Open
    then have "st b = 1" by (simp add: state_def from_u8_def split: if_splits)
    with Open show ?thesis
      unfolding ten
      by (simp add: check_def check_open_def try_half_open_probe_def cas_state_def Let_def notify_def
          elapsed_millis_def)
  qed (unfold ten, simp_all add: check_def try_half_open_probe_def Let_def notify_def)
  show "(solo t ^^ 8) (RNow out, b) = (Recorded, (cb_record b out t t)\<lparr>events := events b\<rparr>)"
    unfolding eight
    by (cases "state b"; cases out)
      (simp_all add: cb_record_def trip_def close_def Let_def notify_def elapsed_millis_def state_def)
qed

section \<open>A burst of concurrent checks\<close>

fun ticks :: "sched list \<Rightarrow> nat" where
  "ticks [] = 0"
| "ticks (Tick d # es) = d + ticks es"
| "ticks (Run i # es) = ticks es"

abbreviation num :: "(pc \<Rightarrow> bool) \<Rightarrow> pc list \<Rightarrow> nat" where
  "num P ps \<equiv> length (filter P ps)"

fun claiming :: "pc \<Rightarrow> bool" where
  "claiming (PClaim m) = True"
| "claiming Probing = True"
| "claiming _ = False"

fun giving_back :: "pc \<Rightarrow> bool" where
  "giving_back (PSub m) = True"
| "giving_back _ = False"

text \<open>Threads that run a check; the clock readings they hold lie in the lease that starts at \<open>m0\<close>.\<close>

fun in_check :: "nat \<Rightarrow> nat \<Rightarrow> pc \<Rightarrow> bool" where
  "in_check m0 lease (PAdd m) \<longleftrightarrow> m0 \<le> m \<and> m < m0 + lease"
| "in_check m0 lease (PClaim m) \<longleftrightarrow> m0 \<le> m \<and> m < m0 + lease"
| "in_check m0 lease (PSub m) \<longleftrightarrow> m0 \<le> m \<and> m < m0 + lease"
| "in_check m0 lease (PLoad m) \<longleftrightarrow> m0 \<le> m \<and> m < m0 + lease"
| "in_check m0 lease (PCas m _) \<longleftrightarrow> m0 \<le> m \<and> m < m0 + lease"
| "in_check m0 lease (RNow _) \<longleftrightarrow> False"
| "in_check m0 lease (RState _ _) \<longleftrightarrow> False"
| "in_check m0 lease (RClosed _ _) \<longleftrightarrow> False"
| "in_check m0 lease (ROpen _ _) \<longleftrightarrow> False"
| "in_check m0 lease TState \<longleftrightarrow> False"
| "in_check m0 lease TNow \<longleftrightarrow> False"
| "in_check m0 lease (TOpened _) \<longleftrightarrow> False"
| "in_check m0 lease TProbes \<longleftrightarrow> False"
| "in_check m0 lease TFast \<longleftrightarrow> False"
| "in_check m0 lease LState \<longleftrightarrow> False"
| "in_check m0 lease LWindow \<longleftrightarrow> False"
| "in_check m0 lease LProbes \<longleftrightarrow> False"
| "in_check m0 lease LFast \<longleftrightarrow> False"
| "in_check m0 lease _ \<longleftrightarrow> True"

text \<open>
  The invariant of the burst. \<open>x\<close> is the number of probes admitted by taking over a stale
  claim: at most one, and once it has happened the claim is fresh.
\<close>

definition burst_inv :: "breaker_config \<Rightarrow> instant \<Rightarrow> nat \<Rightarrow> nat \<Rightarrow> breaker \<Rightarrow> pc list \<Rightarrow> bool" where
  "burst_inv c base m0 lease b ps \<longleftrightarrow>
     config b = c \<and> baseline b = base
     \<and> list_all (in_check m0 lease) ps
     \<and> (\<exists>x. x \<le> 1 \<and> (x = 1 \<longrightarrow> m0 \<le> probe_claimed_at_millis b)
           \<and> x \<le> num (\<lambda>p. p = Probing) ps
           \<and> half_open_probes b + x = num claiming ps + num giving_back ps
           \<and> num claiming ps \<le> half_open_max_probes c + x)"

lemma num_claiming_split: "num claiming ps + num giving_back ps \<le> length ps"
proof (induction ps)
  case (Cons p ps)
  then show ?case by (cases p) auto
qed simp

lemma probing_le_claiming: "num (\<lambda>p. p = Probing) ps \<le> num claiming ps"
proof (induction ps)
  case (Cons p ps)
  then show ?case by (cases p) auto
qed simp

lemma burst_step:
  assumes inv: "burst_inv c base m0 lease b ps" and i: "i < length ps" and len: "length ps + 1 < U64_MOD"
    and lease: "lease = (open_duration c div 1000000) mod U64_MOD"
    and now: "m0 \<le> elapsed_millis b now" "elapsed_millis b now < m0 + lease"
    and step: "thread_step now b (ps ! i) = (p, b')"
  shows "burst_inv c base m0 lease b' (ps[i := p])"
proof -
  from inv obtain x where c: "config b = c" "baseline b = base"
    and all: "list_all (in_check m0 lease) ps"
    and x: "x \<le> 1" "x = 1 \<longrightarrow> m0 \<le> probe_claimed_at_millis b" "x \<le> num (\<lambda>p. p = Probing) ps"
      "half_open_probes b + x = num claiming ps + num giving_back ps"
      "num claiming ps \<le> half_open_max_probes c + x"
    by (auto simp: burst_inv_def)
  have pi: "in_check m0 lease (ps ! i)" using all i by (simp add: list_all_length)
  note upd = length_filter_update [OF i, where y = p]
  have small: "half_open_probes b + 1 < U64_MOD"
    using x(4) num_claiming_split [of ps] len by linarith
  have upds: "list_all (in_check m0 lease) (ps[i := p])" if "in_check m0 lease p"
    using all that i by (simp add: list_all_length nth_list_update)
  have quiet: ?thesis
    if "half_open_probes b' = half_open_probes b" "probe_claimed_at_millis b' = probe_claimed_at_millis b"
      "config b' = c" "baseline b' = base" "in_check m0 lease p"
      "\<not> claiming (ps ! i)" "\<not> claiming p" "\<not> giving_back (ps ! i)" "\<not> giving_back p"
  proof -
    have "num claiming (ps[i := p]) = num claiming ps" "num giving_back (ps[i := p]) = num giving_back ps"
      using upd [of claiming] upd [of giving_back] that by auto
    moreover have "ps ! i \<noteq> Probing" "p \<noteq> Probing" using that(6,7) by auto
    then have "num (\<lambda>p. p = Probing) (ps[i := p]) = num (\<lambda>p. p = Probing) ps"
      using upd [of "\<lambda>p. p = Probing"] by simp
    ultimately show ?thesis using that x upds by (auto simp: burst_inv_def)
  qed
  show ?thesis
  proof (cases "ps ! i")
    case (PAdd m)
    show ?thesis
    proof (cases "half_open_probes b < half_open_max_probes c")
      case True
      with PAdd step c small have e: "p = PClaim m" "b' = b\<lparr>half_open_probes := half_open_probes b + 1\<rparr>"
        by auto
      have "num claiming (ps[i := p]) = num claiming ps + 1" "num giving_back (ps[i := p]) = num giving_back ps"
        "num (\<lambda>p. p = Probing) (ps[i := p]) = num (\<lambda>p. p = Probing) ps"
        using upd [of claiming] upd [of giving_back] upd [of "\<lambda>p. p = Probing"] e PAdd by auto
      with e x c True pi PAdd upds show ?thesis by (auto simp: burst_inv_def intro!: exI [of _ x])
    next
      case False
      with PAdd step c small have e: "p = PSub m" "b' = b\<lparr>half_open_probes := half_open_probes b + 1\<rparr>"
        by auto
      have "num claiming (ps[i := p]) = num claiming ps" "num giving_back (ps[i := p]) = num giving_back ps + 1"
        "num (\<lambda>p. p = Probing) (ps[i := p]) = num (\<lambda>p. p = Probing) ps"
        using upd [of claiming] upd [of giving_back] upd [of "\<lambda>p. p = Probing"] e PAdd by auto
      with e x c pi PAdd upds show ?thesis by (auto simp: burst_inv_def intro!: exI [of _ x])
    qed
  next
    case (PClaim m)
    with step have e: "p = Probing" "b' = b\<lparr>probe_claimed_at_millis := m\<rparr>" by auto
    have "num claiming (ps[i := p]) = num claiming ps" "num giving_back (ps[i := p]) = num giving_back ps"
      "num (\<lambda>p. p = Probing) (ps[i := p]) = num (\<lambda>p. p = Probing) ps + 1"
      using upd [of claiming] upd [of giving_back] upd [of "\<lambda>p. p = Probing"] e PClaim by auto
    with e x c pi PClaim upds show ?thesis by (auto simp: burst_inv_def intro!: exI [of _ x])
  next
    case (PSub m)
    have "0 < num giving_back ps" using PSub i by (auto simp: length_greater_0_conv filter_empty_conv intro!: nth_mem bexI [of _ "ps ! i"])
    then have "0 < half_open_probes b"
      using x probing_le_claiming [of ps] by linarith
    with PSub step have e: "p = PLoad m" "b' = b\<lparr>half_open_probes := half_open_probes b - 1\<rparr>" by auto
    have "num claiming (ps[i := p]) = num claiming ps" "num giving_back (ps[i := p]) + 1 = num giving_back ps"
      "num (\<lambda>p. p = Probing) (ps[i := p]) = num (\<lambda>p. p = Probing) ps"
      using upd [of claiming] upd [of giving_back] upd [of "\<lambda>p. p = Probing"] e PSub by auto
    with e x c pi PSub upds \<open>0 < half_open_probes b\<close> show ?thesis
      by (auto simp: burst_inv_def intro!: exI [of _ x])
  next
    case (PCas m cl)
    show ?thesis
    proof (cases "lease \<le> m - cl \<and> probe_claimed_at_millis b = cl")
      case True
      with PCas step c lease have e: "p = Probing" "b' = b\<lparr>probe_claimed_at_millis := m\<rparr>" by auto
      have "cl < m0" using True pi PCas by auto
      then have x0: "x = 0" using True x(1,2) by auto
      have "num claiming (ps[i := p]) = num claiming ps + 1" "num giving_back (ps[i := p]) = num giving_back ps"
        "num (\<lambda>p. p = Probing) (ps[i := p]) = num (\<lambda>p. p = Probing) ps + 1"
        using upd [of claiming] upd [of giving_back] upd [of "\<lambda>p. p = Probing"] e PCas by auto
      with e x x0 c pi PCas upds show ?thesis by (auto simp: burst_inv_def intro!: exI [of _ 1])
    next
      case False
      with PCas step c lease show ?thesis by (intro quiet) auto
    qed
  next
    case Probing
    with step have "p = ps ! i" "b' = b" by auto
    then show ?thesis using inv by simp
  next
    case (Refused r)
    with step have "p = ps ! i" "b' = b" by auto
    then show ?thesis using inv by simp
  next
    case CState
    with step c show ?thesis by (intro quiet) (auto split: if_splits breaker_state.splits)
  next
    case CCas
    with step c show ?thesis by (intro quiet) (auto simp: cas_state_def split: if_splits)
  next
    case (CElapsed k)
    with step c show ?thesis by (intro quiet) (auto simp: Let_def split: if_splits)
  next
    case CReload
    with step c show ?thesis by (intro quiet) (auto split: breaker_state.splits)
  next
    case PNow
    with step c now show ?thesis by (intro quiet) auto
  next
    case (PLoad m)
    with step c pi show ?thesis by (intro quiet) auto
  qed ((rule quiet; use step c pi in \<open>auto\<close>)+)
qed

lemma elapsed_window:
  assumes "c \<le> u" "u \<le> c + d" "(c + d - baseline b) div 1000000 < U64_MOD"
    and "(c + d - baseline b) div 1000000 < (c - baseline b) div 1000000 + lease"
  shows "elapsed_millis b c \<le> elapsed_millis b u \<and> elapsed_millis b u < elapsed_millis b c + lease"
proof -
  have "(c - baseline b) div 1000000 \<le> (u - baseline b) div 1000000"
    "(u - baseline b) div 1000000 \<le> (c + d - baseline b) div 1000000"
    using assms(1,2) by (intro div_le_mono; simp)+
  with assms(3,4) show ?thesis by (simp add: elapsed_millis_def)
qed

lemma burst_run:
  assumes "burst_inv c base m0 lease (shared s) (pcs s)" "length (pcs s) + 1 < U64_MOD"
    and "lease = (open_duration c div 1000000) mod U64_MOD"
    and "\<forall>u. clock s \<le> u \<and> u \<le> clock s + ticks es \<longrightarrow>
           m0 \<le> elapsed_millis (shared s) u \<and> elapsed_millis (shared s) u < m0 + lease"
  shows "burst_inv c base m0 lease (shared (csys_run s es)) (pcs (csys_run s es))"
  using assms
proof (induction es arbitrary: s)
  case Nil
  then show ?case by (simp add: csys_run_def)
next
  case (Cons e es)
  let ?s = "csys_step s e"
  have base: "baseline (shared s) = base" using Cons.prems(1) by (simp add: burst_inv_def)
  have inv: "burst_inv c base m0 lease (shared ?s) (pcs ?s)"
  proof (cases e)
    case (Run i)
    show ?thesis
    proof (cases "i < length (pcs s)")
      case True
      obtain p b' where st: "thread_step (clock s) (shared s) (pcs s ! i) = (p, b')" by fastforce
      have "m0 \<le> elapsed_millis (shared s) (clock s)" "elapsed_millis (shared s) (clock s) < m0 + lease"
        using Cons.prems(4) by auto
      from burst_step [OF Cons.prems(1) True Cons.prems(2,3) this st] show ?thesis
        using Run True st by simp
    qed (use Run Cons.prems in simp)
  qed (use Cons.prems in simp)
  have base': "baseline (shared ?s) = base" using inv by (simp add: burst_inv_def)
  have len: "length (pcs ?s) = length (pcs s)" by (cases e) (auto split: prod.split)
  have clk: "clock s \<le> clock ?s \<and> clock ?s + ticks es \<le> clock s + ticks (e # es)"
    by (cases e) (auto split: prod.split)
  have "\<forall>u. clock ?s \<le> u \<and> u \<le> clock ?s + ticks es \<longrightarrow>
      m0 \<le> elapsed_millis (shared ?s) u \<and> elapsed_millis (shared ?s) u < m0 + lease"
    using Cons.prems(4) clk elapsed_cong [of "shared ?s" "shared s"] base base' by auto
  from Cons.IH [OF inv _ Cons.prems(3) this] show ?case
    using Cons.prems(2) len by (simp add: csys_run_def)
qed

text \<open>
  C17. However many threads race through \<^verbatim>\<open>check()\<close> after the cool-down, and however their
  steps interleave, at most one probe more than configured gets through before the lease of
  the burst runs out.
\<close>

theorem concurrent_burst_bound:
  assumes "cb_inv b" "enabled (config b)" "state b = Open"
    and "s = \<lparr>shared = b, clock = c, pcs = replicate n CState\<rparr>" "n + 1 < U64_MOD"
    and "(c + ticks es - baseline b) div 1000000 < U64_MOD"
    and "(c + ticks es - baseline b) div 1000000
           < (c - baseline b) div 1000000 + (open_duration (config b) div 1000000) mod U64_MOD"
  shows "num (\<lambda>p. p = Probing) (pcs (csys_run s es)) \<le> half_open_max_probes (config b) + 1"
proof -
  let ?lease = "(open_duration (config b) div 1000000) mod U64_MOD" and ?m0 = "elapsed_millis b c"
  have p0: "half_open_probes b = 0" using assms(1,3) state_eqs [OF assms(1)] by (auto simp: cb_inv_def)
  have "num claiming (replicate n CState) = 0" "num giving_back (replicate n CState) = 0" by auto
  with p0 have "burst_inv (config b) (baseline b) ?m0 ?lease (shared s) (pcs s)"
    unfolding assms(4) burst_inv_def by (auto simp: list_all_length intro!: exI [of _ 0])
  moreover have "\<forall>u. clock s \<le> u \<and> u \<le> clock s + ticks es \<longrightarrow>
      ?m0 \<le> elapsed_millis (shared s) u \<and> elapsed_millis (shared s) u < ?m0 + ?lease"
    unfolding assms(4) using elapsed_window [OF _ _ assms(6,7)] by auto
  ultimately have "burst_inv (config b) (baseline b) ?m0 ?lease (shared (csys_run s es)) (pcs (csys_run s es))"
    using assms(4,5) by (intro burst_run) auto
  then show ?thesis
    using probing_le_claiming [of "pcs (csys_run s es)"] by (auto simp: burst_inv_def)
qed

definition opened :: breaker where
  "opened = cb_run (with_clock eager 0) eager_ops"

lemma opened_simps:
  "cb_inv opened" "enabled (config opened)" "state opened = Open" "st opened = 1"
  "baseline opened = 0" "open_duration (config opened) = secs 10"
  "half_open_max_probes (config opened) = 1" "opened_at_millis opened = 1000"
  "half_open_probes opened = 0" "probe_claimed_at_millis opened = 0"
proof -
  show "cb_inv opened"
    unfolding opened_def by (intro cb_inv_run cb_inv_with_clock) (simp add: eager_def config_server_def)
qed (simp_all add: opened_def eager_ops_def eager_def cb_eval sw_error_rate_def f64_div_self trip_def elapsed_millis_def)

theorem concurrent_burst_bound_witness:
  "num (\<lambda>p. p = Probing)
     (pcs (csys_run \<lparr>shared = opened, clock = secs 11, pcs = replicate 3 CState\<rparr> [Run 0, Tick 7, Run 1])) \<le> 2"
  using concurrent_burst_bound [of opened "\<lparr>shared = opened, clock = secs 11, pcs = replicate 3 CState\<rparr>"
      "secs 11" 3 "[Run 0, Tick 7, Run 1]"]
  by (simp add: opened_simps)

section \<open>The races\<close>

definition race_two_probes :: "sched list" where
  "race_two_probes = map Run ([0, 0, 0, 0, 0, 0, 0] @ [1, 1, 1, 1, 1, 1] @ [0])"

text \<open>
  The bound is reached: with one configured probe, two threads that race through
  \<^verbatim>\<open>check()\<close> right after the cool-down can both be let through. The first has taken the
  slot but not yet stored its claim; the second finds the slot taken, reads the claim of an
  earlier round, takes it for abandoned and takes it over.
\<close>

theorem race_admits_two_probes:
  "half_open_max_probes (config opened) = 1 \<and>
   pcs (csys_run \<lparr>shared = opened, clock = secs 11, pcs = [CState, CState]\<rparr> race_two_probes) = [Probing, Probing]"
  by (simp add: race_two_probes_def csys_run_def opened_simps state_def from_u8_def cas_state_def
      elapsed_millis_def wrap_inc_def wrap_dec_def)

text \<open>
  A half-open breaker whose probe has been admitted: one thread checks, one records the
  failure of the probe (or, in the second race, two threads record opposite outcomes).
\<close>

definition probing :: breaker where
  "probing = cb_run opened [OpCheck (secs 11) (secs 11)]"

lemma probing_simps:
  "config probing = config opened" "state probing = HalfOpen" "st probing = 2"
  "baseline probing = 0" "half_open_probes probing = 1" "probe_claimed_at_millis probing = 11000"
  by (simp_all add: probing_def cb_run_def check_def check_open_def try_half_open_probe_def cas_state_def
      opened_simps elapsed_millis_def notify_def wrap_inc_def Let_def)

definition race_underflow :: "sched list" where
  "race_underflow = map Run ([0, 0, 0] @ [1, 1, 1, 1, 1, 1, 1] @ [0, 0, 0])"

definition race_mirror :: "sched list" where
  "race_mirror = map Run ([0, 0] @ [1, 1] @ [0] @ [1, 1, 1, 1, 1] @ [0, 0, 0])"

text \<open>
  Two more races leave a quiescent breaker, with no operation in flight, in a state no
  sequential run reaches: a trip between the increment and the decrement of a refused check
  makes the probe counter wrap to \<open>2 ^ 64 - 1\<close> while the breaker is open, and a success and
  a failure recorded together leave it open with \<^verbatim>\<open>is_open()\<close> answering no.
\<close>

theorem races_break_quiescent_invariant:
  "(let s = csys_run \<lparr>shared = probing, clock = secs 12, pcs = [CState, RNow Failure]\<rparr> race_underflow
    in pcs s ! 1 = Recorded \<and> verdict (pcs s ! 0) \<noteq> None
       \<and> state (shared s) = Open \<and> half_open_probes (shared s) = U64_MOD - 1)
   \<and> (let s = csys_run \<lparr>shared = probing, clock = secs 12, pcs = [RNow Success, RNow Failure]\<rparr> race_mirror
    in pcs s = [Recorded, Recorded] \<and> state (shared s) = Open \<and> \<not> is_open (shared s))"
  by (simp add: race_underflow_def race_mirror_def csys_run_def probing_simps opened_simps state_def
      from_u8_def elapsed_millis_def wrap_inc_def wrap_dec_def is_open_def)

end
