(* ===== verification/UString.thy ===== *)
theory UString
  imports Prelude
begin

text \<open>
  Rust strings as lists of Unicode scalar values, with the operations of \<^verbatim>\<open>str\<close> the
  components use. An ASCII literal is written \<open>u ''...''\<close>; other literals are spelled by
  their code points. The lower-case table outside ASCII is a parameter.
\<close>

type_synonym ustr = "nat list"

definition u :: "string \<Rightarrow> ustr" where
  "u s = map of_char s"

lemma u_Nil [simp]: "u [] = []" by (simp add: u_def)
lemma u_Cons [simp]: "u (c # s) = of_char c # u s" by (simp add: u_def)

section \<open>Prefixes and substrings\<close>

definition starts_with :: "ustr \<Rightarrow> ustr \<Rightarrow> bool" where
  "starts_with s p \<longleftrightarrow> take (length p) s = p"

fun contains :: "ustr \<Rightarrow> ustr \<Rightarrow> bool" where
  "contains [] p \<longleftrightarrow> p = []"
| "contains (c # s) p \<longleftrightarrow> starts_with (c # s) p \<or> contains s p"

lemma starts_with_simps [simp]:
  "starts_with s []"
  "\<not> starts_with [] (d # p)"
  "starts_with (c # s) (d # p) \<longleftrightarrow> c = d \<and> starts_with s p"
  by (simp_all add: starts_with_def)

lemma starts_with_iff: "starts_with s p \<longleftrightarrow> (\<exists>r. s = p @ r)"
  unfolding starts_with_def by (metis append_eq_conv_conj append_take_drop_id)

lemma contains_iff: "contains s p \<longleftrightarrow> (\<exists>a b. s = a @ p @ b)"
proof (induction s)
  case (Cons c s)
  show ?case
  proof
    assume "contains (c # s) p"
    then consider r where "c # s = p @ r" | a b where "s = a @ p @ b"
      using Cons by (auto simp: starts_with_iff)
    then show "\<exists>a b. c # s = a @ p @ b" by cases (metis append_Nil, metis append_Cons)
  next
    assume "\<exists>a b. c # s = a @ p @ b"
    then obtain a b where ab: "c # s = a @ p @ b" by blast
    then show "contains (c # s) p"
      unfolding contains.simps starts_with_iff using Cons by (cases a) auto
  qed
qed simp

lemma contains_set: "contains s p \<Longrightarrow> set p \<subseteq> set s"
  by (auto simp: contains_iff)

section \<open>Lower case\<close>

definition ascii_lower :: "nat \<Rightarrow> nat" where
  "ascii_lower c = (if 65 \<le> c \<and> c \<le> 90 then c + 32 else c)"

text \<open>
  \<^verbatim>\<open>str::to_lowercase\<close>. The parameter gives the lower case of the non-ASCII scalar at a
  position of the string; it sees the whole string because one rule of Unicode (the final
  sigma) depends on the context.
\<close>

definition to_lowercase :: "(ustr \<Rightarrow> nat \<Rightarrow> ustr) \<Rightarrow> ustr \<Rightarrow> ustr" where
  "to_lowercase table s =
     concat (map (\<lambda>i. if s ! i < 128 then [ascii_lower (s ! i)] else table s i) [0..<length s])"

lemma to_lowercase_ascii:
  assumes "\<forall>c \<in> set s. c < 128"
  shows "to_lowercase table s = map ascii_lower s"
proof -
  have "to_lowercase table s = concat (map (\<lambda>i. [ascii_lower (s ! i)]) [0..<length s])"
    unfolding to_lowercase_def using assms by (intro arg_cong [of _ _ concat] map_cong) auto
  also have "\<dots> = map (\<lambda>i. ascii_lower (s ! i)) [0..<length s]" by simp
  also have "\<dots> = map ascii_lower s" by (rule nth_equalityI) auto
  finally show ?thesis .
qed

text \<open>No entry of the Unicode table maps to an ASCII capital.\<close>

definition no_capitals :: "(ustr \<Rightarrow> nat \<Rightarrow> ustr) \<Rightarrow> bool" where
  "no_capitals table \<longleftrightarrow> (\<forall>s i. \<forall>c \<in> set (table s i). c < 65 \<or> 90 < c)"

lemma to_lowercase_no_capitals:
  assumes "no_capitals table" "c \<in> set (to_lowercase table s)"
  shows "c < 65 \<or> 90 < c"
  using assms by (auto simp: to_lowercase_def no_capitals_def ascii_lower_def split: if_splits)

section \<open>Splitting and UTF-8 lengths\<close>

text \<open>\<^verbatim>\<open>str::split(char)\<close>: one more piece than separators.\<close>

fun split_on :: "nat \<Rightarrow> ustr \<Rightarrow> ustr list" where
  "split_on d [] = [[]]"
| "split_on d (c # s) =
     (if c = d then [] # split_on d s
      else case split_on d s of [] \<Rightarrow> [[c]] | w # ws \<Rightarrow> (c # w) # ws)"

fun join_with :: "ustr \<Rightarrow> ustr list \<Rightarrow> ustr" where
  "join_with d [] = []"
| "join_with d [w] = w"
| "join_with d (w # ws) = w @ d @ join_with d ws"

lemma split_on_not_Nil [simp]: "split_on d s \<noteq> []"
  by (induction s) (auto split: list.splits)

lemma join_split_on: "join_with [d] (split_on d s) = s"
proof (induction s)
  case (Cons c s)
  then show ?case by (cases "split_on d s"; cases "tl (split_on d s)") (auto split: list.splits)
qed simp

lemma split_on_pieces: "w \<in> set (split_on d s) \<Longrightarrow> d \<notin> set w"
proof (induction s arbitrary: w)
  case (Cons c s)
  then show ?case by (auto split: if_splits list.splits)
qed simp

text \<open>Bytes of a scalar value in UTF-8, and \<^verbatim>\<open>String::len\<close>.\<close>

definition utf8_len :: "nat \<Rightarrow> nat" where
  "utf8_len c = (if c < 128 then 1 else if c < 2048 then 2 else if c < 65536 then 3 else 4)"

definition byte_len :: "ustr \<Rightarrow> nat" where
  "byte_len s = sum_list (map utf8_len s)"

lemma byte_len_simps [simp]: "byte_len [] = 0" "byte_len (c # s) = utf8_len c + byte_len s"
  "byte_len (s @ t) = byte_len s + byte_len t"
  by (simp_all add: byte_len_def)

lemma utf8_len_pos [simp]: "0 < utf8_len c" "utf8_len c \<noteq> 0"
  by (simp_all add: utf8_len_def)

text \<open>
  The longest prefix that ends on a character boundary at or below a byte position: the slice
  that remains after stepping back to \<^verbatim>\<open>is_char_boundary\<close>.
\<close>

fun floor_prefix :: "nat \<Rightarrow> ustr \<Rightarrow> ustr" where
  "floor_prefix n [] = []"
| "floor_prefix n (c # s) = (if utf8_len c \<le> n then c # floor_prefix (n - utf8_len c) s else [])"

lemma floor_prefix_len: "byte_len (floor_prefix n s) \<le> n"
  by (induction n s rule: floor_prefix.induct) auto

lemma floor_prefix_prefix: "\<exists>r. s = floor_prefix n s @ r"
  by (induction n s rule: floor_prefix.induct) auto

section \<open>White space and lines\<close>

text \<open>\<^verbatim>\<open>char::is_whitespace\<close>: the Unicode property White_Space.\<close>

definition is_ws :: "nat \<Rightarrow> bool" where
  "is_ws c \<longleftrightarrow> 9 \<le> c \<and> c \<le> 13 \<or> c = 32 \<or> c = 133 \<or> c = 160 \<or> c = 5760 \<or> 8192 \<le> c \<and> c \<le> 8202
     \<or> c = 8232 \<or> c = 8233 \<or> c = 8239 \<or> c = 8287 \<or> c = 12288"

definition trim_start :: "ustr \<Rightarrow> ustr" where
  "trim_start s = dropWhile is_ws s"

definition trim_end :: "ustr \<Rightarrow> ustr" where
  "trim_end s = rev (dropWhile is_ws (rev s))"

definition trim :: "ustr \<Rightarrow> ustr" where
  "trim s = trim_end (trim_start s)"

definition strip_prefix :: "ustr \<Rightarrow> ustr \<Rightarrow> ustr option" where
  "strip_prefix s p = (if starts_with s p then Some (drop (length p) s) else None)"

definition ends_with :: "ustr \<Rightarrow> ustr \<Rightarrow> bool" where
  "ends_with s p \<longleftrightarrow> starts_with (rev s) (rev p)"

definition strip_cr :: "ustr \<Rightarrow> ustr" where
  "strip_cr l = (if l \<noteq> [] \<and> last l = 13 then butlast l else l)"

text \<open>
  \<^verbatim>\<open>str::lines\<close>: a line ended by a line feed loses the feed and one carriage return before
  it; what follows the last feed is a line only if it is not empty, and is kept as it is.
\<close>

definition lines :: "ustr \<Rightarrow> ustr list" where
  "lines s = (let ps = split_on 10 s
              in map strip_cr (butlast ps) @ (if last ps = [] then [] else [last ps]))"

lemma strip_prefix_append [simp]: "strip_prefix (p @ r) p = Some r"
  by (simp add: strip_prefix_def starts_with_def)

lemma strip_prefix_Some: "strip_prefix s p = Some r \<longleftrightarrow> s = p @ r"
  by (auto simp: strip_prefix_def starts_with_iff)

text \<open>A string with no white space at either end is left alone.\<close>

definition trimmed :: "ustr \<Rightarrow> bool" where
  "trimmed s \<longleftrightarrow> s = [] \<or> \<not> is_ws (hd s) \<and> \<not> is_ws (last s)"

lemma trim_trimmed:
  assumes "trimmed s"
  shows "trim s = s"
proof -
  have "dropWhile is_ws s = s" "dropWhile is_ws (rev s) = rev s"
    using assms by (auto simp: trimmed_def hd_rev dropWhile_eq_self_iff)
  then show ?thesis by (simp add: trim_def trim_start_def trim_end_def)
qed

lemma trim_end_ws: "\<forall>c \<in> set w. is_ws c \<Longrightarrow> trim_end (s @ w) = trim_end s"
  using dropWhile_append2 [of "rev w" is_ws "rev s"] by (simp add: trim_end_def)

lemma trim_end_split: "\<exists>w. s = trim_end s @ w \<and> (\<forall>c \<in> set w. is_ws c)"
proof -
  have "s = rev (takeWhile is_ws (rev s) @ dropWhile is_ws (rev s))" by simp
  then have "s = trim_end s @ rev (takeWhile is_ws (rev s))" unfolding trim_end_def by (metis rev_append)
  then show ?thesis by (metis set_rev set_takeWhileD)
qed

lemma trim_end_last: "trim_end s \<noteq> [] \<Longrightarrow> \<not> is_ws (last (trim_end s))"
  by (simp add: trim_end_def last_rev hd_dropWhile)

lemma trim_end_id: "s \<noteq> [] \<Longrightarrow> \<not> is_ws (last s) \<Longrightarrow> trim_end s = s"
  using dropWhile_eq_self_iff [of is_ws "rev s"] by (simp add: trim_end_def hd_rev)

lemma trim_alt: "trim s = trim_start (trim_end s)"
proof -
  obtain w where w: "s = trim_end s @ w" "\<forall>c \<in> set w. is_ws c" using trim_end_split by blast
  let ?t = "trim_end s"
  show ?thesis
  proof (cases "?t = []")
    case True
    then have "\<forall>c \<in> set s. is_ws c" using w by simp
    then have "trim_start s = []" by (simp add: trim_start_def)
    then have "trim s = []" by (simp add: trim_def trim_end_def)
    then show ?thesis unfolding True by (simp add: trim_start_def)
  next
    case False
    have d: "trim_start s = trim_start ?t @ w"
      using dropWhile_append1 [of "last ?t" ?t is_ws w] False trim_end_last [of s] w(1)
      by (simp add: trim_start_def)
    have "trim_start ?t \<noteq> []"
      using False trim_end_last [of s] last_in_set [OF False] by (auto simp: trim_start_def dropWhile_eq_Nil_conv)
    moreover have "last (trim_start ?t) = last ?t"
      using calculation unfolding trim_start_def by (metis last_appendR takeWhile_dropWhile_id)
    ultimately have "trim_end (trim_start ?t) = trim_start ?t"
      using trim_end_last [of s] False by (simp add: trim_end_id)
    then show ?thesis unfolding trim_def d by (simp add: trim_end_ws [OF w(2)])
  qed
qed

lemma split_on_append: "d \<notin> set w \<Longrightarrow> split_on d (w @ d # s) = w # split_on d s"
  by (induction w) auto

lemma split_on_plain: "d \<notin> set w \<Longrightarrow> split_on d w = [w]"
  by (induction w) auto

lemma split_on_join:
  "ls \<noteq> [] \<Longrightarrow> \<forall>l \<in> set ls. d \<notin> set l \<Longrightarrow> split_on d (join_with [d] ls) = ls"
proof (induction ls)
  case (Cons w ws)
  then show ?case by (cases ws) (simp_all add: split_on_append split_on_plain)
qed simp

definition line_ok :: "ustr \<Rightarrow> bool" where
  "line_ok l \<longleftrightarrow> 10 \<notin> set l \<and> (l = [] \<or> last l \<noteq> 13)"

lemma lines_join:
  assumes "ls \<noteq> []" "\<forall>l \<in> set ls. line_ok l" "last ls \<noteq> []"
  shows "lines (join_with [10] ls) = ls"
proof -
  have "map strip_cr (butlast ls) = butlast ls"
    using assms(2) by (intro map_idI) (auto simp: strip_cr_def line_ok_def dest: in_set_butlastD)
  moreover have "split_on 10 (join_with [10] ls) = ls"
    using assms by (intro split_on_join) (auto simp: line_ok_def)
  ultimately show ?thesis using assms by (simp add: lines_def)
qed

end
