(* ===== verification/Permission_Texts.thy ===== *)
theory Permission_Texts
  imports UString
begin

text \<open>
  The user-visible texts of the permission code, spelled by code points because the source
  has them in Chinese. No property depends on their wording.
\<close>

text \<open>The texts of \<^verbatim>\<open>permission_rules.rs\<close>: the default reasons, the
  message for a call no rule matches (around the tool name) and the reasons of the default rules.\<close>

definition msg_denied_by_rule :: ustr where
  "msg_denied_by_rule = [34987, 35268, 21017, 25298, 32477]"

definition msg_needs_confirmation :: ustr where
  "msg_needs_confirmation = [38656, 35201, 29992, 25143, 30830, 35748]"

definition msg_no_rule_pre :: ustr where
  "msg_no_rule_pre = [24037, 20855, 32, 39]"

definition msg_no_rule_post :: ustr where
  "msg_no_rule_post = [39, 32, 26080, 21305, 37197, 35268, 21017, 65292, 38656, 35201, 29992,
     25143, 30830, 35748]"

definition msg_no_recursive_root :: ustr where
  "msg_no_recursive_root = [31105, 27490, 36882, 24402, 21024, 38500, 26681, 30446, 24405]"

definition msg_no_root :: ustr where
  "msg_no_root = [31105, 27490, 21024, 38500, 26681, 30446, 24405]"

definition msg_no_env :: ustr where
  "msg_no_env = [31105, 27490, 20889, 20837, 29615, 22659, 21464, 37327, 25991, 20214]"

definition msg_no_credentials :: ustr where
  "msg_no_credentials = [31105, 27490, 20889, 20837, 20973, 35777, 25991, 20214]"

definition msg_other_commands :: ustr where
  "msg_other_commands = [20854, 20182, 21629, 20196, 38656, 35201, 30830, 35748]"

text \<open>The texts of \<^verbatim>\<open>permission_chain.rs\<close>.\<close>

definition msg_prefilter_cmd :: ustr where
  "msg_prefilter_cmd = [39044, 36807, 28388, 25298, 32477, 65306, 21629, 20196, 21253, 21547,
     21361, 38505, 25805, 20316, 32, 39]"

definition msg_prefilter_file :: ustr where
  "msg_prefilter_file = [39044, 36807, 28388, 25298, 32477, 65306, 20889, 20837, 25935, 24863,
     25991, 20214, 32, 39]"

definition alt_specific_path :: ustr where
  "alt_specific_path = [22914, 26524, 38656, 35201, 21024, 38500, 25991, 20214, 65292, 35831,
     25351, 23450, 20855, 20307, 36335, 24452]"

definition alt_git_clean :: ustr where
  "alt_git_clean = [20351, 29992, 32, 103, 105, 116, 32, 99, 108, 101, 97, 110, 32, 26367, 20195,
     32, 114, 109, 32, 45, 114, 102]"

definition alt_env_vars :: ustr where
  "alt_env_vars = [20351, 29992, 29615, 22659, 21464, 37327, 26367, 20195, 30828, 32534, 30721,
     23494, 38053]"

definition alt_secrets :: ustr where
  "alt_secrets = [20351, 29992, 32, 115, 101, 99, 114, 101, 116, 115, 32, 31649, 29702, 24037,
     20855]"

definition alt_edit_for_rm :: ustr where
  "alt_edit_for_rm = [20351, 29992, 32, 69, 100, 105, 116, 32, 21024, 38500, 25991, 20214, 20869,
     23481, 26367, 20195, 32, 114, 109, 32, 21629, 20196]"

definition alt_git_rm :: ustr where
  "alt_git_rm = [20351, 29992, 32, 103, 105, 116, 32, 114, 109, 32, 26367, 20195, 32, 114, 109,
     65288, 20445, 30041, 29256, 26412, 21382, 21490, 65289]"

definition alt_check_perms :: ustr where
  "alt_check_perms = [26816, 26597, 24403, 21069, 26435, 38480, 26159, 21542, 24050, 28385,
     36275, 38656, 27714]"

definition alt_web_fetch :: ustr where
  "alt_web_fetch = [20351, 29992, 32, 87, 101, 98, 70, 101, 116, 99, 104, 32, 24037, 20855,
     33719, 21462, 32593, 39029, 20869, 23481]"

definition alt_docker :: ustr where
  "alt_docker = [30830, 35748, 21253, 23433, 35013, 26159, 21542, 24517, 35201, 65292, 32771,
     34385, 20351, 29992, 32, 68, 111, 99, 107, 101, 114, 32, 26367, 20195]"

definition alt_split :: ustr where
  "alt_split = [23581, 35797, 25286, 20998, 21629, 20196, 20026, 26356, 23567, 30340, 25805,
     20316, 27493, 39588]"

definition alt_dry_run :: ustr where
  "alt_dry_run = [20351, 29992, 32, 45, 45, 100, 114, 121, 45, 114, 117, 110, 32, 25110, 32, 45,
     45, 99, 111, 110, 102, 105, 114, 109, 32, 21442, 25968, 39044, 35272, 25805, 20316]"

definition alt_read_first :: ustr where
  "alt_read_first = [20808, 20351, 29992, 32, 82, 101, 97, 100, 32, 24037, 20855, 30830, 35748,
     24403, 21069, 25991, 20214, 20869, 23481]"

definition alt_edit_incremental :: ustr where
  "alt_edit_incremental = [20351, 29992, 32, 69, 100, 105, 116, 32, 24037, 20855, 36827, 34892,
     22686, 37327, 20462, 25913, 32780, 38750, 20840, 37327, 35206, 20889]"

definition alt_confirm_scope :: ustr where
  "alt_confirm_scope = [30830, 35748, 20462, 25913, 33539, 22260, 26159, 21542, 27491, 30830,
     65288, 20351, 29992, 32, 82, 101, 97, 100, 32, 20808, 26597, 30475, 65289]"

definition alt_narrow :: ustr where
  "alt_narrow = [32553, 23567, 20462, 25913, 33539, 22260, 21040, 26368, 23567, 24517, 35201,
     21464, 26356]"

definition alt_check_args_pre :: ustr where
  "alt_check_args_pre = [26816, 26597, 32]"

definition alt_check_args_post :: ustr where
  "alt_check_args_post = [32, 30340, 21442, 25968, 26159, 21542, 31526, 21512, 26435, 38480,
     31574, 30053]"

definition alt_add_allow :: ustr where
  "alt_add_allow = [22312, 32, 46, 99, 99, 111, 100, 101, 47, 112, 101, 114, 109, 105, 115, 115,
     105, 111, 110, 115, 46, 106, 115, 111, 110, 32, 20013, 28155, 21152, 23545, 24212, 30340,
     32, 97, 108, 108, 111, 119, 32, 35268, 21017]"

definition msg_auto_pre :: ustr where
  "msg_auto_pre = [97, 117, 116, 111, 32, 27169, 24335, 19979, 32]"

definition msg_auto_post :: ustr where
  "msg_auto_post = [32, 25805, 20316, 38656, 35201, 30830, 35748]"

definition msg_deny_first_pre :: ustr where
  "msg_deny_first_pre = [100, 101, 110, 121, 45, 102, 105, 114, 115, 116, 65306, 26410, 25214,
     21040, 32]"

definition msg_deny_first_post :: ustr where
  "msg_deny_first_post = [32, 30340, 20801, 35768, 35268, 21017, 65292, 40664, 35748, 25298,
     32477]"

definition alt_add_allow_rule :: ustr where
  "alt_add_allow_rule = [22312, 32, 46, 99, 99, 111, 100, 101, 47, 112, 101, 114, 109, 105, 115,
     115, 105, 111, 110, 115, 46, 106, 115, 111, 110, 32, 20013, 28155, 21152, 32, 97, 108, 108,
     111, 119, 32, 35268, 21017]"

definition alt_permissions_cmd :: ustr where
  "alt_permissions_cmd = [20351, 29992, 32, 47, 112, 101, 114, 109, 105, 115, 115, 105, 111, 110,
     115, 32, 21629, 20196, 31649, 29702, 26435, 38480]"

end
