(* ===== verification/Json.thy ===== *)
theory Json
  imports UString
begin

text \<open>
  JSON values with the constructors of \<^verbatim>\<open>serde_json::Value\<close>, and the accessors the program uses:
  \<^verbatim>\<open>get\<close>, \<^verbatim>\<open>as_str\<close>, indexing by a key (which gives \<^verbatim>\<open>Null\<close> where the key is missing) and the
  idioms \<^verbatim>\<open>v[k].as_str().unwrap_or(d)\<close> and "the strings of the array \<^verbatim>\<open>v[k]\<close>".
\<close>

datatype json =
    JNull
  | JBool bool
  | JNumber ustr
  | JString ustr
  | JArray "json list"
  | JObject "(ustr \<times> json) list"

fun json_get :: "json \<Rightarrow> ustr \<Rightarrow> json option" where
  "json_get (JObject m) k = map_of m k"
| "json_get _ k = None"

fun as_str :: "json \<Rightarrow> ustr option" where
  "as_str (JString s) = Some s"
| "as_str _ = None"

definition get_str :: "json \<Rightarrow> ustr \<Rightarrow> ustr option" where
  "get_str v k = Option.bind (json_get v k) as_str"

definition str_or :: "json \<Rightarrow> ustr \<Rightarrow> ustr \<Rightarrow> ustr" where
  "str_or v k d = (case get_str v k of Some s \<Rightarrow> s | None \<Rightarrow> d)"

definition str_list :: "json \<Rightarrow> ustr \<Rightarrow> ustr list" where
  "str_list v k = (case json_get v k of Some (JArray xs) \<Rightarrow> List.map_filter as_str xs | _ \<Rightarrow> [])"

end
