(* ===== verification/Permission_Rules.thy ===== *)
theory Permission_Rules
  imports Permission_Texts Json
begin

text \<open>
  The rule engine of \<^verbatim>\<open>crates/codegen/ccode-hooks/src/permission_rules.rs\<close>: glob
  matching, tool patterns, rule sets and the default rules. The compact printer of JSON values is
  the parameter \<open>js\<close>.
\<close>

section \<open>Data\<close>

datatype permission_decision = DAllow | DDeny ustr | DAsk ustr

record tool_pattern =
  tool :: ustr
  arg_pattern :: "ustr option"

datatype permission_rule =
    RAllow tool_pattern
  | RDeny tool_pattern "ustr option"
  | RAsk tool_pattern "ustr option"

type_synonym rule_set = "permission_rule list"

section \<open>Glob matching\<close>

abbreviation star :: nat where "star \<equiv> 42"
abbreviation slash :: nat where "slash \<equiv> 47"
abbreviation query :: nat where "query \<equiv> 63"

lemma length_dropWhile_less [termination_simp]: "length (dropWhile P xs) < Suc (length xs)"
  by (simp add: le_imp_less_Suc length_dropWhile_le)

text \<open>
  \<^verbatim>\<open>dp\<close> with the two pointers as the remaining pattern and the remaining text. The loops
  \<^verbatim>\<open>for end in ti..=tlen\<close> try every suffix of the text.
\<close>

definition slash_tail :: "ustr \<Rightarrow> ustr option" where
  "slash_tail p = (case p of [] \<Rightarrow> None | c # r \<Rightarrow> if c = slash then Some r else None)"

lemma slash_tail_simps [simp]:
  "slash_tail [] = None" "slash_tail (c # r) = (if c = slash then Some r else None)"
  by (simp_all add: slash_tail_def)

lemma slash_tail_length [termination_simp]: "Some r = slash_tail p \<Longrightarrow> length r < length p"
  by (cases p) (auto split: if_splits)

fun suffixes :: "ustr \<Rightarrow> ustr list" where
  "suffixes [] = [[]]"
| "suffixes (c # t) = (c # t) # suffixes t"

function (sequential) dp :: "ustr \<Rightarrow> ustr \<Rightarrow> bool" where
  "dp [] ts \<longleftrightarrow> ts = []"
| "dp (c # ps) ts \<longleftrightarrow>
     (if c = star then
        let multi = (ps \<noteq> [] \<and> hd ps = star); next = dropWhile (\<lambda>x. x = star) ps
        in (multi \<and> (case slash_tail next of Some r \<Rightarrow> dp r ts | None \<Rightarrow> False))
           \<or> (\<exists>t \<in> set (suffixes ts). dp next t)
      else
        case ts of
          [] \<Rightarrow> False
        | t # ts' \<Rightarrow>
            if c = query then (if t \<noteq> slash then dp ps ts' else False)
            else if c = t then dp ps ts' else False)"
  by pat_completeness auto
termination
proof (relation "measure (\<lambda>(p, t). length p)", goal_cases)
  case (2 c ps ts x xa r)
  then show ?case using slash_tail_length [of r xa] length_dropWhile_le [of "\<lambda>x. x = star" ps]
    by (simp add: Let_def)
qed (auto simp: le_imp_less_Suc length_dropWhile_le)

definition glob_match :: "ustr \<Rightarrow> ustr \<Rightarrow> bool" where
  "glob_match pattern txt = dp pattern txt"


section \<open>Patterns, rules and rule sets\<close>

definition extract_arg_text :: "(json \<Rightarrow> ustr) \<Rightarrow> json \<Rightarrow> ustr" where
  "extract_arg_text js v =
     (case v of
        JObject m \<Rightarrow>
          (case get_str v (u ''command'') of
             Some cmd \<Rightarrow> cmd
           | None \<Rightarrow>
               (case get_str v (u ''file_path'') of
                  Some path \<Rightarrow> path
                | None \<Rightarrow> (case get_str v (u ''path'') of Some path \<Rightarrow> path | None \<Rightarrow> js v)))
      | JString s \<Rightarrow> s
      | _ \<Rightarrow> js v)"

definition pattern_matches :: "(json \<Rightarrow> ustr) \<Rightarrow> tool_pattern \<Rightarrow> ustr \<Rightarrow> json \<Rightarrow> bool" where
  "pattern_matches js p tool_name tool_input \<longleftrightarrow>
     (if \<not> glob_match (tool p) tool_name then False
      else case arg_pattern p of
             None \<Rightarrow> True
           | Some arg_pat \<Rightarrow> glob_match arg_pat (extract_arg_text js tool_input))"

fun rule_pattern :: "permission_rule \<Rightarrow> tool_pattern" where
  "rule_pattern (RAllow p) = p"
| "rule_pattern (RDeny p r) = p"
| "rule_pattern (RAsk p r) = p"

definition rule_matches :: "(json \<Rightarrow> ustr) \<Rightarrow> permission_rule \<Rightarrow> ustr \<Rightarrow> json \<Rightarrow> bool" where
  "rule_matches js r tool_name tool_input = pattern_matches js (rule_pattern r) tool_name tool_input"

fun to_decision :: "permission_rule \<Rightarrow> permission_decision" where
  "to_decision (RAllow p) = DAllow"
| "to_decision (RDeny p r) = DDeny (case r of Some s \<Rightarrow> s | None \<Rightarrow> msg_denied_by_rule)"
| "to_decision (RAsk p r) = DAsk (case r of Some s \<Rightarrow> s | None \<Rightarrow> msg_needs_confirmation)"

fun is_deny :: "permission_rule \<Rightarrow> bool" where
  "is_deny (RDeny p r) = True"
| "is_deny _ = False"

text \<open>The two passes of \<^verbatim>\<open>evaluate\<close>.\<close>

fun deny_pass :: "(json \<Rightarrow> ustr) \<Rightarrow> rule_set \<Rightarrow> ustr \<Rightarrow> json \<Rightarrow> permission_decision option" where
  "deny_pass js [] tool_name tool_input = None"
| "deny_pass js (r # rs) tool_name tool_input =
     (if is_deny r \<and> rule_matches js r tool_name tool_input then Some (to_decision r)
      else deny_pass js rs tool_name tool_input)"

fun other_pass :: "(json \<Rightarrow> ustr) \<Rightarrow> rule_set \<Rightarrow> ustr \<Rightarrow> json \<Rightarrow> permission_decision option" where
  "other_pass js [] tool_name tool_input = None"
| "other_pass js (r # rs) tool_name tool_input =
     (if \<not> is_deny r \<and> rule_matches js r tool_name tool_input then Some (to_decision r)
      else other_pass js rs tool_name tool_input)"

definition evaluate :: "(json \<Rightarrow> ustr) \<Rightarrow> rule_set \<Rightarrow> ustr \<Rightarrow> json \<Rightarrow> permission_decision" where
  "evaluate js rs tool_name tool_input =
     (case deny_pass js rs tool_name tool_input of
        Some d \<Rightarrow> d
      | None \<Rightarrow>
          (case other_pass js rs tool_name tool_input of
             Some d \<Rightarrow> d
           | None \<Rightarrow> DAsk (msg_no_rule_pre @ tool_name @ msg_no_rule_post)))"

text \<open>
  \<^verbatim>\<open>load_from_dirs\<close> on what the file system holds: the result of parsing the global file,
  if it exists, and the entries of the project directory, if it exists, each a path with the
  result of parsing it. A file that fails to load contributes nothing.
\<close>

definition load_from_dirs ::
    "('e + rule_set) option \<Rightarrow> ('p :: linorder \<Rightarrow> bool) \<Rightarrow> ('p \<times> ('e + rule_set)) list option \<Rightarrow> rule_set" where
  "load_from_dirs global is_json dir =
     (let loaded = (\<lambda>f. case f of Inr rs \<Rightarrow> rs | Inl e \<Rightarrow> []);
          rules = (case global of Some f \<Rightarrow> loaded f | None \<Rightarrow> [])
      in rules @ (case dir of
                    None \<Rightarrow> []
                  | Some entries \<Rightarrow>
                      concat (map (loaded \<circ> snd) (sort_key fst (filter (is_json \<circ> fst) entries)))))"

abbreviation tp :: "string \<Rightarrow> string \<Rightarrow> tool_pattern" where
  "tp t a \<equiv> \<lparr>tool = u t, arg_pattern = Some (u a)\<rparr>"

definition default_rules :: rule_set where
  "default_rules =
     [RDeny (tp ''Bash'' ''rm -rf /*'') (Some msg_no_recursive_root),
      RDeny (tp ''Bash'' ''rm -rf /'') (Some msg_no_root),
      RDeny (tp ''Write'' ''.env'') (Some msg_no_env),
      RDeny (tp ''Write'' ''**/credentials*'') (Some msg_no_credentials),
      RAllow (tp ''Read'' ''*''),
      RAllow (tp ''Bash'' ''git *''),
      RAllow (tp ''Bash'' ''cargo *''),
      RAllow (tp ''Bash'' ''npm *''),
      RAllow (tp ''Grep'' ''*''),
      RAllow (tp ''Glob'' ''*''),
      RAsk (tp ''Bash'' ''*'') (Some msg_other_commands)]"

section \<open>The language of a glob pattern\<close>

text \<open>
  A reference semantics: a pattern is a sequence of tokens, a token is a set of strings.
  \<open>GDirs\<close> is \<^verbatim>\<open>**/\<close>, any number of directories including none.
\<close>

datatype gtok = GAny | GDirs | GOne | GLit nat

function (sequential) toks :: "ustr \<Rightarrow> gtok list" where
  "toks [] = []"
| "toks (c # ps) =
     (if c = star then
        let next = dropWhile (\<lambda>x. x = star) ps
        in case (if ps \<noteq> [] \<and> hd ps = star then slash_tail next else None) of
             Some r \<Rightarrow> GDirs # toks r
           | None \<Rightarrow> GAny # toks next
      else (if c = query then GOne else GLit c) # toks ps)"
  by pat_completeness auto
termination
proof (relation "measure length", goal_cases)
  case (3 c ps x r)
  then show ?case using slash_tail_length [of r x] length_dropWhile_le [of "\<lambda>x. x = star" ps]
    by (simp add: Let_def split: if_splits)
qed (auto simp: le_imp_less_Suc length_dropWhile_le)

fun tok_lang :: "gtok \<Rightarrow> ustr set" where
  "tok_lang GAny = UNIV"
| "tok_lang GDirs = insert [] {w @ [slash] | w. True}"
| "tok_lang GOne = {[c] | c. c \<noteq> slash}"
| "tok_lang (GLit c) = {[c]}"

fun glob_lang :: "gtok list \<Rightarrow> ustr set" where
  "glob_lang [] = {[]}"
| "glob_lang (t # ts) = {v @ w | v w. v \<in> tok_lang t \<and> w \<in> glob_lang ts}"

lemma suffixes_iff: "t \<in> set (suffixes ts) \<longleftrightarrow> (\<exists>w. ts = w @ t)"
proof (induction ts)
  case (Cons c ts)
  then show ?case by (auto simp: Cons_eq_append_conv)
qed simp

lemma slash_tail_Some: "slash_tail p = Some r \<longleftrightarrow> p = slash # r"
  by (cases p) auto

lemma dp_slash: "dp (slash # r) t \<longleftrightarrow> (\<exists>t'. t = slash # t' \<and> dp r t')"
  by (cases t) auto

lemma glob_lang_any: "t \<in> glob_lang (GAny # ts) \<longleftrightarrow> (\<exists>v w. t = v @ w \<and> w \<in> glob_lang ts)"
  by auto

lemma glob_lang_dirs:
  "t \<in> glob_lang (GDirs # ts) \<longleftrightarrow> t \<in> glob_lang ts \<or> (\<exists>v w. t = v @ slash # w \<and> w \<in> glob_lang ts)"
proof -
  have "t \<in> glob_lang (GDirs # ts) \<longleftrightarrow>
      (\<exists>v w. t = v @ w \<and> (v = [] \<or> (\<exists>x. v = x @ [slash])) \<and> w \<in> glob_lang ts)"
    by auto
  also have "\<dots> \<longleftrightarrow> t \<in> glob_lang ts \<or> (\<exists>v w. t = v @ slash # w \<and> w \<in> glob_lang ts)"
    by (metis append.assoc append_Cons append_Nil)
  finally show ?thesis .
qed

lemma glob_lang_one: "t \<in> glob_lang (GOne # ts) \<longleftrightarrow> (\<exists>c w. t = c # w \<and> c \<noteq> slash \<and> w \<in> glob_lang ts)"
proof
  assume "\<exists>c w. t = c # w \<and> c \<noteq> slash \<and> w \<in> glob_lang ts"
  then obtain c w where "t = [c] @ w" "[c] \<in> tok_lang GOne" "w \<in> glob_lang ts" by auto
  then show "t \<in> glob_lang (GOne # ts)" unfolding glob_lang.simps by blast
qed auto

lemma glob_lang_lit: "t \<in> glob_lang (GLit c # ts) \<longleftrightarrow> (\<exists>w. t = c # w \<and> w \<in> glob_lang ts)"
  by auto

lemma dp_lang: "dp p t \<longleftrightarrow> t \<in> glob_lang (toks p)"
proof (induction p arbitrary: t rule: length_induct)
  case (1 p)
  show ?case
  proof (cases p)
    case (Cons c ps)
    let ?next = "dropWhile (\<lambda>x. x = star) ps"
    have shorter: "length ?next < length p" using Cons by (simp add: le_imp_less_Suc length_dropWhile_le)
    note IH = 1 [rule_format]
    show ?thesis
    proof (cases "c = star")
      case True
      show ?thesis
      proof (cases "if ps \<noteq> [] \<and> hd ps = star then slash_tail ?next else None")
        case None
        then have t: "toks p = GAny # toks ?next" using True by (simp add: Cons Let_def)
        from None True have "dp p t \<longleftrightarrow> (\<exists>t' \<in> set (suffixes t). dp ?next t')"
          unfolding Cons by (auto simp: Let_def split: if_splits)
        then have "dp p t \<longleftrightarrow> (\<exists>w t'. t = w @ t' \<and> dp ?next t')"
          unfolding Bex_def suffixes_iff by blast
        then show ?thesis unfolding t glob_lang_any by (simp only: IH [OF shorter])
      next
        case (Some r)
        then have nx: "?next = slash # r" "ps \<noteq> []" "hd ps = star"
          by (auto simp: slash_tail_Some split: if_splits)
        with shorter nx have "length r < length p" by simp
        from nx have t: "toks p = GDirs # toks r" using True by (simp add: Cons Let_def)
        have "dp p t \<longleftrightarrow> dp r t \<or> (\<exists>t' \<in> set (suffixes t). dp (slash # r) t')"
          unfolding Cons True by (simp only: dp.simps(2) [of star ps t] Let_def if_True simp_thms nx slash_tail_simps option.case)
        then have "dp p t \<longleftrightarrow> dp r t \<or> (\<exists>w t'. t = w @ slash # t' \<and> dp r t')"
          by (auto simp: suffixes_iff dp_slash simp del: dp.simps)
        then show ?thesis unfolding t glob_lang_dirs by (simp only: IH [OF \<open>length r < length p\<close>])
      qed
    next
      case False
      have "length ps < length p" by (simp add: Cons)
      note ps = IH [OF this]
      show ?thesis
        using False unfolding Cons by (cases t) (simp_all add: ps glob_lang_one glob_lang_lit del: glob_lang.simps(2))
    qed
  qed simp
qed

text \<open>
  C35. Glob matching decides the language of the pattern: \<^verbatim>\<open>*\<close> and \<^verbatim>\<open>**\<close> any string, slashes
  included, \<^verbatim>\<open>**/\<close> any number of directories, \<^verbatim>\<open>?\<close> one character other than the slash, every
  other character itself.
\<close>

theorem glob_match_language: "glob_match p t \<longleftrightarrow> t \<in> glob_lang (toks p)"
  by (simp add: glob_match_def dp_lang)

text \<open>Patterns without wildcards and literal prefixes.\<close>

abbreviation plain :: "ustr \<Rightarrow> bool" where
  "plain w \<equiv> star \<notin> set w \<and> query \<notin> set w"

lemma dp_plain: "plain w \<Longrightarrow> dp w t \<longleftrightarrow> t = w"
proof (induction w arbitrary: t)
  case (Cons c w)
  then show ?case by (cases t) auto
qed simp

lemma dp_prefix: "plain w \<Longrightarrow> dp (w @ [star]) t \<longleftrightarrow> starts_with t w"
proof (induction w arbitrary: t)
  case Nil
  have "[] \<in> set (suffixes t)" by (simp add: suffixes_iff)
  then show ?case by auto
next
  case (Cons c w)
  then show ?case by (cases t) auto
qed

section \<open>Deny has the last word\<close>

lemma deny_pass_deny: "deny_pass js rs t v = Some d \<Longrightarrow> \<exists>reason. d = DDeny reason"
proof (induction rs)
  case (Cons r rs)
  then show ?case by (cases r) (auto split: if_splits)
qed simp

lemma deny_pass_None: "deny_pass js rs t v = None \<longleftrightarrow> (\<forall>r \<in> set rs. is_deny r \<longrightarrow> \<not> rule_matches js r t v)"
  by (induction rs) auto

lemma other_pass_not_deny: "other_pass js rs t v = Some d \<Longrightarrow> d \<noteq> DDeny reason"
proof (induction rs)
  case (Cons r rs)
  then show ?case by (cases r) (auto split: if_splits)
qed simp

lemma evaluate_deny_iff:
  "(\<exists>reason. evaluate js rs t v = DDeny reason) \<longleftrightarrow> (\<exists>r \<in> set rs. is_deny r \<and> rule_matches js r t v)"
proof (cases "deny_pass js rs t v")
  case None
  then have "evaluate js rs t v \<noteq> DDeny reason" for reason
    by (auto simp: evaluate_def dest: other_pass_not_deny split: option.splits)
  with None show ?thesis by (auto simp: deny_pass_None)
next
  case (Some d)
  then have "\<not> (\<forall>r \<in> set rs. is_deny r \<longrightarrow> \<not> rule_matches js r t v)"
    using deny_pass_None [of js rs t v] by simp
  with Some deny_pass_deny [OF Some] show ?thesis by (auto simp: evaluate_def)
qed

lemma evaluate_allow_iff:
  "evaluate js rs t v = DAllow \<longleftrightarrow>
     (\<forall>r \<in> set rs. is_deny r \<longrightarrow> \<not> rule_matches js r t v) \<and> other_pass js rs t v = Some DAllow"
proof (cases "deny_pass js rs t v")
  case None
  then show ?thesis by (auto simp: evaluate_def deny_pass_None [symmetric] split: option.splits)
next
  case (Some d)
  with deny_pass_deny [OF Some] deny_pass_None [of js rs t v] show ?thesis by (auto simp: evaluate_def)
qed

text \<open>
  A matching deny rule denies wherever it stands: in the global rules or in any project
  file that loads, before or after any allow rule, whatever the other files hold and however
  many of them fail to load; and a loaded rule set denies only because of such a rule.
\<close>

theorem loaded_deny_has_last_word:
  "(\<exists>reason. evaluate js (load_from_dirs global is_json dir) t v = DDeny reason) \<longleftrightarrow>
   (\<exists>rs r. (global = Some (Inr rs) \<or> (\<exists>entries path. dir = Some entries \<and> (path, Inr rs) \<in> set entries \<and> is_json path))
           \<and> r \<in> set rs \<and> is_deny r \<and> rule_matches js r t v)"
proof -
  have "r \<in> set (load_from_dirs global is_json dir) \<longleftrightarrow>
      (\<exists>rs. (global = Some (Inr rs) \<or>
             (\<exists>entries path. dir = Some entries \<and> (path, Inr rs) \<in> set entries \<and> is_json path)) \<and> r \<in> set rs)" for r
    by (force simp: load_from_dirs_def Let_def split: option.splits sum.splits)
  then show ?thesis unfolding evaluate_deny_iff Bex_def by blast
qed

section \<open>The default rules\<close>

abbreviation bash_input :: "ustr \<Rightarrow> json" where
  "bash_input cmd \<equiv> JObject [(u ''command'', JString cmd)]"

text \<open>
  What the default rules say about a shell command, by its first characters: commands that
  start with \<^verbatim>\<open>rm -rf /\<close> are denied, those that start with \<^verbatim>\<open>git \<close>, \<^verbatim>\<open>cargo \<close> or
  \<^verbatim>\<open>npm \<close> are allowed whatever follows, every other command needs confirmation.
\<close>

theorem default_rules_on_commands:
  "evaluate js default_rules (u ''Bash'') (bash_input cmd) =
     (if starts_with cmd (u ''rm -rf /'') then DDeny msg_no_recursive_root
      else if starts_with cmd (u ''git '') \<or> starts_with cmd (u ''cargo '') \<or> starts_with cmd (u ''npm '') then DAllow
      else DAsk msg_other_commands)"
proof -
  have arg: "extract_arg_text js (bash_input cmd) = cmd"
    by (simp add: extract_arg_text_def get_str_def)
  have pre: "glob_match (u ''rm -rf /*'') cmd = starts_with cmd (u ''rm -rf /'')"
    "glob_match (u ''git *'') cmd = starts_with cmd (u ''git '')"
    "glob_match (u ''cargo *'') cmd = starts_with cmd (u ''cargo '')"
    "glob_match (u ''npm *'') cmd = starts_with cmd (u ''npm '')"
    "glob_match (u ''*'') cmd"
    using dp_prefix [of "u ''rm -rf /''" cmd] dp_prefix [of "u ''git ''" cmd]
      dp_prefix [of "u ''cargo ''" cmd] dp_prefix [of "u ''npm ''" cmd] dp_prefix [of "[]" cmd]
    by (simp_all add: glob_match_def)
  have root: "glob_match (u ''rm -rf /'') cmd \<Longrightarrow> starts_with cmd (u ''rm -rf /'')"
    using dp_plain [of "u ''rm -rf /''" cmd] by (auto simp: glob_match_def)
  have tools: "glob_match (u ''Bash'') (u ''Bash'')" "\<not> glob_match (u ''Write'') (u ''Bash'')"
    "\<not> glob_match (u ''Read'') (u ''Bash'')" "\<not> glob_match (u ''Grep'') (u ''Bash'')"
    "\<not> glob_match (u ''Glob'') (u ''Bash'')"
    by (simp_all add: glob_match_def)
  have m: "rule_matches js (RDeny (tp a b) r) (u ''Bash'') (bash_input cmd) =
      (glob_match (u a) (u ''Bash'') \<and> glob_match (u b) cmd)"
    "rule_matches js (RAllow (tp a b)) (u ''Bash'') (bash_input cmd) =
      (glob_match (u a) (u ''Bash'') \<and> glob_match (u b) cmd)"
    "rule_matches js (RAsk (tp a b) r) (u ''Bash'') (bash_input cmd) =
      (glob_match (u a) (u ''Bash'') \<and> glob_match (u b) cmd)" for a b r
    by (simp_all add: rule_matches_def pattern_matches_def arg del: u_Cons)
  show ?thesis
    unfolding evaluate_def default_rules_def
    using root by (auto simp: m tools pre simp del: u_Cons)
qed

end
