(* ===== verification/Permission_Chain.thy ===== *)
theory Permission_Chain
  imports Permission_Rules
begin

text \<open>
  The decision chain of \<^verbatim>\<open>crates/codegen/ccode-hooks/src/permission_chain.rs\<close>: pre-filter,
  hook decision, rule engine, default. The parameter \<open>lc\<close> is the lower-case table of
  \<^verbatim>\<open>to_lowercase\<close>, \<open>js\<close> the compact printer of JSON values.
\<close>

section \<open>Data\<close>

datatype decision_source = PreFilter | HookSource ustr | RuleEngine | UserConfirmation | DefaultSource

record chain_result =
  decision :: permission_decision
  source :: decision_source
  alternatives :: "ustr list"
  retryable :: bool

datatype hook_decision = HAllow | HDeny ustr ustr

section \<open>Pre-filter\<close>

definition dangerous_commands :: "ustr list" where
  "dangerous_commands = map u
     [''rm -rf /'', ''rm -rf /*'', ''rm -rf ~'', ''rm -rf ~/*'', ''mkfs'', ''dd if=/dev/zero'',
      ''dd if=/dev/urandom'', '':(){ :|:& };:'', ''chmod -R 777 /'', ''chmod 777 /'',
      ''chown -R root /'', ''curl | sh'', ''curl | bash'', ''wget | sh'', ''wget | bash'',
      ''shutdown'', ''reboot'', ''halt'', ''poweroff'', ''init 0'', ''init 6'', ''> /dev/sda'',
      ''mv / /dev/null'', ''rm -rf /var'', ''rm -rf /etc'', ''rm -rf /usr'', ''systemctl stop'',
      ''systemctl disable'', ''service stop'']"

definition sensitive_files :: "ustr list" where
  "sensitive_files = map u [''.env'', ''credentials'', ''.ssh/'', ''id_rsa'', ''.gnupg/'']"

definition quote_end :: ustr where
  "quote_end = [39]"

definition pre_filter_command :: "(ustr \<Rightarrow> nat \<Rightarrow> ustr) \<Rightarrow> ustr \<Rightarrow> json \<Rightarrow> chain_result option" where
  "pre_filter_command lc tool_name input =
     (if tool_name = u ''Bash'' \<or> tool_name = u ''Shell'' then
        case get_str input (u ''command'') of
          None \<Rightarrow> None
        | Some cmd \<Rightarrow>
            (case find (contains (to_lowercase lc cmd)) dangerous_commands of
               None \<Rightarrow> None
             | Some dangerous \<Rightarrow>
                 Some \<lparr>decision = DDeny (msg_prefilter_cmd @ dangerous @ quote_end),
                       source = PreFilter,
                       alternatives = [alt_specific_path, alt_git_clean], retryable = False\<rparr>)
      else None)"

definition write_path :: "json \<Rightarrow> ustr option" where
  "write_path input =
     (case json_get input (u ''file_path'') of
        Some v \<Rightarrow> as_str v
      | None \<Rightarrow> Option.bind (json_get input (u ''path'')) as_str)"

definition pre_filter_write :: "ustr \<Rightarrow> json \<Rightarrow> chain_result option" where
  "pre_filter_write tool_name input =
     (if tool_name = u ''FileWrite'' \<or> tool_name = u ''Write'' \<or> tool_name = u ''FileEdit''
         \<or> tool_name = u ''Edit'' then
        case write_path input of
          None \<Rightarrow> None
        | Some path \<Rightarrow>
            (case find (contains path) sensitive_files of
               None \<Rightarrow> None
             | Some sensitive \<Rightarrow>
                 Some \<lparr>decision = DDeny (msg_prefilter_file @ sensitive @ quote_end),
                       source = PreFilter,
                       alternatives = [alt_env_vars, alt_secrets], retryable = False\<rparr>)
      else None)"

definition pre_filter :: "(ustr \<Rightarrow> nat \<Rightarrow> ustr) \<Rightarrow> ustr \<Rightarrow> json \<Rightarrow> chain_result option" where
  "pre_filter lc tool_name input =
     (case pre_filter_command lc tool_name input of
        Some r \<Rightarrow> Some r
      | None \<Rightarrow> pre_filter_write tool_name input)"

section \<open>Suggestions after a denial\<close>

definition generate_deny_alternatives :: "ustr \<Rightarrow> json \<Rightarrow> ustr \<Rightarrow> ustr list" where
  "generate_deny_alternatives tool_name tool_input reason =
     (if tool_name = u ''Bash'' \<or> tool_name = u ''Shell'' then
        let alts = (case get_str tool_input (u ''command'') of
                      None \<Rightarrow> []
                    | Some cmd \<Rightarrow>
                        (if contains cmd (u ''rm '') then [alt_edit_for_rm, alt_git_rm] else [])
                        @ (if contains cmd (u ''chmod'') \<or> contains cmd (u ''chown'')
                           then [alt_check_perms] else [])
                        @ (if contains cmd (u ''curl'') \<or> contains cmd (u ''wget'')
                           then [alt_web_fetch] else [])
                        @ (if contains cmd (u ''apt'') \<or> contains cmd (u ''yum'') \<or> contains cmd (u ''brew'')
                           then [alt_docker] else []))
        in if alts = [] then [alt_split, alt_dry_run] else alts
      else if tool_name = u ''Write'' \<or> tool_name = u ''FileWrite'' then
        [alt_read_first, alt_edit_incremental]
      else if tool_name = u ''Edit'' \<or> tool_name = u ''FileEdit'' then
        [alt_confirm_scope, alt_narrow]
      else [alt_check_args_pre @ tool_name @ alt_check_args_post, alt_add_allow])"

section \<open>The chain\<close>

definition safe_tools :: "ustr list" where
  "safe_tools = map u [''Read'', ''Grep'', ''Glob'', ''LS'', ''SearchCodebase'', ''WebSearch'',
     ''WebFetch'', ''TodoWrite'', ''TodoRead'', ''TaskOutput'']"

definition default_policy :: "ustr \<Rightarrow> bool \<Rightarrow> chain_result" where
  "default_policy tool_name auto_mode =
     (if auto_mode then
        if tool_name \<in> set safe_tools then
          \<lparr>decision = DAllow, source = DefaultSource, alternatives = [], retryable = False\<rparr>
        else
          \<lparr>decision = DAsk (msg_auto_pre @ tool_name @ msg_auto_post), source = DefaultSource,
           alternatives = [], retryable = True\<rparr>
      else
        \<lparr>decision = DDeny (msg_deny_first_pre @ tool_name @ msg_deny_first_post),
         source = DefaultSource, alternatives = [alt_add_allow_rule, alt_permissions_cmd],
         retryable = True\<rparr>)"

definition rule_stage :: "(json \<Rightarrow> ustr) \<Rightarrow> ustr \<Rightarrow> json \<Rightarrow> rule_set \<Rightarrow> bool \<Rightarrow> chain_result" where
  "rule_stage js tool_name tool_input rules auto_mode =
     (case evaluate js rules tool_name tool_input of
        DDeny reason \<Rightarrow>
          \<lparr>decision = DDeny reason, source = RuleEngine,
           alternatives = generate_deny_alternatives tool_name tool_input reason, retryable = True\<rparr>
      | DAsk reason \<Rightarrow>
          if \<not> auto_mode then
            \<lparr>decision = DAsk reason, source = RuleEngine, alternatives = [], retryable = True\<rparr>
          else default_policy tool_name auto_mode
      | DAllow \<Rightarrow>
          \<lparr>decision = DAllow, source = RuleEngine, alternatives = [], retryable = False\<rparr>)"

definition evaluate_permission_chain ::
    "(ustr \<Rightarrow> nat \<Rightarrow> ustr) \<Rightarrow> (json \<Rightarrow> ustr) \<Rightarrow> ustr \<Rightarrow> json \<Rightarrow> rule_set \<Rightarrow> hook_decision option \<Rightarrow> bool
      \<Rightarrow> chain_result" where
  "evaluate_permission_chain lc js tool_name tool_input rules hook_dec auto_mode =
     (case pre_filter lc tool_name tool_input of
        Some result \<Rightarrow> result
      | None \<Rightarrow>
          (case hook_dec of
             Some (HDeny reason hook_name) \<Rightarrow>
               \<lparr>decision = DDeny reason, source = HookSource hook_name,
                alternatives = generate_deny_alternatives tool_name tool_input reason,
                retryable = True\<rparr>
           | _ \<Rightarrow> rule_stage js tool_name tool_input rules auto_mode))"

section \<open>What the stages guarantee\<close>

lemma find_Some_iff_ex: "(\<exists>x. find P xs = Some x) \<longleftrightarrow> (\<exists>x \<in> set xs. P x)"
  by (metis find_None_iff not_None_eq)

lemma pre_filter_denies:
  assumes "pre_filter lc t v = Some r"
  shows "\<exists>reason. decision r = DDeny reason" "source r = PreFilter" "\<not> retryable r" "alternatives r \<noteq> []"
proof -
  consider "pre_filter_command lc t v = Some r" | "pre_filter_write t v = Some r"
    using assms by (auto simp: pre_filter_def split: option.splits)
  then have "(\<exists>reason. decision r = DDeny reason) \<and> source r = PreFilter \<and> \<not> retryable r \<and> alternatives r \<noteq> []"
    unfolding pre_filter_command_def pre_filter_write_def
    by cases (auto simp del: u_Cons split: option.splits if_split_asm)
  then show "\<exists>reason. decision r = DDeny reason" "source r = PreFilter" "\<not> retryable r" "alternatives r \<noteq> []"
    by simp_all
qed

lemma default_policy_allow: "decision (default_policy t auto) = DAllow \<longleftrightarrow> auto \<and> t \<in> set safe_tools"
  by (simp add: default_policy_def)

lemma rule_stage_allow:
  "decision (rule_stage js t v rules auto) = DAllow \<longleftrightarrow>
     evaluate js rules t v = DAllow
     \<or> (\<exists>reason. evaluate js rules t v = DAsk reason) \<and> auto \<and> t \<in> set safe_tools"
  by (auto simp: rule_stage_def default_policy_allow split: permission_decision.splits)

lemma evaluate_not_deny:
  "(\<exists>reason. evaluate js rs t v = DAsk reason) \<or> evaluate js rs t v = DAllow \<longleftrightarrow>
     (\<forall>r \<in> set rs. is_deny r \<longrightarrow> \<not> rule_matches js r t v)"
  using evaluate_deny_iff [of js rs t v]
  by (cases "evaluate js rs t v") auto

text \<open>
  C4. A call is let through without confirmation exactly when no stage objects: the pre-filter
  and the hook do not deny, no deny rule matches, and the first other matching rule allows it,
  or the mode is automatic and the tool is on the list of safe ones.
\<close>

theorem chain_allows_iff:
  "decision (evaluate_permission_chain lc js t v rules hook auto) = DAllow \<longleftrightarrow>
     pre_filter lc t v = None
     \<and> (\<nexists>reason name. hook = Some (HDeny reason name))
     \<and> (\<forall>r \<in> set rules. is_deny r \<longrightarrow> \<not> rule_matches js r t v)
     \<and> (other_pass js rules t v = Some DAllow \<or> auto \<and> t \<in> set safe_tools)"
proof (cases "pre_filter lc t v")
  case None
  let ?quiet = "\<forall>r \<in> set rules. is_deny r \<longrightarrow> \<not> rule_matches js r t v"
  have "decision (rule_stage js t v rules auto) = DAllow \<longleftrightarrow>
      ?quiet \<and> (other_pass js rules t v = Some DAllow \<or> auto \<and> t \<in> set safe_tools)"
    using rule_stage_allow [of js t v rules auto] evaluate_not_deny [of js rules t v]
      evaluate_allow_iff [of js rules t v] by metis
  with None show ?thesis
    by (auto simp: evaluate_permission_chain_def split: option.splits hook_decision.splits)
next
  case (Some r)
  with pre_filter_denies(1) [OF Some] show ?thesis by (auto simp: evaluate_permission_chain_def)
qed

theorem chain_allows_iff_witness:
  "decision (evaluate_permission_chain (\<lambda>s i. []) (\<lambda>v. []) (u ''Bash'') (bash_input (u ''cargo test''))
     default_rules (Some HAllow) False) = DAllow"
  unfolding chain_allows_iff
  by (simp add: default_rules_def pre_filter_def pre_filter_command_def pre_filter_write_def get_str_def
      to_lowercase_def ascii_lower_def dangerous_commands_def rule_matches_def
      pattern_matches_def extract_arg_text_def glob_match_def upt_rec)

lemma chain_denies_iff:
  "(\<exists>reason. decision (evaluate_permission_chain lc js t v rules hook auto) = DDeny reason) \<longleftrightarrow>
     pre_filter lc t v \<noteq> None \<or> (\<exists>reason name. hook = Some (HDeny reason name))
     \<or> (\<exists>r \<in> set rules. is_deny r \<and> rule_matches js r t v)"
proof (cases "pre_filter lc t v")
  case None
  have "(\<exists>reason. decision (rule_stage js t v rules auto) = DDeny reason) \<longleftrightarrow>
      (\<exists>r \<in> set rules. is_deny r \<and> rule_matches js r t v)"
    unfolding evaluate_deny_iff [symmetric]
    by (auto simp: rule_stage_def default_policy_def split: permission_decision.splits)
  with None show ?thesis
    by (auto simp: evaluate_permission_chain_def split: option.splits hook_decision.splits)
next
  case (Some r)
  with pre_filter_denies(1) [OF Some] show ?thesis by (auto simp: evaluate_permission_chain_def)
qed

text \<open>
  A shell command with a blacklisted fragment spelled in any letter case is denied for
  good, whatever the hook, the rules and the mode say.
\<close>

theorem blacklisted_command_denied:
  assumes "t = u ''Bash'' \<or> t = u ''Shell''" "get_str v (u ''command'') = Some cmd"
    "\<forall>c \<in> set cmd. c < 128" "d \<in> set dangerous_commands" "contains (map ascii_lower cmd) d"
  shows "case evaluate_permission_chain lc js t v rules hook auto of r \<Rightarrow>
           (\<exists>reason. decision r = DDeny reason) \<and> source r = PreFilter \<and> \<not> retryable r"
proof -
  obtain x where "find (contains (to_lowercase lc cmd)) dangerous_commands = Some x"
    using assms(3-5) find_Some_iff_ex [of "contains (map ascii_lower cmd)" dangerous_commands]
    by (auto simp: to_lowercase_ascii)
  then obtain r where "pre_filter lc t v = Some r"
    using assms(1,2) by (auto simp: pre_filter_def pre_filter_command_def)
  with pre_filter_denies [OF this] show ?thesis by (auto simp: evaluate_permission_chain_def)
qed

theorem blacklisted_command_denied_witness:
  "\<exists>reason. decision (evaluate_permission_chain (\<lambda>s i. []) (\<lambda>v. []) (u ''Shell'')
      (bash_input (u ''sudo Rm -RF / now'')) [RAllow (tp ''*'' ''*'')] (Some HAllow) True) = DDeny reason"
proof -
  let ?cmd = "u ''sudo Rm -RF / now''"
  have a: "get_str (bash_input ?cmd) (u ''command'') = Some ?cmd" by (simp add: get_str_def)
  have b: "\<forall>c \<in> set ?cmd. c < 128" by simp
  have c: "u ''rm -rf /'' \<in> set dangerous_commands" by (simp add: dangerous_commands_def del: u_Cons)
  have d: "contains (map ascii_lower ?cmd) (u ''rm -rf /'')" by (simp add: ascii_lower_def)
  show ?thesis using blacklisted_command_denied [OF disjI2 [OF refl] a b c d] by blast
qed

text \<open>
  Two entries of the blacklist cannot match: they contain a capital, and the command is
  lowered before the search. Both commands pass the pre-filter as written.
\<close>

theorem blacklist_entries_dead:
  assumes "no_capitals lc" "d \<in> {u ''chmod -R 777 /'', u ''chown -R root /''}"
  shows "d \<in> set dangerous_commands \<and> \<not> contains (to_lowercase lc cmd) d
    \<and> pre_filter lc (u ''Bash'') (bash_input d) = None"
proof (intro conjI)
  show "d \<in> set dangerous_commands" using assms(2) by (auto simp: dangerous_commands_def simp del: u_Cons)
  have "82 \<in> set d" using assms(2) by auto
  then show "\<not> contains (to_lowercase lc cmd) d"
    using to_lowercase_no_capitals [OF assms(1), of 82 cmd] contains_set [of "to_lowercase lc cmd" d] by auto
  have "\<forall>c \<in> set d. c < 128" using assms(2) by auto
  moreover have "find (contains (map ascii_lower d)) dangerous_commands = None"
    using assms(2) unfolding dangerous_commands_def
    by (elim insertE emptyE) (simp_all add: ascii_lower_def)
  ultimately show "pre_filter lc (u ''Bash'') (bash_input d) = None"
    by (simp add: pre_filter_def pre_filter_command_def pre_filter_write_def get_str_def to_lowercase_ascii)
qed

theorem blacklist_entries_dead_witness:
  "pre_filter (\<lambda>s i. [107]) (u ''Bash'') (bash_input (u ''chmod -R 777 /'')) = None"
proof -
  have "no_capitals (\<lambda>s i. [107])" by (simp add: no_capitals_def)
  from blacklist_entries_dead [OF this, of "u ''chmod -R 777 /''"] show ?thesis by (simp del: u_Cons)
qed

text \<open>
  Without automatic mode the default policy, which the source describes as denying what no
  rule allows, is never reached: the rule engine answers first, and asks when no rule matches.
\<close>

theorem deny_first_unreachable:
  "source (evaluate_permission_chain lc js t v rules hook False) \<noteq> DefaultSource"
proof (cases "pre_filter lc t v")
  case None
  then show ?thesis
    by (auto simp: evaluate_permission_chain_def rule_stage_def
        split: option.splits hook_decision.splits permission_decision.splits)
next
  case (Some r)
  with pre_filter_denies(2) [OF Some] show ?thesis by (simp add: evaluate_permission_chain_def)
qed

text \<open>
  Deny recovery: whatever stage denies, the result suggests at least one alternative.
\<close>

theorem denial_suggests_alternative:
  assumes "decision (evaluate_permission_chain lc js t v rules hook auto) = DDeny reason"
  shows "alternatives (evaluate_permission_chain lc js t v rules hook auto) \<noteq> []"
proof (cases "pre_filter lc t v")
  case None
  have "generate_deny_alternatives t v r \<noteq> []" for r
    by (simp add: generate_deny_alternatives_def Let_def)
  with None assms show ?thesis
    by (auto simp: evaluate_permission_chain_def rule_stage_def default_policy_def
        split: option.splits hook_decision.splits permission_decision.splits if_splits)
next
  case (Some r)
  with pre_filter_denies(4) [OF Some] show ?thesis by (simp add: evaluate_permission_chain_def)
qed

theorem denial_suggests_alternative_witness:
  "alternatives (evaluate_permission_chain (\<lambda>s i. []) (\<lambda>v. []) (u ''LS'') JNull [] (Some (HDeny [] [])) True) \<noteq> []"
  by (rule denial_suggests_alternative [where reason = "[]"])
    (simp add: evaluate_permission_chain_def pre_filter_def pre_filter_command_def pre_filter_write_def)

end
