(* ===== verification/Tool_Alias.thy ===== *)
theory Tool_Alias
  imports UString
begin

text \<open>
  The correspondence between the tool names of external settings and the native ones,
  \<^verbatim>\<open>crates/codegen/ccode-tools/src/types/claude_alias.rs\<close>.
\<close>

datatype tool_kind =
    TKRead | TKEdit | TKDelete | TKListDir | TKWrite | TKMove | TKSearch | TKLsp | TKExecute
    | TKPlan | TKWebSearch | TKWebFetch | TKBackgroundTaskAction | TKWaitTasksAction
    | TKKillTaskAction | TKList | TKSkill | TKMemorySearch | TKMemoryGet | TKTask | TKEnterPlan
    | TKExitPlan | TKAskUser | TKImageGen | TKVideoGen | TKImageToVideo | TKReferenceToVideo
    | TKDeployApp | TKSearchTool | TKUseTool | TKMonitor | TKGoalUpdate | TKWorkflow | TKOther

record claude_tool =
  claude :: ustr
  kind :: "tool_kind option"
  ccode :: "ustr list"

definition k_row :: "string \<Rightarrow> tool_kind \<Rightarrow> string list \<Rightarrow> claude_tool" where
  "k_row c knd ns = \<lparr>claude = u c, kind = Some knd, ccode = map u ns\<rparr>"

definition match_only :: "string \<Rightarrow> string list \<Rightarrow> claude_tool" where
  "match_only c ns = \<lparr>claude = u c, kind = None, ccode = map u ns\<rparr>"

definition CLAUDE_TOOLS :: "claude_tool list" where
  "CLAUDE_TOOLS =
     [k_row ''Read'' TKRead [''read_file'', ''hashline_read''],
      k_row ''Write'' TKWrite [''write'', ''search_replace'', ''hashline_edit''],
      k_row ''Edit'' TKEdit [''search_replace'', ''hashline_edit''],
      k_row ''MultiEdit'' TKEdit [''search_replace'', ''hashline_edit''],
      k_row ''NotebookEdit'' TKEdit [''search_replace'', ''hashline_edit''],
      k_row ''Bash'' TKExecute [''run_terminal_command''],
      k_row ''PowerShell'' TKExecute [],
      k_row ''Grep'' TKSearch [''grep'', ''hashline_grep''],
      k_row ''Glob'' TKList [''list_dir''],
      k_row ''LS'' TKList [],
      k_row ''LSP'' TKLsp [''lsp''],
      k_row ''WebSearch'' TKWebSearch [''web_search''],
      k_row ''WebFetch'' TKWebFetch [''web_fetch''],
      k_row ''DeployApp'' TKDeployApp [],
      k_row ''TodoWrite'' TKPlan [''todo_write''],
      k_row ''AskUserQuestion'' TKAskUser [''ask_user_question''],
      k_row ''TaskOutput'' TKBackgroundTaskAction [''get_command_or_subagent_output'', ''get_terminal_command_output''],
      k_row ''BashOutput'' TKBackgroundTaskAction [''get_command_or_subagent_output'', ''get_terminal_command_output''],
      k_row ''BashOutputTool'' TKBackgroundTaskAction [''get_command_or_subagent_output'', ''get_terminal_command_output''],
      k_row ''AgentOutputTool'' TKBackgroundTaskAction [''get_command_or_subagent_output'', ''get_terminal_command_output''],
      k_row ''TaskStop'' TKKillTaskAction [''kill_command_or_subagent'', ''kill_terminal_command''],
      k_row ''KillShell'' TKKillTaskAction [''kill_command_or_subagent'', ''kill_terminal_command''],
      k_row ''KillBash'' TKKillTaskAction [''kill_command_or_subagent'', ''kill_terminal_command''],
      k_row ''Skill'' TKRead [''skill''],
      k_row ''ToolSearch'' TKSearchTool [''search_tool''],
      match_only ''Agent'' [''spawn_subagent''],
      match_only ''Task'' [''spawn_subagent''],
      match_only ''EnterPlanMode'' [''enter_plan_mode''],
      match_only ''ExitPlanMode'' [''exit_plan_mode''],
      match_only ''CronCreate'' [''scheduler_create''],
      match_only ''CronDelete'' [''scheduler_delete''],
      match_only ''CronList'' [''scheduler_list''],
      match_only ''ListMcpResourcesTool'' [''ListMcpResources'']]"

definition find_tool :: "ustr \<Rightarrow> claude_tool option" where
  "find_tool c = find (\<lambda>t. claude t = c) CLAUDE_TOOLS"

definition kind_for :: "ustr \<Rightarrow> tool_kind option" where
  "kind_for c = Option.bind (find_tool c) kind"

definition ccode_names_for :: "ustr \<Rightarrow> ustr list" where
  "ccode_names_for c = (case find_tool c of Some t \<Rightarrow> ccode t | None \<Rightarrow> [])"

definition claude_names_for :: "ustr \<Rightarrow> ustr list" where
  "claude_names_for n = map claude (filter (\<lambda>t. n \<in> set (ccode t)) CLAUDE_TOOLS)"

definition ccode_names :: "ustr list" where
  "ccode_names = rev (remdups (rev (concat (map ccode CLAUDE_TOOLS))))"

lemma claude_names_distinct: "distinct (map claude CLAUDE_TOOLS)"
  unfolding CLAUDE_TOOLS_def by (simp add: k_row_def match_only_def)

lemma find_tool_iff: "find_tool c = Some t \<longleftrightarrow> t \<in> set CLAUDE_TOOLS \<and> claude t = c"
proof -
  have "find (\<lambda>t. claude t = c) ts = Some t \<longleftrightarrow> t \<in> set ts \<and> claude t = c" if "distinct (map claude ts)" for ts
    using that by (induction ts) (auto simp: image_iff)
  then show ?thesis unfolding find_tool_def using claude_names_distinct by blast
qed

text \<open>
  The two lookups are inverse to each other: a native name is reached from an external one
  exactly when the reverse lookup reports that external name.
\<close>

theorem alias_lookups_inverse: "n \<in> set (ccode_names_for c) \<longleftrightarrow> c \<in> set (claude_names_for n)"
proof -
  have "n \<in> set (ccode_names_for c) \<longleftrightarrow> (\<exists>t. find_tool c = Some t \<and> n \<in> set (ccode t))"
    by (cases "find_tool c") (auto simp: ccode_names_for_def)
  also have "\<dots> \<longleftrightarrow> (\<exists>t. t \<in> set CLAUDE_TOOLS \<and> claude t = c \<and> n \<in> set (ccode t))"
    by (simp add: find_tool_iff)
  finally show ?thesis by (auto simp: claude_names_for_def)
qed

end
