(* ===== verification/Hooks.thy ===== *)
theory Hooks
  imports Permission_Chain Tool_Alias
begin

text \<open>
  Hook events, matchers and dispatch: \<^verbatim>\<open>event.rs\<close>, \<^verbatim>\<open>matcher.rs\<close>, \<^verbatim>\<open>result.rs\<close>,
  \<^verbatim>\<open>discovery.rs\<close> (lookup) and \<^verbatim>\<open>dispatcher.rs\<close> of \<^verbatim>\<open>crates/codegen/ccode-hooks/src\<close>.
  Running a hook is a parameter: \<open>run i spec\<close> is what the \<open>i\<close>-th hook of the list returns.
  Durations and HTTP details of the results, which only feed the display, are left out.
\<close>

section \<open>Events\<close>

datatype hook_event =
    SessionStart | SessionEnd | Stop | StopFailure
  | PreToolUse | PostToolUse | PostToolUseFailure | PermissionDenied
  | UserPromptSubmit | Notification
  | SubagentStart | SubagentStop | SubagentEnd
  | PreCompact | PostCompact

definition event_spellings :: "(string list \<times> hook_event) list" where
  "event_spellings =
     [([''SessionStart'', ''session_start'', ''sessionStart''], SessionStart),
      ([''PreToolUse'', ''pre_tool_use'', ''preToolUse'', ''beforeShellExecution'',
        ''beforeMCPExecution'', ''beforeReadFile''], PreToolUse),
      ([''PostToolUse'', ''post_tool_use'', ''postToolUse'', ''afterShellExecution'',
        ''afterMCPExecution'', ''afterFileEdit'', ''afterAgentResponse'', ''afterAgentThought''], PostToolUse),
      ([''PostToolUseFailure'', ''post_tool_use_failure'', ''postToolUseFailure''], PostToolUseFailure),
      ([''SessionEnd'', ''session_end'', ''sessionEnd''], SessionEnd),
      ([''Stop'', ''stop''], Stop),
      ([''StopFailure'', ''stop_failure'', ''stopFailure''], StopFailure),
      ([''Notification'', ''notification''], Notification),
      ([''UserPromptSubmit'', ''user_prompt_submit'', ''beforeSubmitPrompt''], UserPromptSubmit),
      ([''PermissionDenied'', ''permission_denied'', ''permissionDenied''], PermissionDenied),
      ([''SubagentStart'', ''subagent_start'', ''subagentStart''], SubagentStart),
      ([''SubagentStop'', ''subagent_stop'', ''subagentStop''], SubagentStop),
      ([''SubagentEnd'', ''subagent_end'', ''subagentEnd''], SubagentEnd),
      ([''PreCompact'', ''pre_compact'', ''preCompact''], PreCompact),
      ([''PostCompact'', ''post_compact'', ''postCompact''], PostCompact)]"

definition event_deserialize :: "string \<Rightarrow> hook_event option" where
  "event_deserialize s = map_option snd (find (\<lambda>(ss, e). s \<in> set ss) event_spellings)"

fun event_display :: "hook_event \<Rightarrow> string" where
  "event_display SessionStart = ''session_start''"
| "event_display PreToolUse = ''pre_tool_use''"
| "event_display PostToolUse = ''post_tool_use''"
| "event_display PostToolUseFailure = ''post_tool_use_failure''"
| "event_display SessionEnd = ''session_end''"
| "event_display Stop = ''stop''"
| "event_display StopFailure = ''stop_failure''"
| "event_display Notification = ''notification''"
| "event_display UserPromptSubmit = ''user_prompt_submit''"
| "event_display PermissionDenied = ''permission_denied''"
| "event_display SubagentStart = ''subagent_start''"
| "event_display SubagentStop = ''subagent_stop''"
| "event_display SubagentEnd = ''subagent_stop''"
| "event_display PreCompact = ''pre_compact''"
| "event_display PostCompact = ''post_compact''"

fun canonical :: "hook_event \<Rightarrow> hook_event" where
  "canonical SubagentEnd = SubagentStop"
| "canonical e = e"

datatype gate_kind = GateObserve | GateTool | GateStop
datatype matcher_policy = Ignored | Tested

record event_traits =
  gate :: gate_kind
  matcher_pol :: matcher_policy
  hub_forward :: bool

text \<open>The arm of \<^verbatim>\<open>SubagentEnd\<close>, \<^verbatim>\<open>unreachable!\<close> in the source, is \<open>None\<close>.\<close>

definition traits_canonical :: "hook_event \<Rightarrow> event_traits option" where
  "traits_canonical e =
     (let t = (\<lambda>g m h. Some \<lparr>gate = g, matcher_pol = m, hub_forward = h\<rparr>) in
      case e of
        SessionStart \<Rightarrow> t GateObserve Tested True
      | SessionEnd \<Rightarrow> t GateObserve Tested True
      | Stop \<Rightarrow> t GateStop Ignored True
      | StopFailure \<Rightarrow> t GateObserve Tested True
      | PreToolUse \<Rightarrow> t GateTool Tested False
      | PostToolUse \<Rightarrow> t GateObserve Tested True
      | PostToolUseFailure \<Rightarrow> t GateObserve Tested True
      | PermissionDenied \<Rightarrow> t GateObserve Tested True
      | UserPromptSubmit \<Rightarrow> t GateObserve Ignored True
      | Notification \<Rightarrow> t GateObserve Tested True
      | SubagentStart \<Rightarrow> t GateObserve Tested True
      | SubagentStop \<Rightarrow> t GateStop Tested True
      | SubagentEnd \<Rightarrow> None
      | PreCompact \<Rightarrow> t GateObserve Tested True
      | PostCompact \<Rightarrow> t GateObserve Tested True)"

definition event_traits_of :: "hook_event \<Rightarrow> event_traits option" where
  "event_traits_of e = traits_canonical (canonical e)"

text \<open>
  Every event is read back from its display name as the canonical event it is registered
  under, no spelling is claimed by two events, and the traits are defined on every event.
\<close>

theorem event_name_roundtrip:
  "event_deserialize (event_display e) = Some (canonical e)
   \<and> distinct (concat (map fst event_spellings)) \<and> event_traits_of e \<noteq> None"
proof (intro conjI)
  show "event_deserialize (event_display e) = Some (canonical e)"
    by (cases e) (simp_all add: event_deserialize_def event_spellings_def)
  show "distinct (concat (map fst event_spellings))" by (simp add: event_spellings_def)
  show "event_traits_of e \<noteq> None" by (cases e) (simp_all add: event_traits_of_def traits_canonical_def Let_def)
qed

section \<open>Payloads\<close>

text \<open>The fields of a payload that matching and the permission chain read.\<close>

datatype failure_kind = RateLimit | AuthenticationFailed | InvalidRequest | ServerError | MaxOutputTokens | Unknown

fun failure_as_str :: "failure_kind \<Rightarrow> ustr" where
  "failure_as_str RateLimit = u ''rate_limit''"
| "failure_as_str AuthenticationFailed = u ''authentication_failed''"
| "failure_as_str InvalidRequest = u ''invalid_request''"
| "failure_as_str ServerError = u ''server_error''"
| "failure_as_str MaxOutputTokens = u ''max_output_tokens''"
| "failure_as_str Unknown = u ''unknown''"

datatype hook_payload =
    PSessionStart ustr
  | PSessionEnd ustr
  | PStop
  | PStopFailure failure_kind
  | PPreToolUse ustr json
  | PPostToolUse ustr
  | PPostToolUseFailure ustr
  | PPermissionDenied ustr
  | PUserPromptSubmit
  | PNotification ustr
  | PSubagentStart ustr
  | PSubagentStop ustr
  | PPreCompact ustr
  | PPostCompact ustr

definition match_value :: "hook_payload \<Rightarrow> ustr option" where
  "match_value p =
     (let nonempty = (\<lambda>v. if v = [] then None else Some v) in
      case p of
        PPreToolUse n v \<Rightarrow> nonempty n | PPostToolUse n \<Rightarrow> nonempty n
      | PPostToolUseFailure n \<Rightarrow> nonempty n | PPermissionDenied n \<Rightarrow> nonempty n
      | PNotification n \<Rightarrow> nonempty n
      | PSubagentStart n \<Rightarrow> nonempty n | PSubagentStop n \<Rightarrow> nonempty n
      | PSessionStart n \<Rightarrow> nonempty n | PPreCompact n \<Rightarrow> nonempty n | PPostCompact n \<Rightarrow> nonempty n
      | PSessionEnd n \<Rightarrow> nonempty n
      | PStopFailure e \<Rightarrow> Some (failure_as_str e)
      | PStop \<Rightarrow> None | PUserPromptSubmit \<Rightarrow> None)"

definition MAX_PAYLOAD_SIZE :: nat where
  "MAX_PAYLOAD_SIZE = 131072"

definition truncate_payload :: "(json \<Rightarrow> ustr) \<Rightarrow> json \<Rightarrow> json \<times> bool" where
  "truncate_payload js v =
     (let serialized = js v
      in if byte_len serialized \<le> MAX_PAYLOAD_SIZE then (v, False)
         else (JString (floor_prefix MAX_PAYLOAD_SIZE serialized @ u '' [truncated]''), True))"

section \<open>Matchers\<close>

text \<open>A regular expression is what it matches; compiling one is the parameter \<open>regex_new\<close>.\<close>

datatype matcher_kind = MAll | MNever | MExact "ustr list" | MRegex "ustr \<Rightarrow> bool"

definition is_simple_form :: "ustr \<Rightarrow> bool" where
  "is_simple_form pattern \<longleftrightarrow> pattern \<noteq> [] \<and>
     list_all (\<lambda>c. 48 \<le> c \<and> c \<le> 57 \<or> 65 \<le> c \<and> c \<le> 90 \<or> 97 \<le> c \<and> c \<le> 122 \<or> c = 95 \<or> c = 124) pattern"

definition push_name :: "ustr list \<Rightarrow> ustr \<Rightarrow> ustr list" where
  "push_name names n = (if n \<noteq> [] \<and> n \<notin> set names then names @ [n] else names)"

definition exact_names :: "ustr \<Rightarrow> ustr list" where
  "exact_names pattern =
     foldl (\<lambda>names term. foldl push_name (push_name names term) (ccode_names_for term)) [] (split_on 124 pattern)"

definition matcher_new :: "(ustr \<Rightarrow> 'e + (ustr \<Rightarrow> bool)) \<Rightarrow> ustr \<Rightarrow> 'e + matcher_kind" where
  "matcher_new regex_new pattern =
     (if pattern = [] \<or> pattern = u ''*'' then Inr MAll
      else if is_simple_form pattern then Inr (MExact (exact_names pattern))
      else map_sum id MRegex (regex_new pattern))"

fun is_match :: "matcher_kind \<Rightarrow> ustr \<Rightarrow> bool" where
  "is_match MAll t = True"
| "is_match MNever t = False"
| "is_match (MExact names) t = (t \<in> set names)"
| "is_match (MRegex r) t = (r t \<or> list_ex r (claude_names_for t))"

fun matcher_allows :: "matcher_kind option \<Rightarrow> ustr option \<Rightarrow> bool" where
  "matcher_allows (Some m) (Some v) = is_match m v"
| "matcher_allows _ _ = True"

lemma set_push_name: "set (push_name ns n) = set ns \<union> ({n} - {[]})"
  by (auto simp: push_name_def)

lemma set_foldl_push_name: "set (foldl push_name ns xs) = set ns \<union> (set xs - {[]})"
  by (induction xs arbitrary: ns) (auto simp: set_push_name)

lemma set_exact_names_fold:
  "set (foldl (\<lambda>names term. foldl push_name (push_name names term) (ccode_names_for term)) ns ts)
   = set ns \<union> ((\<Union>t \<in> set ts. insert t (set (ccode_names_for t))) - {[]})"
  by (induction ts arbitrary: ns) (auto simp: set_push_name set_foldl_push_name)

text \<open>
  A matcher written as a name or a list of names separated by bars fires on a tool exactly
  when the tool is one of the names or the native name of one of them.
\<close>

theorem simple_matcher_fires_iff:
  assumes "is_simple_form pattern" "t \<noteq> []"
  shows "\<exists>m. matcher_new regex_new pattern = Inr m
    \<and> (is_match m t \<longleftrightarrow> (\<exists>name \<in> set (split_on 124 pattern). t = name \<or> t \<in> set (ccode_names_for name)))"
proof -
  have "pattern \<noteq> [] \<and> pattern \<noteq> u ''*''" using assms(1) by (auto simp: is_simple_form_def)
  then have "matcher_new regex_new pattern = Inr (MExact (exact_names pattern))"
    using assms(1) by (simp add: matcher_new_def del: u_Cons)
  moreover have "t \<in> set (exact_names pattern) \<longleftrightarrow>
      (\<exists>name \<in> set (split_on 124 pattern). t = name \<or> t \<in> set (ccode_names_for name))"
    unfolding exact_names_def set_exact_names_fold using assms(2) by auto
  ultimately show ?thesis by simp
qed

theorem simple_matcher_fires_iff_witness:
  "\<exists>m. matcher_new (\<lambda>p. Inl ()) (u ''LS|Bash'') = Inr m
    \<and> (is_match m (u ''run_terminal_command'') \<longleftrightarrow>
       (\<exists>name \<in> set (split_on 124 (u ''LS|Bash'')).
          u ''run_terminal_command'' = name \<or> u ''run_terminal_command'' \<in> set (ccode_names_for name)))"
  by (rule simple_matcher_fires_iff) (simp_all add: is_simple_form_def)

section \<open>Results of running hooks\<close>

record stop_override =
  so_reason :: "ustr option"

record stop_hook_outcome =
  sho_block_reason :: "ustr option"
  sho_additional_context :: "ustr option"
  force_stop :: "stop_override option"

datatype hook_runner_result =
    RunDecision hook_decision
  | RunSuccess
  | RunFailed ustr
  | RunStop stop_hook_outcome

datatype hook_run_result =
    HookSuccess ustr
  | HookSkipped ustr
  | HookBlocked ustr ustr
  | HookFailed ustr ustr

record hook_rewrite =
  updated_input :: "json option"
  additional_context :: "ustr option"

record hook_spec =
  spec_name :: ustr
  spec_matcher :: "matcher_kind option"
  spec_enabled :: bool

type_synonym hook_registry = "hook_event \<Rightarrow> hook_spec list"

definition hooks_for_canonical :: "hook_registry \<Rightarrow> hook_event \<Rightarrow> hook_spec list" where
  "hooks_for_canonical reg e =
     (let c = canonical e in reg c @ (if c = SubagentStop then reg SubagentEnd else []))"

definition eligible_or_record_skip ::
    "(ustr \<Rightarrow> bool) \<Rightarrow> hook_spec \<Rightarrow> ustr option \<Rightarrow> hook_run_result list \<Rightarrow> bool \<times> hook_run_result list" where
  "eligible_or_record_skip disabled spec mv results =
     (if \<not> spec_enabled spec \<or> disabled (spec_name spec)
      then (False, results @ [HookSkipped (spec_name spec)])
      else (matcher_allows (spec_matcher spec) mv, results))"

section \<open>Dispatch before a tool call\<close>

definition merge_rewrite :: "hook_rewrite \<Rightarrow> hook_rewrite \<Rightarrow> hook_rewrite" where
  "merge_rewrite acc info =
     \<lparr>updated_input = (case updated_input info of Some v \<Rightarrow> Some v | None \<Rightarrow> updated_input acc),
      additional_context =
        (case additional_context info of
           None \<Rightarrow> additional_context acc
         | Some c \<Rightarrow> (case additional_context acc of None \<Rightarrow> Some c | Some e \<Rightarrow> Some (e @ [10] @ c)))\<rparr>"

type_synonym hook_runner = "nat \<Rightarrow> hook_spec \<Rightarrow> hook_runner_result \<times> hook_rewrite"

fun pre_loop ::
    "(ustr \<Rightarrow> bool) \<Rightarrow> hook_runner \<Rightarrow> ustr option \<Rightarrow> nat \<Rightarrow> hook_spec list
      \<Rightarrow> hook_run_result list \<times> hook_rewrite \<times> hook_decision option
      \<Rightarrow> hook_run_result list \<times> hook_rewrite \<times> hook_decision option" where
  "pre_loop disabled run mv i [] acc = acc"
| "pre_loop disabled run mv i (s # ss) (results, rw, dec) =
     (case eligible_or_record_skip disabled s mv results of
        (False, results') \<Rightarrow> pre_loop disabled run mv (Suc i) ss (results', rw, dec)
      | (True, results') \<Rightarrow>
          let rw' = merge_rewrite rw (snd (run i s))
          in case fst (run i s) of
               RunDecision (HDeny reason n) \<Rightarrow>
                 (results' @ [HookBlocked (spec_name s) (u ''denied: '' @ reason)], rw',
                  Some (HDeny reason (spec_name s)))
             | RunDecision HAllow \<Rightarrow>
                 pre_loop disabled run mv (Suc i) ss (results' @ [HookSuccess (spec_name s)], rw', Some HAllow)
             | RunFailed err \<Rightarrow>
                 pre_loop disabled run mv (Suc i) ss (results' @ [HookFailed (spec_name s) err], rw', dec)
             | _ \<Rightarrow> pre_loop disabled run mv (Suc i) ss (results' @ [HookSuccess (spec_name s)], rw', dec))"

record pre_tool_use_result =
  ptu_decision :: hook_decision
  ptu_results :: "hook_run_result list"
  ptu_rewrite :: hook_rewrite
  ptu_chain :: "chain_result option"

definition no_rewrite :: hook_rewrite where
  "no_rewrite = \<lparr>updated_input = None, additional_context = None\<rparr>"

definition dispatch_pre_tool_use ::
    "(ustr \<Rightarrow> nat \<Rightarrow> ustr) \<Rightarrow> (json \<Rightarrow> ustr) \<Rightarrow> (ustr \<Rightarrow> bool) \<Rightarrow> hook_runner \<Rightarrow> hook_registry \<Rightarrow> hook_payload
      \<Rightarrow> rule_set option \<Rightarrow> bool \<Rightarrow> pre_tool_use_result" where
  "dispatch_pre_tool_use lc js disabled run reg payload rules auto_mode =
     (let hooks = reg PreToolUse
      in if hooks = [] \<and> rules = None then
           \<lparr>ptu_decision = HAllow, ptu_results = [], ptu_rewrite = no_rewrite, ptu_chain = None\<rparr>
         else
           let (tool_name, tool_input) = (case payload of PPreToolUse n v \<Rightarrow> (n, v) | _ \<Rightarrow> ([], JNull));
               (results, rw, dec) = pre_loop disabled run (match_value payload) 0 hooks ([], no_rewrite, None);
               chain = map_option (\<lambda>rs. evaluate_permission_chain lc js tool_name tool_input rs dec auto_mode) rules;
               final = (case map_option decision chain of
                          Some (DDeny reason) \<Rightarrow> HDeny reason []
                        | _ \<Rightarrow> (case dec of Some d \<Rightarrow> d | None \<Rightarrow> HAllow))
           in \<lparr>ptu_decision = final, ptu_results = results, ptu_rewrite = rw, ptu_chain = chain\<rparr>)"

definition eligible :: "(ustr \<Rightarrow> bool) \<Rightarrow> ustr option \<Rightarrow> hook_spec \<Rightarrow> bool" where
  "eligible disabled mv s \<longleftrightarrow>
     spec_enabled s \<and> \<not> disabled (spec_name s) \<and> matcher_allows (spec_matcher s) mv"

fun is_hdeny :: "hook_decision option \<Rightarrow> bool" where
  "is_hdeny (Some (HDeny r n)) = True"
| "is_hdeny _ = False"

fun run_denies :: "hook_runner_result \<Rightarrow> bool" where
  "run_denies (RunDecision (HDeny r n)) = True"
| "run_denies _ = False"

lemma eligible_or_record_skip_fst [simp]:
  "fst (eligible_or_record_skip disabled s mv results) = eligible disabled mv s"
  by (simp add: eligible_or_record_skip_def eligible_def)

lemma ex_less_Suc_split: "(\<exists>j < Suc n. P j) \<longleftrightarrow> P 0 \<or> (\<exists>j < n. P (Suc j))"
  using less_Suc_eq_0_disj by auto

lemma pre_loop_denies:
  "\<not> is_hdeny dec \<Longrightarrow>
   is_hdeny (snd (snd (pre_loop disabled run mv i ss (results, rw, dec)))) \<longleftrightarrow>
     (\<exists>j < length ss. eligible disabled mv (ss ! j) \<and> run_denies (fst (run (i + j) (ss ! j))))"
proof (induction ss arbitrary: i results rw dec)
  case (Cons s ss)
  obtain el results' where e: "eligible_or_record_skip disabled s mv results = (el, results')"
    by (cases "eligible_or_record_skip disabled s mv results")
  then have el: "el = eligible disabled mv s"
    using eligible_or_record_skip_fst [of disabled s mv results] by simp
  note IH = Cons.IH [of _ "Suc i"]
  show ?case
  proof (cases el)
    case False
    with e el Cons.prems IH show ?thesis by (simp add: ex_less_Suc_split)
  next
    case True
    then show ?thesis
      using e el Cons.prems IH
      by (cases "fst (run i s)") (simp_all add: ex_less_Suc_split Let_def split: hook_decision.splits)
  qed
qed simp

text \<open>
  C5. A tool call is blocked exactly when a hook that is enabled and matches denies it, or, with
  rules loaded, the pre-filter or a deny rule does. Hooks that fail or time out block nothing,
  and no hook can lift a denial.
\<close>

theorem dispatch_blocks_iff:
  "(\<exists>reason name. ptu_decision (dispatch_pre_tool_use lc js disabled run reg (PPreToolUse t v) rules auto)
      = HDeny reason name) \<longleftrightarrow>
   (\<exists>j < length (reg PreToolUse). eligible disabled (match_value (PPreToolUse t v)) (reg PreToolUse ! j)
      \<and> run_denies (fst (run j (reg PreToolUse ! j))))
   \<or> (\<exists>rs. rules = Some rs \<and> (pre_filter lc t v \<noteq> None \<or> (\<exists>r \<in> set rs. is_deny r \<and> rule_matches js r t v)))"
proof -
  let ?mv = "match_value (PPreToolUse t v)"
  obtain results rw dec where loop: "pre_loop disabled run ?mv 0 (reg PreToolUse) ([], no_rewrite, None) = (results, rw, dec)"
    by (metis prod_cases3)
  have dec: "is_hdeny dec \<longleftrightarrow> (\<exists>j < length (reg PreToolUse). eligible disabled ?mv (reg PreToolUse ! j)
      \<and> run_denies (fst (run j (reg PreToolUse ! j))))"
    using pre_loop_denies [of None disabled run ?mv 0 "reg PreToolUse" "[]" no_rewrite] loop by simp
  have hd: "is_hdeny dec \<longleftrightarrow> (\<exists>r n. dec = Some (HDeny r n))" by (cases dec rule: is_hdeny.cases) auto
  show ?thesis
  proof (cases rules)
    case None
    then show ?thesis
      using dec hd loop by (auto simp: dispatch_pre_tool_use_def Let_def split: option.splits)
  next
    case (Some rs)
    let ?c = "evaluate_permission_chain lc js t v rs dec auto"
    have "ptu_decision (dispatch_pre_tool_use lc js disabled run reg (PPreToolUse t v) rules auto) =
        (case decision ?c of DDeny reason \<Rightarrow> HDeny reason [] | _ \<Rightarrow> (case dec of Some d \<Rightarrow> d | None \<Rightarrow> HAllow))"
      using Some loop by (simp add: dispatch_pre_tool_use_def Let_def split: permission_decision.splits)
    moreover have "is_hdeny dec \<Longrightarrow> \<exists>reason. decision ?c = DDeny reason"
      using chain_denies_iff [of lc js t v rs dec auto] hd by blast
    ultimately have "(\<exists>reason name. ptu_decision (dispatch_pre_tool_use lc js disabled run reg (PPreToolUse t v) rules auto)
        = HDeny reason name) \<longleftrightarrow> (\<exists>reason. decision ?c = DDeny reason)"
      using hd by (auto split: permission_decision.splits option.splits)
    then show ?thesis using Some chain_denies_iff [of lc js t v rs dec auto] dec hd by auto
  qed
qed

theorem dispatch_blocks_iff_witness:
  "\<exists>reason name. ptu_decision (dispatch_pre_tool_use (\<lambda>s i. []) (\<lambda>v. []) (\<lambda>n. False)
     (\<lambda>i s. (RunFailed [], no_rewrite)) (\<lambda>e. []) (PPreToolUse (u ''Bash'') (bash_input (u ''rm -rf /''))) (Some []) True)
     = HDeny reason name"
  unfolding dispatch_blocks_iff
  by (simp add: pre_filter_def pre_filter_command_def get_str_def to_lowercase_def ascii_lower_def
      dangerous_commands_def upt_rec)

section \<open>What the pre-filter does not see\<close>

definition filtered_names :: "ustr list" where
  "filtered_names = map u [''Bash'', ''Shell'', ''FileWrite'', ''Write'', ''FileEdit'', ''Edit'']"

lemma pre_filter_name: "t \<notin> set filtered_names \<Longrightarrow> pre_filter lc t v = None"
  by (simp add: pre_filter_def pre_filter_command_def pre_filter_write_def filtered_names_def del: u_Cons)

lemma set_ccode_names: "set ccode_names = (\<Union>t \<in> set CLAUDE_TOOLS. set (ccode t))"
  by (simp add: ccode_names_def)

text \<open>
  The pre-filter knows only external tool names: on every native tool name of the alias
  table, the one of the terminal and those of the file writers included, it lets every input
  pass.
\<close>

theorem pre_filter_blind_to_native_names:
  assumes "n \<in> set ccode_names"
  shows "pre_filter lc n v = None"
proof -
  have "\<forall>t \<in> set CLAUDE_TOOLS. list_all (\<lambda>n. n \<notin> set filtered_names) (ccode t)"
    by (simp add: CLAUDE_TOOLS_def k_row_def match_only_def filtered_names_def)
  then show ?thesis using assms pre_filter_name by (auto simp: list_all_iff set_ccode_names)
qed

theorem pre_filter_blind_to_native_names_witness:
  "pre_filter (\<lambda>s i. []) (u ''run_terminal_command'') (bash_input (u ''rm -rf /'')) = None"
proof (rule pre_filter_blind_to_native_names)
  have "k_row ''Bash'' TKExecute [''run_terminal_command''] \<in> set CLAUDE_TOOLS"
    by (simp add: CLAUDE_TOOLS_def)
  then show "u ''run_terminal_command'' \<in> set ccode_names"
    unfolding set_ccode_names by (rule UN_I) (simp add: k_row_def del: u_Cons)
qed

text \<open>
  The chain is evaluated on the payload of the event, which is replaced by a string when
  its text is longer than 128 KiB. On such a payload the pre-filter passes every tool.
\<close>

theorem pre_filter_blind_to_long_input:
  assumes "MAX_PAYLOAD_SIZE < byte_len (js v)"
  shows "pre_filter lc t (fst (truncate_payload js v)) = None"
  using assms
  by (simp add: truncate_payload_def Let_def pre_filter_def pre_filter_command_def pre_filter_write_def
      get_str_def write_path_def)

lemma byte_len_replicate: "byte_len (replicate n c) = n * utf8_len c"
  by (induction n) simp_all

theorem pre_filter_blind_to_long_input_witness:
  "pre_filter (\<lambda>s i. []) (u ''Bash'')
     (fst (truncate_payload (\<lambda>v. replicate 131073 32 @ u ''rm -rf /'') (bash_input (u ''rm -rf /'')))) = None"
  by (rule pre_filter_blind_to_long_input) (simp add: MAX_PAYLOAD_SIZE_def byte_len_replicate utf8_len_def)

section \<open>Dispatch at the end of a turn\<close>

record stop_block =
  sb_hook_name :: ustr
  sb_reason :: ustr

record stop_dispatch_result =
  blocks :: "stop_block list"
  sd_context :: "ustr list"
  prevent_continuation :: "stop_block option"
  sd_results :: "hook_run_result list"

record stop_signals =
  ss_block_reason :: "ustr option"
  ss_stop_reason :: "ustr option"
  ss_context :: "ustr option"

definition stop_default :: stop_dispatch_result where
  "stop_default = \<lparr>blocks = [], sd_context = [], prevent_continuation = None, sd_results = []\<rparr>"

definition wants_continuation :: "stop_dispatch_result \<Rightarrow> bool" where
  "wants_continuation r \<longleftrightarrow> prevent_continuation r = None \<and> (blocks r \<noteq> [] \<or> sd_context r \<noteq> [])"

definition absorb :: "stop_dispatch_result \<Rightarrow> ustr \<Rightarrow> stop_signals \<Rightarrow> stop_dispatch_result" where
  "absorb out hook_name sig =
     (let o1 = (case ss_stop_reason sig of
                  Some reason \<Rightarrow>
                    if prevent_continuation out = None
                    then out\<lparr>prevent_continuation := Some \<lparr>sb_hook_name = hook_name, sb_reason = reason\<rparr>\<rparr>
                    else out
                | None \<Rightarrow> out);
          o2 = (case ss_block_reason sig of
                  Some reason \<Rightarrow> o1\<lparr>blocks := blocks o1 @ [\<lparr>sb_hook_name = hook_name, sb_reason = reason\<rparr>]\<rparr>
                | None \<Rightarrow> o1)
      in case ss_context sig of
           Some c \<Rightarrow> o2\<lparr>sd_context := sd_context o2 @ [c]\<rparr>
         | None \<Rightarrow> o2)"

definition stop_detail :: "bool \<Rightarrow> ustr option \<Rightarrow> ustr option \<Rightarrow> ustr option" where
  "stop_detail prevented prevent_reason block_reason =
     (if prevented then
        Some (case prevent_reason of
                Some r \<Rightarrow> u ''prevented continuation: '' @ r
              | None \<Rightarrow> u ''prevented continuation'')
      else map_option (\<lambda>r. u ''blocked stop: '' @ r) block_reason)"

definition stop_outcome_detail :: "stop_hook_outcome \<Rightarrow> ustr option" where
  "stop_outcome_detail out =
     stop_detail (force_stop out \<noteq> None) (Option.bind (force_stop out) so_reason) (sho_block_reason out)"

definition signals_of :: "stop_hook_outcome \<Rightarrow> stop_signals" where
  "signals_of out =
     \<lparr>ss_block_reason = sho_block_reason out,
      ss_stop_reason = map_option (\<lambda>f. case so_reason f of Some r \<Rightarrow> r | None \<Rightarrow> u ''stopped by hook'')
                         (force_stop out),
      ss_context = sho_additional_context out\<rparr>"

definition push_result :: "stop_dispatch_result \<Rightarrow> hook_run_result \<Rightarrow> stop_dispatch_result" where
  "push_result out r = out\<lparr>sd_results := sd_results out @ [r]\<rparr>"

fun stop_loop ::
    "(ustr \<Rightarrow> bool) \<Rightarrow> hook_runner \<Rightarrow> ustr option \<Rightarrow> nat \<Rightarrow> hook_spec list
      \<Rightarrow> stop_dispatch_result \<Rightarrow> stop_dispatch_result" where
  "stop_loop disabled run mv i [] out = out"
| "stop_loop disabled run mv i (s # ss) out =
     (case eligible_or_record_skip disabled s mv (sd_results out) of
        (False, results') \<Rightarrow> stop_loop disabled run mv (Suc i) ss (out\<lparr>sd_results := results'\<rparr>)
      | (True, results') \<Rightarrow>
          let out1 = out\<lparr>sd_results := results'\<rparr>
          in stop_loop disabled run mv (Suc i) ss
               (case fst (run i s) of
                  RunStop outcome \<Rightarrow>
                    absorb (push_result out1
                              (case stop_outcome_detail outcome of
                                 Some detail \<Rightarrow> HookBlocked (spec_name s) detail
                               | None \<Rightarrow> HookSuccess (spec_name s)))
                      (spec_name s) (signals_of outcome)
                | RunFailed err \<Rightarrow> push_result out1 (HookFailed (spec_name s) err)
                | _ \<Rightarrow> push_result out1 (HookSuccess (spec_name s))))"

text \<open>A call with an event that is no stop gate, an error the source reports, changes nothing.\<close>

definition dispatch_stop ::
    "(ustr \<Rightarrow> bool) \<Rightarrow> hook_runner \<Rightarrow> hook_registry \<Rightarrow> hook_event \<Rightarrow> hook_payload \<Rightarrow> stop_dispatch_result" where
  "dispatch_stop disabled run reg event payload =
     (if map_option gate (event_traits_of event) \<noteq> Some GateStop then stop_default
      else let hooks = hooks_for_canonical reg (canonical event)
           in if hooks = [] then stop_default
              else stop_loop disabled run (match_value payload) 0 hooks stop_default)"

definition dispatch_non_blocking ::
    "(ustr \<Rightarrow> bool) \<Rightarrow> hook_runner \<Rightarrow> hook_registry \<Rightarrow> hook_event \<Rightarrow> hook_payload \<Rightarrow> hook_run_result list" where
  "dispatch_non_blocking disabled run reg event payload =
     (let hooks = hooks_for_canonical reg event
      in concat (map (\<lambda>i. let s = hooks ! i in
           case eligible_or_record_skip disabled s (match_value payload) [] of
             (False, results) \<Rightarrow> results
           | (True, results) \<Rightarrow>
               results @ [case fst (run i s) of RunFailed err \<Rightarrow> HookFailed (spec_name s) err
                          | _ \<Rightarrow> HookSuccess (spec_name s)]) [0..<length hooks]))"

text \<open>The outcomes that count: those of the eligible hooks that answered the gate, in order.\<close>

fun stop_outcomes ::
    "(ustr \<Rightarrow> bool) \<Rightarrow> hook_runner \<Rightarrow> ustr option \<Rightarrow> nat \<Rightarrow> hook_spec list \<Rightarrow> (ustr \<times> stop_hook_outcome) list" where
  "stop_outcomes disabled run mv i [] = []"
| "stop_outcomes disabled run mv i (s # ss) =
     (if eligible disabled mv s
      then case fst (run i s) of RunStop outc \<Rightarrow> [(spec_name s, outc)] | _ \<Rightarrow> []
      else []) @ stop_outcomes disabled run mv (Suc i) ss"

definition absorb_all :: "stop_dispatch_result \<Rightarrow> (ustr \<times> stop_hook_outcome) list \<Rightarrow> stop_dispatch_result" where
  "absorb_all = foldl (\<lambda>a (n, outc). absorb a n (signals_of outc))"

definition forget :: "stop_dispatch_result \<Rightarrow> stop_dispatch_result" where
  "forget r = r\<lparr>sd_results := []\<rparr>"

lemma forget_simps [simp]:
  "forget (r\<lparr>sd_results := x\<rparr>) = forget r" "forget (push_result r y) = forget r"
  "blocks (forget r) = blocks r" "sd_context (forget r) = sd_context r"
  "prevent_continuation (forget r) = prevent_continuation r"
  by (simp_all add: forget_def push_result_def)

lemma forget_absorb: "forget (absorb r n sig) = absorb (forget r) n sig"
  by (simp add: absorb_def forget_def Let_def split: option.splits)

lemma stop_loop_absorbs:
  "forget (stop_loop disabled run mv i ss out) = absorb_all (forget out) (stop_outcomes disabled run mv i ss)"
proof (induction ss arbitrary: i out)
  case (Cons s ss)
  obtain el results' where e: "eligible_or_record_skip disabled s mv (sd_results out) = (el, results')"
    by (cases "eligible_or_record_skip disabled s mv (sd_results out)")
  then have "el = eligible disabled mv s"
    using eligible_or_record_skip_fst [of disabled s mv "sd_results out"] by simp
  with e show ?case
    by (cases el; cases "fst (run i s)")
      (simp_all add: Cons.IH absorb_all_def forget_absorb split: hook_runner_result.splits)
qed (simp add: absorb_all_def)

lemma absorb_all_fields:
  "blocks (absorb_all r os) = blocks r @
     concat (map (\<lambda>(n, outc). case sho_block_reason outc of
        Some reason \<Rightarrow> [\<lparr>sb_hook_name = n, sb_reason = reason\<rparr>] | None \<Rightarrow> []) os)"
  "sd_context (absorb_all r os) = sd_context r @ List.map_filter (sho_additional_context \<circ> snd) os"
  "prevent_continuation (absorb_all r os) =
     (case prevent_continuation r of
        Some b \<Rightarrow> Some b
      | None \<Rightarrow> map_option (\<lambda>(n, outc). \<lparr>sb_hook_name = n, sb_reason = the (ss_stop_reason (signals_of outc))\<rparr>)
                  (find (\<lambda>(n, outc). force_stop outc \<noteq> None) os))"
  by (induction os arbitrary: r)
    (auto simp: absorb_all_def absorb_def signals_of_def Let_def map_filter_simps split: option.splits)

text \<open>
  After the turn the agent goes on exactly when some eligible hook blocks the stop or adds
  context and none forces a stop; the reported force-stop is the first one. Failed hooks, and
  the order of the others, make no difference to whether it goes on.
\<close>

theorem stop_gate_continues_iff:
  assumes "map_option gate (event_traits_of event) = Some GateStop"
    and "outs = stop_outcomes disabled run (match_value payload) 0 (hooks_for_canonical reg event)"
  shows "(wants_continuation (dispatch_stop disabled run reg event payload) \<longleftrightarrow>
      (\<forall>(n, outc) \<in> set outs. force_stop outc = None)
      \<and> (\<exists>(n, outc) \<in> set outs. sho_block_reason outc \<noteq> None \<or> sho_additional_context outc \<noteq> None))
    \<and> map_option sb_hook_name (prevent_continuation (dispatch_stop disabled run reg event payload))
      = map_option fst (find (\<lambda>(n, outc). force_stop outc \<noteq> None) outs)"
proof -
  have cc: "hooks_for_canonical reg (canonical event) = hooks_for_canonical reg event"
    by (cases event) (simp_all add: hooks_for_canonical_def)
  have "forget (dispatch_stop disabled run reg event payload) = absorb_all stop_default outs"
    using assms stop_loop_absorbs [of disabled run "match_value payload" 0 "hooks_for_canonical reg event" stop_default]
    by (auto simp: dispatch_stop_def cc Let_def absorb_all_def) (simp_all add: forget_def stop_default_def)
  note eq = arg_cong [OF this, of blocks] arg_cong [OF this, of sd_context] arg_cong [OF this, of prevent_continuation]
  show ?thesis
  proof
    let ?r = "dispatch_stop disabled run reg event payload"
    have "prevent_continuation ?r = None \<longleftrightarrow> (\<forall>(n, outc) \<in> set outs. force_stop outc = None)"
      using eq(3) by (auto simp: absorb_all_fields stop_default_def find_None_iff)
    moreover have "blocks ?r \<noteq> [] \<longleftrightarrow> (\<exists>(n, outc) \<in> set outs. sho_block_reason outc \<noteq> None)"
      using eq(1) by (force simp: absorb_all_fields stop_default_def split: option.splits)
    moreover have "sd_context ?r \<noteq> [] \<longleftrightarrow> (\<exists>(n, outc) \<in> set outs. sho_additional_context outc \<noteq> None)"
      using eq(2) by (force simp: absorb_all_fields stop_default_def map_filter_def filter_empty_conv)
    ultimately show "wants_continuation ?r \<longleftrightarrow>
        (\<forall>(n, outc) \<in> set outs. force_stop outc = None)
        \<and> (\<exists>(n, outc) \<in> set outs. sho_block_reason outc \<noteq> None \<or> sho_additional_context outc \<noteq> None)"
      unfolding wants_continuation_def split_beta by blast
    show "map_option sb_hook_name (prevent_continuation (dispatch_stop disabled run reg event payload))
        = map_option fst (find (\<lambda>(n, outc). force_stop outc \<noteq> None) outs)"
      using eq(3) by (auto simp: absorb_all_fields stop_default_def option.map_comp o_def case_prod_beta)
  qed
qed

theorem stop_gate_continues_iff_witness:
  "wants_continuation (dispatch_stop (\<lambda>n. False)
     (\<lambda>i s. (RunStop \<lparr>sho_block_reason = Some (u ''tests fail''), sho_additional_context = None, force_stop = None\<rparr>,
             no_rewrite))
     (\<lambda>e. [\<lparr>spec_name = u ''ci'', spec_matcher = None, spec_enabled = True\<rparr>]) Stop PStop)"
  by (subst stop_gate_continues_iff [OF _ refl, THEN conjunct1])
    (simp_all add: event_traits_of_def traits_canonical_def hooks_for_canonical_def eligible_def Let_def)

end
