(* ===== verification/Patch_Parser.thy ===== *)
theory Patch_Parser
  imports UString
begin

text \<open>
  The parser of the apply-patch format:
  \<^verbatim>\<open>crates/codegen/ccode-tools/src/implementations/codex/apply_patch/parser.rs\<close> with the
  errors of \<^verbatim>\<open>errors.rs\<close>. Paths are strings.
\<close>

section \<open>Data\<close>

datatype parse_error =
    InvalidPatchError ustr
  | InvalidHunkError ustr nat

record update_file_chunk =
  change_context :: "ustr option"
  old_lines :: "ustr list"
  new_lines :: "ustr list"
  is_end_of_file :: bool

datatype hunk =
    AddFile ustr ustr
  | DeleteFile ustr
  | UpdateFile ustr "ustr option" "update_file_chunk list"

record parsed_patch =
  hunks :: "hunk list"
  patch :: ustr

datatype parse_mode = Strict | Lenient

definition BEGIN_PATCH_MARKER :: ustr where "BEGIN_PATCH_MARKER = u ''*** Begin Patch''"
definition END_PATCH_MARKER :: ustr where "END_PATCH_MARKER = u ''*** End Patch''"
definition ADD_FILE_MARKER :: ustr where "ADD_FILE_MARKER = u ''*** Add File: ''"
definition DELETE_FILE_MARKER :: ustr where "DELETE_FILE_MARKER = u ''*** Delete File: ''"
definition UPDATE_FILE_MARKER :: ustr where "UPDATE_FILE_MARKER = u ''*** Update File: ''"
definition MOVE_TO_MARKER :: ustr where "MOVE_TO_MARKER = u ''*** Move to: ''"
definition EOF_MARKER :: ustr where "EOF_MARKER = u ''*** End of File''"
definition CHANGE_CONTEXT_MARKER :: ustr where "CHANGE_CONTEXT_MARKER = u ''@@ ''"
definition EMPTY_CHANGE_CONTEXT_MARKER :: ustr where "EMPTY_CHANGE_CONTEXT_MARKER = u ''@@''"

section \<open>Chunks\<close>

definition msg_no_lines :: ustr where
  "msg_no_lines = u ''Update hunk does not contain any lines''"

definition quote_char :: ustr where
  "quote_char = [39]"

definition msg_unexpected :: "ustr \<Rightarrow> ustr" where
  "msg_unexpected l = u ''Unexpected line found in update hunk: '' @ quote_char @ l @ quote_char
     @ u ''. Every line should start with '' @ quote_char @ u '' '' @ quote_char @ u '' (context line), ''
     @ quote_char @ u ''+'' @ quote_char @ u '' (added line), or '' @ quote_char @ u ''-'' @ quote_char
     @ u '' (removed line)''"

fun chunk_loop :: "nat \<Rightarrow> ustr list \<Rightarrow> update_file_chunk \<Rightarrow> nat \<Rightarrow> parse_error + (update_file_chunk \<times> nat)" where
  "chunk_loop line_number [] chunk parsed = Inr (chunk, parsed)"
| "chunk_loop line_number (l # ls) chunk parsed =
     (if l = EOF_MARKER then
        if parsed = 0 then Inl (InvalidHunkError msg_no_lines (line_number + 1))
        else Inr (chunk\<lparr>is_end_of_file := True\<rparr>, parsed + 1)
      else
        case l of
          [] \<Rightarrow> chunk_loop line_number ls
                  (chunk\<lparr>old_lines := old_lines chunk @ [[]], new_lines := new_lines chunk @ [[]]\<rparr>) (parsed + 1)
        | c # rest \<Rightarrow>
            if c = 32 then
              chunk_loop line_number ls
                (chunk\<lparr>old_lines := old_lines chunk @ [rest], new_lines := new_lines chunk @ [rest]\<rparr>) (parsed + 1)
            else if c = 43 then
              chunk_loop line_number ls (chunk\<lparr>new_lines := new_lines chunk @ [rest]\<rparr>) (parsed + 1)
            else if c = 45 then
              chunk_loop line_number ls (chunk\<lparr>old_lines := old_lines chunk @ [rest]\<rparr>) (parsed + 1)
            else if parsed = 0 then Inl (InvalidHunkError (msg_unexpected l) (line_number + 1))
            else Inr (chunk, parsed))"

text \<open>The context marker a chunk starts with and the number of lines it takes.\<close>

definition chunk_start :: "ustr \<Rightarrow> bool \<Rightarrow> (ustr option \<times> nat) option" where
  "chunk_start l allow_missing_context =
     (if l = EMPTY_CHANGE_CONTEXT_MARKER then Some (None, 1)
      else case strip_prefix l CHANGE_CONTEXT_MARKER of
             Some ctx \<Rightarrow> Some (Some ctx, 1)
           | None \<Rightarrow> if \<not> allow_missing_context then None else Some (None, 0))"

definition new_chunk :: "ustr option \<Rightarrow> update_file_chunk" where
  "new_chunk ctx = \<lparr>change_context = ctx, old_lines = [], new_lines = [], is_end_of_file = False\<rparr>"

definition parse_update_file_chunk ::
    "ustr list \<Rightarrow> nat \<Rightarrow> bool \<Rightarrow> parse_error + (update_file_chunk \<times> nat)" where
  "parse_update_file_chunk ls line_number allow_missing_context =
     (if ls = [] then Inl (InvalidHunkError msg_no_lines line_number)
      else
        case chunk_start (hd ls) allow_missing_context of
          None \<Rightarrow> Inl (InvalidHunkError
            (u ''Expected update hunk to start with a @@ context marker, got: '' @ quote_char @ hd ls @ quote_char)
            line_number)
        | Some (ctx, start_index) \<Rightarrow>
            if length ls \<le> start_index then Inl (InvalidHunkError msg_no_lines (line_number + 1))
            else case chunk_loop line_number (drop start_index ls) (new_chunk ctx) 0 of
                   Inl e \<Rightarrow> Inl e
                 | Inr (chunk, parsed) \<Rightarrow> Inr (chunk, parsed + start_index))"

lemma chunk_loop_consumes:
  "chunk_loop k ls c p = Inr (c', n) \<Longrightarrow> p \<le> n \<and> n \<le> p + length ls \<and> (p = 0 \<and> ls \<noteq> [] \<longrightarrow> 0 < n)"
proof (induction k ls c p rule: chunk_loop.induct)
  case (2 k l ls c p)
  then show ?case by (cases l) (auto split: if_splits)
qed simp

lemma chunk_start_le: "chunk_start l a = Some (ctx, i) \<Longrightarrow> i \<le> 1"
  by (auto simp: chunk_start_def split: if_splits option.splits)

lemma parse_update_file_chunk_Inr:
  "parse_update_file_chunk ls k a = Inr (c, n) \<longleftrightarrow>
     (\<exists>ctx i m. ls \<noteq> [] \<and> chunk_start (hd ls) a = Some (ctx, i) \<and> i < length ls
        \<and> chunk_loop k (drop i ls) (new_chunk ctx) 0 = Inr (c, m) \<and> n = m + i)"
  unfolding parse_update_file_chunk_def
  by (auto simp del: u_Cons split: option.splits sum.splits)

lemma parse_update_file_chunk_consumes:
  assumes "parse_update_file_chunk ls k a = Inr (c, n)"
  shows "0 < n" "n \<le> length ls"
proof -
  obtain ctx i m where "i \<le> 1" "i < length ls" "n = m + i"
    and loop: "chunk_loop k (drop i ls) (new_chunk ctx) 0 = Inr (c, m)"
    using assms by (auto simp: parse_update_file_chunk_Inr dest: chunk_start_le)
  with chunk_loop_consumes [OF loop] show "0 < n" "n \<le> length ls" by auto
qed

section \<open>Hunks\<close>

function update_loop ::
    "nat \<Rightarrow> ustr list \<Rightarrow> nat \<Rightarrow> update_file_chunk list \<Rightarrow> parse_error + (update_file_chunk list \<times> nat)" where
  "update_loop line_number rem parsed chunks =
     (if rem = [] then Inr (chunks, parsed)
      else if trim (hd rem) = [] then update_loop line_number (tl rem) (parsed + 1) chunks
      else if starts_with (hd rem) (u ''***'') then Inr (chunks, parsed)
      else case parse_update_file_chunk rem (line_number + parsed) (chunks = []) of
             Inl e \<Rightarrow> Inl e
           | Inr (c, n) \<Rightarrow> update_loop line_number (drop n rem) (parsed + n) (chunks @ [c]))"
  by pat_completeness auto
termination
  by (relation "measure (\<lambda>(k, rem, p, cs). length rem)")
    (auto dest!: parse_update_file_chunk_consumes(1) intro!: diff_less)

declare update_loop.simps [simp del]

definition add_contents :: "ustr list \<Rightarrow> ustr list" where
  "add_contents ls = map tl (takeWhile (\<lambda>l. starts_with l [43]) ls)"

definition parse_one_hunk :: "ustr list \<Rightarrow> nat \<Rightarrow> parse_error + (hunk \<times> nat)" where
  "parse_one_hunk ls line_number =
     (let first_line = trim (hd ls) in
      case strip_prefix first_line ADD_FILE_MARKER of
        Some path \<Rightarrow>
          let added = add_contents (tl ls)
          in Inr (AddFile path (concat (map (\<lambda>l. l @ [10]) added)), 1 + length added)
      | None \<Rightarrow>
        (case strip_prefix first_line DELETE_FILE_MARKER of
           Some path \<Rightarrow> Inr (DeleteFile path, 1)
         | None \<Rightarrow>
           (case strip_prefix first_line UPDATE_FILE_MARKER of
              Some path \<Rightarrow>
                let move_path = (if tl ls = [] then None else strip_prefix (hd (tl ls)) MOVE_TO_MARKER);
                    skip = (if move_path \<noteq> None then 1 else 0)
                in (case update_loop line_number (drop skip (tl ls)) (1 + skip) [] of
                      Inl e \<Rightarrow> Inl e
                    | Inr (chunks, parsed) \<Rightarrow>
                        if chunks = [] then
                          Inl (InvalidHunkError (u ''Update file hunk for path '' @ quote_char @ path @ quote_char
                                @ u '' is empty'') line_number)
                        else Inr (UpdateFile path move_path chunks, parsed))
            | None \<Rightarrow>
                Inl (InvalidHunkError
                  (quote_char @ first_line @ quote_char @ u '' is not a valid hunk header. Valid hunk headers: ''
                   @ quote_char @ u ''*** Add File: {path}'' @ quote_char @ u '', ''
                   @ quote_char @ u ''*** Delete File: {path}'' @ quote_char @ u '', ''
                   @ quote_char @ u ''*** Update File: {path}'' @ quote_char) line_number))))"

lemma update_loop_consumes:
  "update_loop k rem p cs = Inr (cs', n) \<Longrightarrow> p \<le> n \<and> n \<le> p + length rem"
proof (induction k rem p cs rule: update_loop.induct)
  case (1 k rem p cs)
  show ?case
  proof (cases "rem = [] \<or> starts_with (hd rem) (u ''***'') \<and> trim (hd rem) \<noteq> []")
    case True
    with 1(3) show ?thesis by (auto simp: update_loop.simps [of k rem] simp del: u_Cons split: if_splits)
  next
    case False
    show ?thesis
    proof (cases "trim (hd rem) = []")
      case True
      with False 1(3) have "update_loop k (tl rem) (p + 1) cs = Inr (cs', n)"
        by (simp add: update_loop.simps [of k rem])
      with 1(1) False True show ?thesis by (cases rem) auto
    next
      case blank: False
      then obtain c m where c: "parse_update_file_chunk rem (k + p) (cs = []) = Inr (c, m)"
        and l: "update_loop k (drop m rem) (p + m) (cs @ [c]) = Inr (cs', n)"
        using False 1(3) by (auto simp: update_loop.simps [of k rem] split: sum.splits prod.splits)
      from 1(2) [OF _ blank _ c refl l] False blank parse_update_file_chunk_consumes [OF c]
      show ?thesis by auto
    qed
  qed
qed

lemma parse_one_hunk_cases:
  assumes "parse_one_hunk ls k = Inr (h, n)"
  obtains (add) path where "h = AddFile path (concat (map (\<lambda>l. l @ [10]) (add_contents (tl ls))))"
      "n = 1 + length (add_contents (tl ls))"
    | (delete) path where "h = DeleteFile path" "n = 1"
    | (update) path mv cs skip where "h = UpdateFile path mv cs" "cs \<noteq> []"
      "skip = (if mv \<noteq> None then 1 else 0)" "mv \<noteq> None \<longrightarrow> tl ls \<noteq> []"
      "update_loop k (drop skip (tl ls)) (1 + skip) [] = Inr (cs, n)"
proof -
  let ?f = "trim (hd ls)"
  consider path where "strip_prefix ?f ADD_FILE_MARKER = Some path"
    | path where "strip_prefix ?f ADD_FILE_MARKER = None" "strip_prefix ?f DELETE_FILE_MARKER = Some path"
    | path where "strip_prefix ?f ADD_FILE_MARKER = None" "strip_prefix ?f DELETE_FILE_MARKER = None"
        "strip_prefix ?f UPDATE_FILE_MARKER = Some path"
    using assms by (fastforce simp: parse_one_hunk_def Let_def simp del: u_Cons split: option.splits)
  then show ?thesis
  proof cases
    case 1
    then show ?thesis using assms by (intro add [of path]) (auto simp: parse_one_hunk_def Let_def)
  next
    case 2
    then show ?thesis using assms by (intro delete [of path]) (auto simp: parse_one_hunk_def Let_def)
  next
    case 3
    let ?mv = "if tl ls = [] then None else strip_prefix (hd (tl ls)) MOVE_TO_MARKER"
    let ?skip = "if ?mv \<noteq> None then 1 else 0 :: nat"
    from 3 assms obtain cs where "update_loop k (drop ?skip (tl ls)) (1 + ?skip) [] = Inr (cs, n)" "cs \<noteq> []"
      "h = UpdateFile path ?mv cs"
      by (auto simp: parse_one_hunk_def Let_def simp del: u_Cons split: sum.splits prod.splits if_split_asm)
    then show ?thesis using update [of path ?mv cs ?skip] by (auto split: if_splits)
  qed
qed

lemma parse_one_hunk_consumes:
  assumes "ls \<noteq> []" "parse_one_hunk ls k = Inr (h, n)"
  shows "0 < n \<and> n \<le> length ls"
  using assms(2)
proof (cases rule: parse_one_hunk_cases)
  case (add path)
  have "length (add_contents (tl ls)) \<le> length (tl ls)"
    unfolding add_contents_def length_map by (rule length_takeWhile_le)
  with add assms(1) show ?thesis by (cases ls) auto
next
  case (delete path)
  with assms(1) show ?thesis by (cases ls) auto
next
  case (update path mv cs skip)
  from update_loop_consumes [OF update(5)] update(3,4) assms(1) show ?thesis
    by (cases ls; cases "tl ls") (auto split: if_splits)
qed

section \<open>Patches\<close>

function parse_hunks :: "nat \<Rightarrow> ustr list \<Rightarrow> hunk list \<Rightarrow> parse_error + hunk list" where
  "parse_hunks line_number rem hs =
     (if rem = [] then Inr hs
      else case parse_one_hunk rem line_number of
             Inl e \<Rightarrow> Inl e
           | Inr (h, n) \<Rightarrow> parse_hunks (line_number + n) (drop n rem) (hs @ [h]))"
  by pat_completeness auto
termination
  by (relation "measure (\<lambda>(k, rem, hs). length rem)")
    (auto dest: parse_one_hunk_consumes intro!: diff_less)

declare parse_hunks.simps [simp del]

definition check_start_and_end_lines_strict :: "ustr option \<Rightarrow> ustr option \<Rightarrow> parse_error option" where
  "check_start_and_end_lines_strict first_line last_line =
     (case (map_option trim first_line, map_option trim last_line) of
        (Some f, Some l) \<Rightarrow>
          if f = BEGIN_PATCH_MARKER \<and> l = END_PATCH_MARKER then None
          else if f \<noteq> BEGIN_PATCH_MARKER then
            Some (InvalidPatchError (u ''The first line of the patch must be '' @ quote_char
                    @ BEGIN_PATCH_MARKER @ quote_char))
          else Some (InvalidPatchError (u ''The last line of the patch must be '' @ quote_char
                    @ END_PATCH_MARKER @ quote_char))
      | (Some f, None) \<Rightarrow>
          if f \<noteq> BEGIN_PATCH_MARKER then
            Some (InvalidPatchError (u ''The first line of the patch must be '' @ quote_char
                    @ BEGIN_PATCH_MARKER @ quote_char))
          else Some (InvalidPatchError (u ''The last line of the patch must be '' @ quote_char
                    @ END_PATCH_MARKER @ quote_char))
      | (None, _) \<Rightarrow> Some (InvalidPatchError (u ''The last line of the patch must be '' @ quote_char
                    @ END_PATCH_MARKER @ quote_char)))"

definition check_patch_boundaries_strict :: "ustr list \<Rightarrow> parse_error option" where
  "check_patch_boundaries_strict ls =
     (if ls = [] then check_start_and_end_lines_strict None None
      else check_start_and_end_lines_strict (Some (hd ls)) (Some (last ls)))"

definition heredoc_starts :: "ustr list" where
  "heredoc_starts = [u ''<<EOF'', u ''<<'' @ quote_char @ u ''EOF'' @ quote_char, u ''<<'' @ [34] @ u ''EOF'' @ [34]]"

definition check_patch_boundaries_lenient :: "ustr list \<Rightarrow> parse_error \<Rightarrow> parse_error + ustr list" where
  "check_patch_boundaries_lenient original_lines original_parse_error =
     (if 2 \<le> length original_lines then
        if hd original_lines \<in> set heredoc_starts \<and> ends_with (last original_lines) (u ''EOF'')
           \<and> 4 \<le> length original_lines
        then let inner_lines = butlast (tl original_lines)
             in case check_patch_boundaries_strict inner_lines of
                  None \<Rightarrow> Inr inner_lines
                | Some e \<Rightarrow> Inl e
        else Inl original_parse_error
      else Inl original_parse_error)"

definition parse_patch_text :: "ustr \<Rightarrow> parse_mode \<Rightarrow> parse_error + parsed_patch" where
  "parse_patch_text p mode =
     (let ls0 = lines (trim p);
          checked = (case check_patch_boundaries_strict ls0 of
                       None \<Rightarrow> Inr ls0
                     | Some e \<Rightarrow> (case mode of Strict \<Rightarrow> Inl e | Lenient \<Rightarrow> check_patch_boundaries_lenient ls0 e))
      in case checked of
           Inl e \<Rightarrow> Inl e
         | Inr ls \<Rightarrow>
             (case parse_hunks 2 (butlast (tl ls)) [] of
                Inl e \<Rightarrow> Inl e
              | Inr hs \<Rightarrow> Inr \<lparr>hunks = hs, patch = join_with [10] ls\<rparr>))"

definition parse_patch :: "ustr \<Rightarrow> parse_error + parsed_patch" where
  "parse_patch p = parse_patch_text p Lenient"

section \<open>Printing\<close>

text \<open>
  A printer for hunks, the inverse of the parser on well-formed hunks: the removed lines of a
  chunk first, then the added ones.
\<close>

definition context_line :: "ustr option \<Rightarrow> ustr" where
  "context_line ctx = (case ctx of None \<Rightarrow> EMPTY_CHANGE_CONTEXT_MARKER | Some c \<Rightarrow> CHANGE_CONTEXT_MARKER @ c)"

definition print_chunk :: "update_file_chunk \<Rightarrow> ustr list" where
  "print_chunk c = context_line (change_context c) # map ((#) 45) (old_lines c) @ map ((#) 43) (new_lines c)
     @ (if is_end_of_file c then [EOF_MARKER] else [])"

definition content_lines :: "ustr \<Rightarrow> ustr list" where
  "content_lines s = butlast (split_on 10 s)"

fun print_hunk :: "hunk \<Rightarrow> ustr list" where
  "print_hunk (AddFile path contents) = (ADD_FILE_MARKER @ path) # map ((#) 43) (content_lines contents)"
| "print_hunk (DeleteFile path) = [DELETE_FILE_MARKER @ path]"
| "print_hunk (UpdateFile path mv chunks) =
     (UPDATE_FILE_MARKER @ path) # (case mv of None \<Rightarrow> [] | Some m \<Rightarrow> [MOVE_TO_MARKER @ m])
       @ concat (map print_chunk chunks)"

definition print_patch :: "hunk list \<Rightarrow> ustr" where
  "print_patch hs = join_with [10] (BEGIN_PATCH_MARKER # concat (map print_hunk hs) @ [END_PATCH_MARKER])"

definition wf_path :: "ustr \<Rightarrow> bool" where
  "wf_path p \<longleftrightarrow> p \<noteq> [] \<and> \<not> is_ws (last p) \<and> 10 \<notin> set p"

definition wf_chunk :: "update_file_chunk \<Rightarrow> bool" where
  "wf_chunk c \<longleftrightarrow> (old_lines c \<noteq> [] \<or> new_lines c \<noteq> []) \<and> list_all line_ok (old_lines c @ new_lines c)
     \<and> (\<forall>x. change_context c = Some x \<longrightarrow> line_ok x)"

fun wf_hunk :: "hunk \<Rightarrow> bool" where
  "wf_hunk (AddFile path contents) \<longleftrightarrow> wf_path path \<and> last (split_on 10 contents) = []
     \<and> list_all line_ok (content_lines contents)"
| "wf_hunk (DeleteFile path) \<longleftrightarrow> wf_path path"
| "wf_hunk (UpdateFile path mv chunks) \<longleftrightarrow> wf_path path \<and> (\<forall>m. mv = Some m \<longrightarrow> line_ok m)
     \<and> chunks \<noteq> [] \<and> list_all wf_chunk chunks"

section \<open>Parsing what was printed\<close>

text \<open>Lines at which a chunk stops: the end, or a line that starts a chunk or a hunk.\<close>

definition stops :: "ustr list \<Rightarrow> bool" where
  "stops rest \<longleftrightarrow> rest = [] \<or> hd rest \<noteq> [] \<and> hd (hd rest) \<in> {42, 64} \<and> hd rest \<noteq> EOF_MARKER"

lemma chunk_loop_removed:
  "chunk_loop k (map ((#) 45) os @ rest) c p = chunk_loop k rest (c\<lparr>old_lines := old_lines c @ os\<rparr>) (p + length os)"
  by (induction os arbitrary: c p) (simp_all add: EOF_MARKER_def)

lemma chunk_loop_added:
  "chunk_loop k (map ((#) 43) ns @ rest) c p = chunk_loop k rest (c\<lparr>new_lines := new_lines c @ ns\<rparr>) (p + length ns)"
  by (induction ns arbitrary: c p) (simp_all add: EOF_MARKER_def)

lemma chunk_loop_stops: "stops rest \<Longrightarrow> 0 < p \<Longrightarrow> chunk_loop k rest c p = Inr (c, p)"
  by (cases rest) (auto simp: stops_def neq_Nil_conv)

lemma chunk_start_print: "chunk_start (context_line ctx) a = Some (ctx, 1)"
  by (cases ctx) (auto simp: chunk_start_def context_line_def EMPTY_CHANGE_CONTEXT_MARKER_def
      CHANGE_CONTEXT_MARKER_def strip_prefix_def starts_with_def)

lemma parse_printed_chunk:
  assumes "wf_chunk c" "stops rest \<or> is_end_of_file c"
  shows "parse_update_file_chunk (print_chunk c @ rest) k a = Inr (c, length (print_chunk c))"
proof -
  have ne: "0 < length (old_lines c) + length (new_lines c)" using assms(1) by (auto simp: wf_chunk_def)
  have "chunk_loop k (drop 1 (print_chunk c @ rest)) (new_chunk (change_context c)) 0 =
      Inr (c, length (print_chunk c) - 1)"
    using ne assms(2)
    by (auto simp: print_chunk_def chunk_loop_removed chunk_loop_added chunk_loop_stops new_chunk_def EOF_MARKER_def)
  then show ?thesis
    unfolding parse_update_file_chunk_Inr using ne
    by (intro exI [of _ "change_context c"] exI [of _ "1 :: nat"] exI [of _ "length (print_chunk c) - 1"])
      (auto simp: print_chunk_def chunk_start_print)
qed

lemma trim_not_Nil: "c \<in> set s \<Longrightarrow> \<not> is_ws c \<Longrightarrow> trim s \<noteq> []"
  by (auto simp: trim_def trim_start_def trim_end_def dropWhile_eq_Nil_conv dest: set_dropWhileD)
    (metis dropWhile_eq_Nil_conv dropWhile_idem hd_dropWhile list.set_sel(1))

lemma join_with_snoc: "join_with [d] (ws @ [w]) = concat (map (\<lambda>l. l @ [d]) ws) @ w"
proof (induction ws)
  case (Cons v ws)
  then show ?case by (cases ws) simp_all
qed simp

lemma content_lines_concat:
  assumes "last (split_on 10 s) = []"
  shows "concat (map (\<lambda>l. l @ [10]) (content_lines s)) = s"
proof -
  have "split_on 10 s = content_lines s @ [[]]"
    unfolding content_lines_def using assms append_butlast_last_id [OF split_on_not_Nil, of 10 s] by metis
  then show ?thesis using join_split_on [of 10 s] by (simp add: join_with_snoc)
qed

definition tail_ok :: "ustr list \<Rightarrow> bool" where
  "tail_ok rest \<longleftrightarrow> rest = [] \<or> starts_with (hd rest) (u ''*** '') \<and> hd rest \<noteq> EOF_MARKER"

lemma tail_ok_stops: "tail_ok rest \<Longrightarrow> stops rest"
  by (auto simp: tail_ok_def stops_def starts_with_iff)

lemma context_line_start: "\<exists>r. context_line ctx = 64 # r"
  by (cases ctx) (simp_all add: context_line_def CHANGE_CONTEXT_MARKER_def EMPTY_CHANGE_CONTEXT_MARKER_def)

lemma stops_chunks: "tail_ok rest \<Longrightarrow> stops (concat (map print_chunk cs) @ rest)"
proof (cases cs)
  case (Cons c cs')
  obtain r where "context_line (change_context c) = 64 # r" using context_line_start by blast
  then show ?thesis by (simp add: Cons stops_def print_chunk_def EOF_MARKER_def)
qed (simp add: tail_ok_stops)

lemma update_loop_printed:
  assumes "list_all wf_chunk cs" "tail_ok rest"
  shows "update_loop k (concat (map print_chunk cs) @ rest) p acc =
    Inr (acc @ cs, p + length (concat (map print_chunk cs)))"
  using assms(1)
proof (induction cs arbitrary: p acc)
  case Nil
  have "rest \<noteq> [] \<Longrightarrow> trim (hd rest) \<noteq> []"
    using assms(2) by (intro trim_not_Nil [of 42]) (auto simp: tail_ok_def starts_with_iff is_ws_def)
  then show ?case
    using assms(2) by (auto simp: update_loop.simps [of k rest] tail_ok_def starts_with_iff)
next
  case (Cons c cs)
  let ?rem = "print_chunk c @ concat (map print_chunk cs) @ rest"
  obtain r where r: "hd ?rem = 64 # r" using context_line_start by (auto simp: print_chunk_def)
  have "trim (hd ?rem) \<noteq> []" by (rule trim_not_Nil [of 64]) (simp_all add: r is_ws_def)
  moreover have "\<not> starts_with (hd ?rem) (u ''***'')" by (simp add: r)
  moreover have "parse_update_file_chunk ?rem (k + p) (acc = []) = Inr (c, length (print_chunk c))"
    using Cons.prems by (intro parse_printed_chunk) (simp_all add: stops_chunks assms(2))
  ultimately have "update_loop k ?rem p acc =
      update_loop k (concat (map print_chunk cs) @ rest) (p + length (print_chunk c)) (acc @ [c])"
    using r by (subst update_loop.simps) (auto simp: print_chunk_def)
  then show ?case using Cons by simp
qed

lemma trim_header:
  assumes "wf_path p" "hd m = 42" "m \<noteq> []"
  shows "trim (m @ p) = m @ p"
  using assms by (intro trim_trimmed) (auto simp: trimmed_def wf_path_def is_ws_def)

lemma add_contents_printed:
  assumes "tail_ok rest"
  shows "add_contents (map ((#) 43) ls @ rest) = ls"
proof -
  have "takeWhile (\<lambda>l. starts_with l [43]) rest = []"
    using assms by (cases rest) (auto simp: tail_ok_def starts_with_iff)
  then have "takeWhile (\<lambda>l. starts_with l [43]) (map ((#) 43) ls @ rest) = map ((#) 43) ls"
    by (subst takeWhile_append2) auto
  then show ?thesis by (simp add: add_contents_def o_def)
qed

lemmas file_markers = ADD_FILE_MARKER_def DELETE_FILE_MARKER_def UPDATE_FILE_MARKER_def

lemma parse_printed_hunk:
  assumes "wf_hunk h" "tail_ok rest"
  shows "parse_one_hunk (print_hunk h @ rest) k = Inr (h, length (print_hunk h))"
proof (cases h)
  case (AddFile path contents)
  then have "trim (ADD_FILE_MARKER @ path) = ADD_FILE_MARKER @ path"
    using assms(1) by (intro trim_header) (simp_all add: ADD_FILE_MARKER_def)
  with AddFile assms show ?thesis
    by (simp add: parse_one_hunk_def Let_def add_contents_printed content_lines_concat)
next
  case (DeleteFile path)
  then have "trim (DELETE_FILE_MARKER @ path) = DELETE_FILE_MARKER @ path"
    using assms(1) by (intro trim_header) (simp_all add: DELETE_FILE_MARKER_def)
  moreover have "strip_prefix (DELETE_FILE_MARKER @ path) ADD_FILE_MARKER = None"
    by (simp add: strip_prefix_def file_markers)
  ultimately show ?thesis using DeleteFile assms by (simp add: parse_one_hunk_def)
next
  case (UpdateFile path mv cs)
  then have "trim (UPDATE_FILE_MARKER @ path) = UPDATE_FILE_MARKER @ path"
    using assms(1) by (intro trim_header) (simp_all add: UPDATE_FILE_MARKER_def)
  moreover have "strip_prefix (UPDATE_FILE_MARKER @ path) ADD_FILE_MARKER = None"
    "strip_prefix (UPDATE_FILE_MARKER @ path) DELETE_FILE_MARKER = None"
    by (simp_all add: strip_prefix_def file_markers)
  moreover have "strip_prefix (context_line ctx) MOVE_TO_MARKER = None" for ctx
  proof -
    obtain r where "context_line ctx = 64 # r" using context_line_start by blast
    then show ?thesis by (simp add: strip_prefix_def MOVE_TO_MARKER_def)
  qed
  then have "strip_prefix (hd (concat (map print_chunk cs) @ rest)) MOVE_TO_MARKER = None"
    using UpdateFile assms(1) by (cases cs) (auto simp: print_chunk_def)
  ultimately show ?thesis
    using UpdateFile assms update_loop_printed [of cs rest k]
    by (cases mv) (auto simp: parse_one_hunk_def Let_def)
qed

lemma tail_ok_hunks: "tail_ok (concat (map print_hunk hs))"
proof (cases hs)
  case (Cons h hs')
  then show ?thesis by (cases h) (simp_all add: tail_ok_def file_markers EOF_MARKER_def)
qed (simp add: tail_ok_def)

lemma parse_printed_hunks:
  assumes "list_all wf_hunk hs"
  shows "parse_hunks k (concat (map print_hunk hs)) acc = Inr (acc @ hs)"
  using assms
proof (induction hs arbitrary: k acc)
  case (Cons h hs)
  have "print_hunk h \<noteq> []" by (cases h) auto
  with Cons show ?case
    by (simp add: parse_hunks.simps [of k] parse_printed_hunk tail_ok_hunks)
qed (simp add: parse_hunks.simps)

lemma printed_lines_ok:
  assumes "wf_hunk h" "l \<in> set (print_hunk h)"
  shows "line_ok l"
proof -
  have c: "line_ok l" if "wf_chunk c" "l \<in> set (print_chunk c)" for c
    using that by (auto simp: print_chunk_def wf_chunk_def context_line_def line_ok_def list_all_iff EOF_MARKER_def
        CHANGE_CONTEXT_MARKER_def EMPTY_CHANGE_CONTEXT_MARKER_def split: option.splits if_splits)
  have p: "line_ok (m @ path)" if "wf_path path" "10 \<notin> set m" for m path
    using that by (auto simp: wf_path_def line_ok_def is_ws_def)
  show ?thesis
  proof (cases h)
    case (AddFile path contents)
    with assms p [of path ADD_FILE_MARKER] show ?thesis
      by (auto simp: list_all_iff line_ok_def ADD_FILE_MARKER_def split: if_splits)
  next
    case (DeleteFile path)
    with assms p [of path DELETE_FILE_MARKER] show ?thesis by (auto simp: DELETE_FILE_MARKER_def)
  next
    case (UpdateFile path mv cs)
    with assms p [of path UPDATE_FILE_MARKER] c show ?thesis
      by (auto simp: list_all_iff line_ok_def MOVE_TO_MARKER_def UPDATE_FILE_MARKER_def split: option.splits if_splits)
  qed
qed

lemma printed_patch_parses:
  assumes "list_all wf_hunk hs"
  shows "parse_patch (print_patch hs) = Inr \<lparr>hunks = hs, patch = print_patch hs\<rparr>"
proof -
  let ?ls = "BEGIN_PATCH_MARKER # concat (map print_hunk hs) @ [END_PATCH_MARKER]"
  have ok: "\<forall>l \<in> set ?ls. line_ok l"
    using assms printed_lines_ok
    by (auto simp: list_all_iff line_ok_def BEGIN_PATCH_MARKER_def END_PATCH_MARKER_def)
  have "print_patch hs = concat (map (\<lambda>l. l @ [10]) (BEGIN_PATCH_MARKER # concat (map print_hunk hs))) @ END_PATCH_MARKER"
    unfolding print_patch_def using join_with_snoc [of 10 "BEGIN_PATCH_MARKER # concat (map print_hunk hs)"] by simp
  then have "trimmed (print_patch hs)"
    by (simp add: trimmed_def is_ws_def BEGIN_PATCH_MARKER_def END_PATCH_MARKER_def)
  then have l: "lines (trim (print_patch hs)) = ?ls"
    using lines_join [of ?ls] ok by (simp add: trim_trimmed print_patch_def END_PATCH_MARKER_def)
  have "trim BEGIN_PATCH_MARKER = BEGIN_PATCH_MARKER" "trim END_PATCH_MARKER = END_PATCH_MARKER"
    by (intro trim_trimmed; simp add: trimmed_def is_ws_def BEGIN_PATCH_MARKER_def END_PATCH_MARKER_def)+
  then have b: "check_patch_boundaries_strict ?ls = None"
    by (simp add: check_patch_boundaries_strict_def check_start_and_end_lines_strict_def)
  have h: "butlast (tl ?ls) = concat (map print_hunk hs)" by simp
  show ?thesis
    unfolding parse_patch_def parse_patch_text_def Let_def l b h
    by (simp add: parse_printed_hunks [OF assms] print_patch_def)
qed

text \<open>
  C1. Round trip: a patch printed from well-formed hunks parses to exactly those hunks, and the
  normalised text the parser returns is the printed text.
\<close>

theorem parse_print_roundtrip:
  "list_all wf_hunk hs \<Longrightarrow> parse_patch (print_patch hs) = Inr \<lparr>hunks = hs, patch = print_patch hs\<rparr>"
  by (rule printed_patch_parses)

definition sample_hunks :: "hunk list" where
  "sample_hunks =
     [UpdateFile (u ''src/a.rs'') (Some (u ''src/b.rs''))
        [\<lparr>change_context = Some (u ''fn main() {''), old_lines = [u ''  old();''], new_lines = [u ''  new();'', []],
          is_end_of_file = False\<rparr>,
         \<lparr>change_context = None, old_lines = [u ''}''], new_lines = [], is_end_of_file = True\<rparr>],
      AddFile (u ''notes.txt'') (u ''hello'' @ [10]),
      DeleteFile (u ''junk'')]"

lemma sample_hunks_wf: "list_all wf_hunk sample_hunks"
  by (simp add: sample_hunks_def wf_path_def wf_chunk_def line_ok_def is_ws_def content_lines_def)

theorem parse_print_roundtrip_witness:
  "parse_patch (print_patch sample_hunks) = Inr \<lparr>hunks = sample_hunks, patch = print_patch sample_hunks\<rparr>"
  by (rule parse_print_roundtrip) (rule sample_hunks_wf)

section \<open>What an accepted patch looks like\<close>

lemma strict_boundaries:
  "check_patch_boundaries_strict ls = None \<longleftrightarrow>
     ls \<noteq> [] \<and> trim (hd ls) = BEGIN_PATCH_MARKER \<and> trim (last ls) = END_PATCH_MARKER"
  by (auto simp: check_patch_boundaries_strict_def check_start_and_end_lines_strict_def simp del: u_Cons
      split: if_splits)

lemma strict_boundaries_two:
  assumes "check_patch_boundaries_strict ls = None"
  shows "2 \<le> length ls"
proof (cases ls)
  case (Cons l rest)
  have "BEGIN_PATCH_MARKER \<noteq> END_PATCH_MARKER" by (simp add: BEGIN_PATCH_MARKER_def END_PATCH_MARKER_def)
  with assms Cons show ?thesis by (cases rest) (auto simp: strict_boundaries)
qed (use assms in \<open>simp add: strict_boundaries\<close>)

text \<open>
  Only framed text is accepted: the lines the hunks are read from, all lines of the trimmed
  text or those inside a here-document, are at least two, the first is the begin marker and
  the last the end marker. In particular the slices the parser takes are in range.
\<close>

theorem accepted_patch_is_framed:
  assumes "parse_patch p = Inr r"
  shows "\<exists>ls. patch r = join_with [10] ls \<and> 2 \<le> length ls
    \<and> trim (hd ls) = BEGIN_PATCH_MARKER \<and> trim (last ls) = END_PATCH_MARKER
    \<and> (ls = lines (trim p) \<or> ls = butlast (tl (lines (trim p))))
    \<and> parse_hunks 2 (butlast (tl ls)) [] = Inr (hunks r)"
proof -
  have "\<exists>ls. check_patch_boundaries_strict ls = None \<and> (ls = lines (trim p) \<or> ls = butlast (tl (lines (trim p))))
      \<and> parse_hunks 2 (butlast (tl ls)) [] = Inr (hunks r) \<and> patch r = join_with [10] ls"
    using assms
    by (auto simp: parse_patch_def parse_patch_text_def check_patch_boundaries_lenient_def Let_def
        split: option.splits sum.splits if_splits)
  then show ?thesis using strict_boundaries strict_boundaries_two by blast
qed

theorem accepted_patch_is_framed_witness:
  "\<exists>ls. print_patch sample_hunks = join_with [10] ls \<and> 2 \<le> length ls \<and> trim (hd ls) = BEGIN_PATCH_MARKER"
  using accepted_patch_is_framed [OF printed_patch_parses [OF sample_hunks_wf]] by auto

end
