(* ===== verification/Patch_Apply.thy ===== *)
theory Patch_Apply
  imports Patch_Parser
begin

text \<open>
  Applying a parsed patch to the text of a file: \<^verbatim>\<open>seek_sequence.rs\<close> and \<^verbatim>\<open>apply.rs\<close> of
  \<^verbatim>\<open>crates/codegen/ccode-tools/src/implementations/codex/apply_patch\<close>. The display form of the
  path, which only appears in messages, is a string. \<open>None\<close> stands for the panic of
  \<^verbatim>\<open>Vec::insert\<close> out of range.
\<close>

section \<open>Searching for lines\<close>

definition normalise_char :: "nat \<Rightarrow> nat" where
  "normalise_char c =
     (if c \<in> {8208, 8209, 8210, 8211, 8212, 8213, 8722} then 45
      else if c \<in> {8216, 8217, 8218, 8219} then 39
      else if c \<in> {8220, 8221, 8222, 8223} then 34
      else if c \<in> {160, 8194, 8195, 8196, 8197, 8198, 8199, 8200, 8201, 8202, 8239, 8287, 12288} then 32
      else c)"

definition normalise :: "ustr \<Rightarrow> ustr" where
  "normalise s = map normalise_char (trim s)"

text \<open>Lines \<open>i..i + |pattern|\<close> agree with the pattern up to \<open>f\<close>.\<close>

definition match_at :: "(ustr \<Rightarrow> ustr) \<Rightarrow> ustr list \<Rightarrow> ustr list \<Rightarrow> nat \<Rightarrow> bool" where
  "match_at f ls pattern i \<longleftrightarrow> map f (take (length pattern) (drop i ls)) = map f pattern"

definition seek_pass :: "(ustr \<Rightarrow> ustr) \<Rightarrow> ustr list \<Rightarrow> ustr list \<Rightarrow> nat \<Rightarrow> nat option" where
  "seek_pass f ls pattern search_start =
     find (match_at f ls pattern) [search_start..<length ls - length pattern + 1]"

definition seek_sequence :: "ustr list \<Rightarrow> ustr list \<Rightarrow> nat \<Rightarrow> bool \<Rightarrow> nat option" where
  "seek_sequence ls pattern start eof =
     (if pattern = [] then Some start
      else if length ls < length pattern then None
      else
        let s = (if eof \<and> length pattern \<le> length ls then length ls - length pattern else start) in
        case seek_pass (\<lambda>l. l) ls pattern s of
          Some i \<Rightarrow> Some i
        | None \<Rightarrow>
            (case seek_pass trim_end ls pattern s of
               Some i \<Rightarrow> Some i
             | None \<Rightarrow>
                 (case seek_pass trim ls pattern s of
                    Some i \<Rightarrow> Some i
                  | None \<Rightarrow> seek_pass normalise ls pattern s)))"

section \<open>Replacements\<close>

type_synonym replacement = "nat \<times> nat \<times> ustr list"

definition seek_context :: "ustr list \<Rightarrow> ustr \<Rightarrow> update_file_chunk \<Rightarrow> nat \<Rightarrow> ustr + nat" where
  "seek_context ls path c line_index =
     (case change_context c of
        None \<Rightarrow> Inr line_index
      | Some ctx \<Rightarrow>
          (case seek_sequence ls [ctx] line_index False of
             Some idx \<Rightarrow> Inr (idx + 1)
           | None \<Rightarrow> Inl (u ''Failed to find context '' @ quote_char @ ctx @ quote_char @ u '' in '' @ path)))"

definition ends_blank :: "ustr list \<Rightarrow> bool" where
  "ends_blank ls \<longleftrightarrow> ls \<noteq> [] \<and> last ls = []"

text \<open>The lines looked for, where they are, and what replaces them, with the retry without a final blank line.\<close>

definition locate_chunk :: "ustr list \<Rightarrow> update_file_chunk \<Rightarrow> nat \<Rightarrow> replacement option" where
  "locate_chunk ls c line_index =
     (case seek_sequence ls (old_lines c) line_index (is_end_of_file c) of
        Some i \<Rightarrow> Some (i, length (old_lines c), new_lines c)
      | None \<Rightarrow>
          if ends_blank (old_lines c) then
            let pattern = butlast (old_lines c);
                new_slice = (if ends_blank (new_lines c) then butlast (new_lines c) else new_lines c)
            in map_option (\<lambda>i. (i, length pattern, new_slice)) (seek_sequence ls pattern line_index (is_end_of_file c))
          else None)"

fun replacement_loop ::
    "ustr list \<Rightarrow> ustr \<Rightarrow> update_file_chunk list \<Rightarrow> nat \<Rightarrow> replacement list \<Rightarrow> ustr + replacement list" where
  "replacement_loop ls path [] line_index acc = Inr acc"
| "replacement_loop ls path (c # cs) line_index acc =
     (case seek_context ls path c line_index of
        Inl e \<Rightarrow> Inl e
      | Inr li \<Rightarrow>
          if old_lines c = [] then
            replacement_loop ls path cs li
              (acc @ [(if ends_blank ls then length ls - 1 else length ls, 0, new_lines c)])
          else
            (case locate_chunk ls c li of
               Some (i, n, new) \<Rightarrow> replacement_loop ls path cs (i + n) (acc @ [(i, n, new)])
             | None \<Rightarrow> Inl (u ''Failed to find expected lines in '' @ path @ u '':'' @ [10]
                             @ join_with [10] (old_lines c))))"

definition compute_replacements :: "ustr list \<Rightarrow> ustr \<Rightarrow> update_file_chunk list \<Rightarrow> ustr + replacement list" where
  "compute_replacements ls path cs = map_sum id (sort_key fst) (replacement_loop ls path cs 0 [])"

fun remove_lines :: "nat \<Rightarrow> nat \<Rightarrow> ustr list \<Rightarrow> ustr list" where
  "remove_lines i 0 ls = ls"
| "remove_lines i (Suc n) ls = remove_lines i n (if i < length ls then take i ls @ drop (Suc i) ls else ls)"

fun insert_lines :: "nat \<Rightarrow> ustr list \<Rightarrow> ustr list \<Rightarrow> ustr list option" where
  "insert_lines i [] ls = Some ls"
| "insert_lines i (x # xs) ls =
     (if i \<le> length ls then insert_lines (Suc i) xs (take i ls @ x # drop i ls) else None)"

definition apply_one :: "ustr list option \<Rightarrow> replacement \<Rightarrow> ustr list option" where
  "apply_one ls r = (case (ls, r) of
     (None, _) \<Rightarrow> None
   | (Some ls, (i, n, new)) \<Rightarrow> insert_lines i new (remove_lines i n ls))"

definition apply_replacements :: "ustr list \<Rightarrow> replacement list \<Rightarrow> ustr list option" where
  "apply_replacements ls rs = foldl apply_one (Some ls) (rev rs)"

definition file_lines :: "ustr \<Rightarrow> ustr list" where
  "file_lines s = (let ls = split_on 10 s in if ends_blank ls then butlast ls else ls)"

definition finish_lines :: "ustr list \<Rightarrow> ustr" where
  "finish_lines ls = join_with [10] (if ends_blank ls then ls else ls @ [[]])"

definition derive_new_contents :: "ustr \<Rightarrow> ustr \<Rightarrow> update_file_chunk list \<Rightarrow> (ustr + ustr) option" where
  "derive_new_contents original_content path cs =
     (let ls = file_lines original_content in
      case compute_replacements ls path cs of
        Inl e \<Rightarrow> Some (Inl e)
      | Inr rs \<Rightarrow> map_option (\<lambda>new. Inr (finish_lines new)) (apply_replacements ls rs))"

section \<open>The search finds the best match\<close>

lemma find_upt_Some:
  "find P [a..<b] = Some i \<longleftrightarrow> a \<le> i \<and> i < b \<and> P i \<and> (\<forall>j. a \<le> j \<and> j < i \<longrightarrow> \<not> P j)"
proof (induction "b - a" arbitrary: a)
  case (Suc n)
  then have ab: "a < b" by simp
  have "find P [Suc a..<b] = Some i \<longleftrightarrow> Suc a \<le> i \<and> i < b \<and> P i \<and> (\<forall>j. Suc a \<le> j \<and> j < i \<longrightarrow> \<not> P j)"
    using Suc by (intro Suc(1)) simp
  moreover have "(\<forall>j. a \<le> j \<and> j < i \<longrightarrow> \<not> P j) \<longleftrightarrow> (a < i \<longrightarrow> \<not> P a) \<and> (\<forall>j. Suc a \<le> j \<and> j < i \<longrightarrow> \<not> P j)"
    by (metis Suc_leD Suc_leI le_neq_implies_less le_refl)
  ultimately show ?case using ab by (cases "i = a") (auto simp: upt_conv_Cons)
qed auto

lemma find_upt_None: "find P [a..<b] = None \<longleftrightarrow> (\<forall>j. a \<le> j \<and> j < b \<longrightarrow> \<not> P j)"
  by (auto simp: find_None_iff)

lemma match_at_weaken: "match_at f ls pat i \<Longrightarrow> match_at (g \<circ> f) ls pat i"
  unfolding match_at_def by (metis map_map)

lemma match_chain:
  "match_at (\<lambda>l. l) ls pat i \<Longrightarrow> match_at f ls pat i"
  "match_at trim_end ls pat i \<Longrightarrow> match_at trim ls pat i"
  "match_at trim ls pat i \<Longrightarrow> match_at normalise ls pat i"
proof -
  show "match_at (\<lambda>l. l) ls pat i \<Longrightarrow> match_at f ls pat i" by (simp add: match_at_def)
  have "trim = trim_start \<circ> trim_end" by (auto simp: trim_alt)
  then show "match_at trim_end ls pat i \<Longrightarrow> match_at trim ls pat i" by (metis match_at_weaken)
  have "normalise = map normalise_char \<circ> trim" by (auto simp: normalise_def)
  then show "match_at trim ls pat i \<Longrightarrow> match_at normalise ls pat i" by (metis match_at_weaken)
qed

definition search_start :: "ustr list \<Rightarrow> ustr list \<Rightarrow> nat \<Rightarrow> bool \<Rightarrow> nat" where
  "search_start ls pat start eof = (if eof then length ls - length pat else start)"

lemma seek_pass_Some:
  "length pat \<le> length ls \<Longrightarrow> seek_pass f ls pat s = Some i \<longleftrightarrow>
     s \<le> i \<and> i + length pat \<le> length ls \<and> match_at f ls pat i \<and> (\<forall>j. s \<le> j \<and> j < i \<longrightarrow> \<not> match_at f ls pat j)"
  unfolding seek_pass_def find_upt_Some by auto

lemma seek_pass_None:
  "length pat \<le> length ls \<Longrightarrow> seek_pass f ls pat s = None \<longleftrightarrow>
     (\<forall>j. s \<le> j \<and> j + length pat \<le> length ls \<longrightarrow> \<not> match_at f ls pat j)"
  unfolding seek_pass_def find_upt_None by (auto simp: Nat.le_diff_conv2 less_Suc_eq_le)

lemma seek_cases:
  assumes "pat \<noteq> []" "length pat \<le> length ls"
  shows "seek_sequence ls pat start eof =
    (let s = search_start ls pat start eof in
     case seek_pass (\<lambda>l. l) ls pat s of Some i \<Rightarrow> Some i | None \<Rightarrow>
     (case seek_pass trim_end ls pat s of Some i \<Rightarrow> Some i | None \<Rightarrow>
     (case seek_pass trim ls pat s of Some i \<Rightarrow> Some i | None \<Rightarrow> seek_pass normalise ls pat s)))"
  using assms by (simp add: seek_sequence_def search_start_def)

lemma seek_Some:
  assumes "pat \<noteq> []" "seek_sequence ls pat start eof = Some i"
  shows "search_start ls pat start eof \<le> i \<and> i + length pat \<le> length ls \<and> match_at normalise ls pat i"
proof -
  have len: "length pat \<le> length ls" using assms by (auto simp: seek_sequence_def split: if_splits)
  obtain f where "f \<in> {\<lambda>l. l, trim_end, trim, normalise}" and
    "seek_pass f ls pat (search_start ls pat start eof) = Some i"
    using assms(2) unfolding seek_cases [OF assms(1) len] Let_def by (auto split: option.splits)
  then show ?thesis unfolding seek_pass_Some [OF len] using match_chain by auto
qed

lemma seek_None:
  assumes "pat \<noteq> []" "length pat \<le> length ls"
  shows "seek_sequence ls pat start eof = None \<longleftrightarrow>
    (\<forall>i. search_start ls pat start eof \<le> i \<and> i + length pat \<le> length ls \<longrightarrow> \<not> match_at normalise ls pat i)"
proof -
  let ?s = "search_start ls pat start eof"
  have "seek_sequence ls pat start eof = None \<longleftrightarrow>
      seek_pass (\<lambda>l. l) ls pat ?s = None \<and> seek_pass trim_end ls pat ?s = None
      \<and> seek_pass trim ls pat ?s = None \<and> seek_pass normalise ls pat ?s = None"
    unfolding seek_cases [OF assms] by (auto simp: Let_def split: option.splits)
  then show ?thesis unfolding seek_pass_None [OF assms(2)] by (blast dest: match_chain)
qed

lemma seek_exact:
  assumes "pat \<noteq> []" "search_start ls pat start eof \<le> j" "j + length pat \<le> length ls" "match_at (\<lambda>l. l) ls pat j"
  shows "\<exists>i \<le> j. seek_sequence ls pat start eof = Some i \<and> match_at (\<lambda>l. l) ls pat i"
proof -
  let ?s = "search_start ls pat start eof"
  have len: "length pat \<le> length ls" using assms(3) by simp
  have "seek_pass (\<lambda>l. l) ls pat ?s \<noteq> None"
    unfolding seek_pass_None [OF len] using assms by auto
  then obtain i where i: "seek_pass (\<lambda>l. l) ls pat ?s = Some i" by blast
  then have "seek_sequence ls pat start eof = Some i"
    by (simp add: seek_cases [OF assms(1) len] Let_def)
  moreover from i have "match_at (\<lambda>l. l) ls pat i" "i \<le> j"
    unfolding seek_pass_Some [OF len] using assms by (auto simp: not_less [symmetric])
  ultimately show ?thesis by blast
qed

text \<open>
  C39. The search is sound, complete and prefers exact matches among the positions it looks at, which
  are those from the start on, and with the end-of-file flag only the one where the pattern ends with
  the file. A found position is one of these, its lines equal the pattern up to surrounding white space
  and typographic punctuation; if some of these positions matches exactly, the first exact one is
  returned; nothing is returned only if none of them matches even loosely.
\<close>

theorem seek_sequence_best_match:
  assumes "pat \<noteq> []" "lo = (if eof then length ls - length pat else start)"
  shows "case seek_sequence ls pat start eof of
      None \<Rightarrow> \<forall>i \<ge> lo. i + length pat \<le> length ls \<longrightarrow> \<not> match_at normalise ls pat i
    | Some i \<Rightarrow> lo \<le> i \<and> i + length pat \<le> length ls \<and> match_at normalise ls pat i
        \<and> (\<forall>j \<ge> lo. j + length pat \<le> length ls \<and> match_at (\<lambda>l. l) ls pat j
             \<longrightarrow> i \<le> j \<and> match_at (\<lambda>l. l) ls pat i)"
proof -
  have f: "search_start ls pat start eof = lo" by (simp add: assms(2) search_start_def)
  show ?thesis
  proof (cases "seek_sequence ls pat start eof")
    case None
    then show ?thesis
      using seek_None [OF assms(1), of ls start eof] by (cases "length pat \<le> length ls") (auto simp: f)
  next
    case (Some i)
    with seek_Some [OF assms(1) Some] seek_exact [OF assms(1), of ls start eof] show ?thesis
      by (fastforce simp: f)
  qed
qed

theorem seek_sequence_best_match_witness:
  "(\<exists>i. seek_sequence [u ''a'', u '' b'', u ''b''] [u ''b''] 0 False = Some i \<and>
     match_at normalise [u ''a'', u '' b'', u ''b''] [u ''b''] i) \<and>
   \<not> match_at normalise [u ''x'', u ''y''] [u ''x''] 1"
proof
  have "seek_sequence [u ''a'', u '' b'', u ''b''] [u ''b''] 0 False = Some 2"
    by (simp add: seek_sequence_def seek_pass_def match_at_def upt_rec)
  with seek_sequence_best_match [where pat = "[u ''b'']" and ls = "[u ''a'', u '' b'', u ''b'']" and start = 0 and eof = False]
  show "\<exists>i. seek_sequence [u ''a'', u '' b'', u ''b''] [u ''b''] 0 False = Some i \<and>
      match_at normalise [u ''a'', u '' b'', u ''b''] [u ''b''] i" by (auto simp del: u_Cons)
  have "seek_sequence [u ''x'', u ''y''] [u ''x''] 0 True = None"
    by (simp add: seek_sequence_def seek_pass_def match_at_def upt_rec normalise_def trim_def trim_start_def trim_end_def
        is_ws_def normalise_char_def)
  with seek_sequence_best_match [where pat = "[u ''x'']" and ls = "[u ''x'', u ''y'']" and start = 0 and eof = True and lo = 1]
  show "\<not> match_at normalise [u ''x'', u ''y''] [u ''x''] 1" by (simp del: u_Cons)
qed

text \<open>
  With the end-of-file flag only the last lines are compared: the start position has no
  influence, and there is no second search from it.
\<close>

theorem seek_at_end_of_file:
  assumes "pat \<noteq> []" "length pat \<le> length ls"
  shows "seek_sequence ls pat start True =
    (if match_at normalise ls pat (length ls - length pat) then Some (length ls - length pat) else None)"
proof (cases "seek_sequence ls pat start True")
  case None
  with seek_None [OF assms, of start True] assms(2) show ?thesis by (auto simp: search_start_def)
next
  case (Some i)
  with seek_Some [OF assms(1) Some] have "i = length ls - length pat" unfolding search_start_def by auto
  with Some seek_Some [OF assms(1) Some] show ?thesis by simp
qed

theorem seek_at_end_of_file_witness:
  "seek_sequence [u ''x'', u ''y''] [u ''x''] 0 True = None"
  using seek_at_end_of_file [of "[u ''x'']" "[u ''x'', u ''y'']" 0]
  by (simp add: match_at_def normalise_def trim_def trim_start_def trim_end_def is_ws_def normalise_char_def)

section \<open>Applying replacements\<close>

lemma remove_lines_eq: "remove_lines i n ls = take i ls @ drop (i + n) ls"
proof (induction n arbitrary: ls)
  case (Suc n)
  show ?case
  proof (cases "i < length ls")
    case True
    then have "drop (i + n) (take i ls @ drop (Suc i) ls) = drop (i + Suc n) ls"
      by (simp add: add.commute)
    with Suc True show ?thesis by simp
  qed (simp add: Suc)
qed simp

lemma insert_lines_eq:
  "insert_lines i xs ls = (if i \<le> length ls \<or> xs = [] then Some (take i ls @ xs @ drop i ls) else None)"
proof (induction xs arbitrary: i ls)
  case (Cons x xs)
  then show ?case by (cases "i \<le> length ls") simp_all
qed simp

lemma apply_one_Some:
  "i \<le> length ls \<Longrightarrow> apply_one (Some ls) (i, n, new) = Some (take i ls @ new @ drop (i + n) ls)"
  by (simp add: apply_one_def remove_lines_eq insert_lines_eq)

lemma apply_replacements_Cons:
  "apply_replacements ls (r # rs) = apply_one (apply_replacements ls rs) r"
  by (simp add: apply_replacements_def)

lemma apply_replacements_total:
  "sorted (map fst rs) \<Longrightarrow> \<forall>r \<in> set rs. m \<le> fst r \<and> fst r \<le> length ls \<Longrightarrow> m \<le> length ls \<Longrightarrow>
   \<exists>ls'. apply_replacements ls rs = Some ls' \<and> m \<le> length ls'"
proof (induction rs arbitrary: m)
  case Nil
  then show ?case by (simp add: apply_replacements_def)
next
  case (Cons r rs)
  obtain i n new where r: "r = (i, n, new)" by (cases r)
  obtain ls' where "apply_replacements ls rs = Some ls'" "i \<le> length ls'"
    using Cons.IH [of i] Cons.prems r by auto
  with Cons.prems r show ?case by (auto simp: apply_replacements_Cons apply_one_Some)
qed






section \<open>Where the replacements are\<close>

lemma seek_range:
  assumes "seek_sequence ls pat start eof = Some i" "start \<le> length ls"
  shows "i + length pat \<le> length ls"
  using assms seek_Some [of pat ls start eof i] by (cases "pat = []") (auto simp: seek_sequence_def)

lemma locate_chunk_range:
  assumes "locate_chunk ls c li = Some (i, n, new)" "li \<le> length ls"
  shows "i + n \<le> length ls"
  using assms seek_range [of ls "old_lines c" li "is_end_of_file c"]
    seek_range [of ls "butlast (old_lines c)" li "is_end_of_file c"]
  by (auto simp: locate_chunk_def Let_def split: option.splits if_splits)

lemma seek_context_range:
  assumes "seek_context ls path c li = Inr li'" "li \<le> length ls"
  shows "li \<le> li' \<and> li' \<le> length ls"
  using assms seek_Some [of "[the (change_context c)]" ls li False]
  by (auto simp: seek_context_def search_start_def split: option.splits)

lemma replacement_loop_range:
  "replacement_loop ls path cs li acc = Inr rs \<Longrightarrow> li \<le> length ls \<Longrightarrow> \<forall>r \<in> set acc. fst r \<le> length ls \<Longrightarrow>
   \<forall>r \<in> set rs. fst r \<le> length ls"
proof (induction ls path cs li acc rule: replacement_loop.induct)
  case (2 ls path c cs li acc)
  obtain li' where ctx: "seek_context ls path c li = Inr li'" using 2(3) by (auto split: sum.splits)
  with 2(4) have li': "li' \<le> length ls" using seek_context_range by blast
  show ?case
  proof (cases "old_lines c = []")
    case True
    then show ?thesis using 2(1) [OF ctx True] 2(3,5) ctx li' by auto
  next
    case False
    then obtain i n new where loc: "locate_chunk ls c li' = Some (i, n, new)"
      using 2(3) ctx by (auto split: option.splits)
    show ?thesis
      using 2(2) [OF ctx False loc refl refl] 2(3,5) ctx False loc locate_chunk_range [OF loc li'] by auto
  qed
qed simp

text \<open>
  C3. Applying a patch never panics: whatever the file and the chunks, the result is the new
  text or an error message.
\<close>

theorem derive_never_panics: "\<exists>r. derive_new_contents content path cs = Some r"
proof (cases "replacement_loop (file_lines content) path cs 0 []")
  case (Inr rs)
  have "\<forall>r \<in> set rs. fst r \<le> length (file_lines content)"
    using replacement_loop_range [OF Inr] by simp
  then have "\<exists>ls'. apply_replacements (file_lines content) (sort_key fst rs) = Some ls' \<and> 0 \<le> length ls'"
    by (intro apply_replacements_total) simp_all
  then show ?thesis by (auto simp: derive_new_contents_def compute_replacements_def Inr Let_def)
qed (simp add: derive_new_contents_def compute_replacements_def Let_def)

section \<open>Edits\<close>








lemmas apply_eval = derive_new_contents_def compute_replacements_def file_lines_def finish_lines_def
  ends_blank_def Let_def seek_context_def locate_chunk_def seek_sequence_def seek_pass_def match_at_def
  apply_replacements_def apply_one_def trim_end_def is_ws_def upt_rec



text \<open>
  An end-of-file chunk can undo the position of the previous one: two chunks that both name
  the last line are accepted, and the second change is lost without an error.
\<close>

theorem end_of_file_chunk_lost:
  "derive_new_contents (u ''a'' @ [10] @ u ''b'' @ [10]) (u ''f'')
     [\<lparr>change_context = None, old_lines = [u ''b''], new_lines = [u ''x''], is_end_of_file = False\<rparr>,
      \<lparr>change_context = None, old_lines = [u ''b''], new_lines = [u ''y''], is_end_of_file = True\<rparr>]
   = Some (Inr (u ''a'' @ [10] @ u ''x'' @ [10]))"
  by (simp add: apply_eval)

end
