(* ===== verification/Topic.thy ===== *)
theory Topic
  imports UString
begin

text \<open>
  Topics of the message bus: the names, the patterns and the matching of
  \<^verbatim>\<open>crates/codegen/ccore/src/message/topic.rs\<close>. A topic and a pattern are strings.
\<close>

definition MAX_TOPIC_DEPTH :: nat where
  "MAX_TOPIC_DEPTH = 100"

abbreviation (input) MAX_SEGMENT_LENGTH :: nat where "MAX_SEGMENT_LENGTH \<equiv> 100"

text \<open>\<^verbatim>\<open>Topic::new\<close> with the assertions that a debug build checks.\<close>

definition topic_new :: "bool \<Rightarrow> ustr \<Rightarrow> ustr option" where
  "topic_new debug t =
     (if debug \<and> \<not> (t \<noteq> [] \<and> list_all (\<lambda>seg. byte_len seg \<le> MAX_SEGMENT_LENGTH) (split_on 47 t)) then None
      else Some t)"

section \<open>Names\<close>

definition sys_heartbeat :: ustr where "sys_heartbeat = u ''sys/heartbeat''"
definition sys_register :: ustr where "sys_register = u ''sys/register''"
definition sys_deregister :: ustr where "sys_deregister = u ''sys/deregister''"
definition sys_spawn :: ustr where "sys_spawn = u ''sys/spawn''"
definition sys_publisher_change :: ustr where "sys_publisher_change = u ''sys/publisher_change''"
definition agent_output :: "ustr \<Rightarrow> ustr" where "agent_output agent_id = u ''agent/'' @ agent_id @ u ''/output''"
definition agent_permission :: "ustr \<Rightarrow> ustr" where "agent_permission agent_id = u ''agent/'' @ agent_id @ u ''/permission''"
definition agent_cancel :: "ustr \<Rightarrow> ustr" where "agent_cancel agent_id = u ''agent/'' @ agent_id @ u ''/cancel''"
definition sampler_request :: ustr where "sampler_request = u ''sampler/request''"
definition sampler_stream :: "ustr \<Rightarrow> ustr" where "sampler_stream request_id = u ''sampler/'' @ request_id @ u ''/stream''"
definition param_set :: ustr where "param_set = u ''param/set''"
definition param_get :: ustr where "param_get = u ''param/get''"
definition param_changed :: ustr where "param_changed = u ''param/changed''"

section \<open>Patterns\<close>

definition all_agent_outputs :: ustr where "all_agent_outputs = u ''agent/*/output''"
definition all_sampler_streams :: ustr where "all_sampler_streams = u ''sampler/*/stream''"
definition all_agent_permissions :: ustr where "all_agent_permissions = u ''agent/*/permission''"
definition all_agent_cancels :: ustr where "all_agent_cancels = u ''agent/*/cancel''"

section \<open>Matching\<close>

abbreviation multi_seg :: ustr where "multi_seg \<equiv> u ''**''"
abbreviation one_seg :: ustr where "one_seg \<equiv> u ''*''"

function (sequential) match_parts :: "ustr list \<Rightarrow> ustr list \<Rightarrow> nat \<Rightarrow> bool" where
  "match_parts [] ts depth \<longleftrightarrow> (if MAX_TOPIC_DEPTH < depth then False else ts = [])"
| "match_parts (p # ps) ts depth \<longleftrightarrow>
     (if MAX_TOPIC_DEPTH < depth then False
      else if p = multi_seg then
        match_parts ps ts (depth + 1)
        \<or> (case ts of [] \<Rightarrow> False | t # ts' \<Rightarrow> match_parts (p # ps) ts' (depth + 1))
      else
        case ts of
          [] \<Rightarrow> False
        | t # ts' \<Rightarrow>
            if p = one_seg then match_parts ps ts' (depth + 1)
            else if p = t then match_parts ps ts' (depth + 1)
            else False)"
  by pat_completeness auto
termination
  by (relation "measure (\<lambda>(ps, ts, d). length ps + length ts)") auto

definition segments :: "ustr \<Rightarrow> ustr list" where
  "segments s = split_on 47 s"

definition topic_matches :: "ustr \<Rightarrow> ustr \<Rightarrow> bool" where
  "topic_matches pattern topic \<longleftrightarrow>
     (if MAX_TOPIC_DEPTH < length (segments pattern) \<or> MAX_TOPIC_DEPTH < length (segments topic) then False
      else match_parts (segments pattern) (segments topic) 0)"

lemma match_parts_multi:
  "match_parts (multi_seg # ps) ts d \<longleftrightarrow> d \<le> MAX_TOPIC_DEPTH \<and>
     (match_parts ps ts (d + 1) \<or> (\<exists>t ts'. ts = t # ts' \<and> match_parts (multi_seg # ps) ts' (d + 1)))"
  by (subst match_parts.simps) (auto simp del: u_Cons match_parts.simps split: list.split)

lemma match_parts_other:
  "p \<noteq> multi_seg \<Longrightarrow> match_parts (p # ps) ts d \<longleftrightarrow> d \<le> MAX_TOPIC_DEPTH \<and>
     (\<exists>t ts'. ts = t # ts' \<and> (p = one_seg \<or> p = t) \<and> match_parts ps ts' (d + 1))"
  by (subst match_parts.simps) (auto simp del: u_Cons match_parts.simps split: list.split)

declare match_parts.simps(2) [simp del]

section \<open>What a pattern denotes\<close>

definition seg_lang :: "ustr \<Rightarrow> ustr list set" where
  "seg_lang p = (if p = multi_seg then UNIV else if p = one_seg then {[t] | t. True} else {[p]})"

fun pattern_lang :: "ustr list \<Rightarrow> ustr list set" where
  "pattern_lang [] = {[]}"
| "pattern_lang (p # ps) = {v @ w | v w. v \<in> seg_lang p \<and> w \<in> pattern_lang ps}"

lemma lang_multi: "ts \<in> pattern_lang (multi_seg # ps) \<longleftrightarrow>
    ts \<in> pattern_lang ps \<or> (\<exists>t ts'. ts = t # ts' \<and> ts' \<in> pattern_lang (multi_seg # ps))"
proof -
  have "ts \<in> pattern_lang (multi_seg # ps) \<longleftrightarrow> (\<exists>v w. ts = v @ w \<and> w \<in> pattern_lang ps)" for ts
    by (auto simp: seg_lang_def simp del: u_Cons)
  then show ?thesis by (cases ts) (auto simp: Cons_eq_append_conv simp del: pattern_lang.simps u_Cons)
qed

lemma lang_other:
  assumes "p \<noteq> multi_seg"
  shows "ts \<in> pattern_lang (p # ps) \<longleftrightarrow>
    (\<exists>t ts'. ts = t # ts' \<and> (p = one_seg \<or> p = t) \<and> ts' \<in> pattern_lang ps)"
proof (cases "p = one_seg")
  case True
  then have "ts \<in> pattern_lang (p # ps) \<longleftrightarrow> (\<exists>v w. ts = v @ w \<and> (\<exists>t. v = [t]) \<and> w \<in> pattern_lang ps)"
    using assms by (auto simp: seg_lang_def simp del: u_Cons)
  with True show ?thesis by (metis append_Cons append_Nil)
next
  case False
  then have "ts \<in> pattern_lang (p # ps) \<longleftrightarrow> (\<exists>w. ts = p # w \<and> w \<in> pattern_lang ps)"
    using assms by (auto simp: seg_lang_def simp del: u_Cons)
  with False show ?thesis by blast
qed

lemma match_parts_sound: "match_parts ps ts d \<Longrightarrow> ts \<in> pattern_lang ps"
proof (induction ps ts d rule: match_parts.induct)
  case (1 ts d)
  then show ?case by (simp split: if_splits)
next
  case (2 p ps ts d)
  show ?case
  proof (cases "p = multi_seg")
    case True
    have "match_parts ps ts (d + 1) \<or> (\<exists>t ts'. ts = t # ts' \<and> match_parts (p # ps) ts' (d + 1))"
      and d: "\<not> MAX_TOPIC_DEPTH < d"
      using "2.prems" match_parts_multi [of ps ts d] unfolding True by auto
    then have "ts \<in> pattern_lang ps \<or> (\<exists>t ts'. ts = t # ts' \<and> ts' \<in> pattern_lang (p # ps))"
      using "2.IH"(1) [OF d True] "2.IH"(2) [OF d True] by blast
    then show ?thesis unfolding True by (rule lang_multi [THEN iffD2])
  next
    case False
    obtain t ts' where ts: "ts = t # ts'" "p = one_seg \<or> p = t" "match_parts ps ts' (d + 1)"
      and d: "\<not> MAX_TOPIC_DEPTH < d"
      using "2.prems" match_parts_other [OF False, of ps ts d] by auto
    then have "ts' \<in> pattern_lang ps"
      using "2.IH"(3) [OF d False ts(1)] "2.IH"(4) [OF d False ts(1)] by blast
    with ts show ?thesis using lang_other [OF False, of ts ps] by blast
  qed
qed

lemma match_parts_complete:
  "ts \<in> pattern_lang ps \<Longrightarrow> d + length ps + length ts \<le> MAX_TOPIC_DEPTH \<Longrightarrow> match_parts ps ts d"
proof (induction ps ts d rule: match_parts.induct)
  case (2 p ps ts d)
  have d: "\<not> MAX_TOPIC_DEPTH < d" using "2.prems"(2) by simp
  show ?case
  proof (cases "p = multi_seg")
    case True
    consider "ts \<in> pattern_lang ps" | t ts' where "ts = t # ts'" "ts' \<in> pattern_lang (p # ps)"
      using lang_multi [of ts ps] "2.prems"(1) unfolding True by blast
    then have "match_parts ps ts (d + 1) \<or> (\<exists>t ts'. ts = t # ts' \<and> match_parts (p # ps) ts' (d + 1))"
    proof cases
      case 1
      with "2.IH"(1) [OF d True] "2.prems"(2) show ?thesis by simp
    next
      case (2 t ts')
      with "2.IH"(2) [OF d True 2(1)] "2.prems"(2) show ?thesis by simp
    qed
    with d show ?thesis unfolding True match_parts_multi [of ps ts d] by (simp del: u_Cons)
  next
    case False
    then obtain t ts' where ts: "ts = t # ts'" "p = one_seg \<or> p = t" "ts' \<in> pattern_lang ps"
      using lang_other [OF False, of ts ps] "2.prems"(1) by blast
    then have "match_parts ps ts' (d + 1)"
      using "2.IH"(3) [OF d False ts(1)] "2.IH"(4) [OF d False ts(1)] "2.prems"(2) by auto
    with d ts show ?thesis unfolding match_parts_other [OF False] by (simp del: u_Cons)
  qed
qed simp

text \<open>
  C27. Topic matching is sound for the meaning of the pattern, a star one segment, two stars any
  number, and complete as long as pattern and topic have at most 100 segments together.
\<close>

theorem topic_matches_language:
  "(topic_matches p t \<longrightarrow> segments t \<in> pattern_lang (segments p))
   \<and> (length (segments p) + length (segments t) \<le> MAX_TOPIC_DEPTH \<longrightarrow>
        (topic_matches p t \<longleftrightarrow> segments t \<in> pattern_lang (segments p)))"
  using match_parts_sound [of "segments p" "segments t" 0] match_parts_complete [of "segments t" "segments p" 0]
  by (auto simp: topic_matches_def)

theorem topic_matches_language_witness:
  "segments (u ''agent/x/output'') \<in> pattern_lang (segments (u ''agent/*/output'')) \<and>
   segments (u ''agent/x'') \<notin> pattern_lang (segments (u ''agent/*/output''))"
proof -
  have "topic_matches (u ''agent/*/output'') (u ''agent/x/output'')"
    "\<not> topic_matches (u ''agent/*/output'') (u ''agent/x'')"
    "length (segments (u ''agent/*/output'')) + length (segments (u ''agent/x'')) \<le> MAX_TOPIC_DEPTH"
    by code_simp+
  with topic_matches_language [of "u ''agent/*/output''" "u ''agent/x/output''"]
    topic_matches_language [of "u ''agent/*/output''" "u ''agent/x''"]
  show ?thesis by blast
qed

text \<open>
  The pattern of two stars does not match every topic within the depth limit: it fails on
  topics of exactly 100 segments, the largest number the limit allows.
\<close>

theorem double_star_matches_iff: "topic_matches (u ''**'') t \<longleftrightarrow> length (segments t) < MAX_TOPIC_DEPTH"
proof -
  have m: "match_parts [multi_seg] ts d \<longleftrightarrow> d + length ts < MAX_TOPIC_DEPTH" for ts d
  proof (induction ts arbitrary: d)
    case Nil
    then show ?case using match_parts_multi [of "[]" "[]" d] by (auto simp del: u_Cons)
  next
    case (Cons t ts)
    then show ?case using match_parts_multi [of "[]" "t # ts" d] by (auto simp del: u_Cons)
  qed
  have "segments (u ''**'') = [multi_seg]" by (simp add: segments_def)
  then show ?thesis using m [of "segments t" 0] by (auto simp: topic_matches_def MAX_TOPIC_DEPTH_def simp del: u_Cons)
qed

lemma segments_eq_iff: "segments t = ss \<longleftrightarrow> ss \<noteq> [] \<and> (\<forall>s \<in> set ss. 47 \<notin> set s) \<and> t = join_with [47] ss"
  unfolding segments_def using join_split_on [of 47 t] split_on_join [of ss 47] split_on_pieces [of _ 47 t] by auto

text \<open>A pattern with one star in the middle selects exactly the topics of that shape.\<close>

lemma one_star_family:
  assumes "47 \<notin> set a" "47 \<notin> set b" "a \<noteq> one_seg" "a \<noteq> multi_seg" "b \<noteq> one_seg" "b \<noteq> multi_seg"
  shows "topic_matches (a @ [47] @ one_seg @ [47] @ b) t \<longleftrightarrow> (\<exists>x. 47 \<notin> set x \<and> t = a @ [47] @ x @ [47] @ b)"
proof -
  have p: "segments (a @ [47] @ one_seg @ [47] @ b) = [a, one_seg, b]"
    using assms by (simp add: segments_eq_iff)
  have "one_seg \<noteq> multi_seg" by simp
  then have l: "segments t \<in> pattern_lang [a, one_seg, b] \<longleftrightarrow> (\<exists>x. segments t = [a, x, b])"
    unfolding lang_other [OF assms(4)] lang_other [OF assms(6)] lang_other [OF \<open>one_seg \<noteq> multi_seg\<close>]
    using assms by (auto simp del: u_Cons)
  have "topic_matches (a @ [47] @ one_seg @ [47] @ b) t \<longleftrightarrow> (\<exists>x. segments t = [a, x, b])"
  proof
    assume "\<exists>x. segments t = [a, x, b]"
    then show "topic_matches (a @ [47] @ one_seg @ [47] @ b) t"
      using l p by (auto simp: topic_matches_def MAX_TOPIC_DEPTH_def simp del: u_Cons pattern_lang.simps intro!: match_parts_complete)
  next
    assume "topic_matches (a @ [47] @ one_seg @ [47] @ b) t"
    then show "\<exists>x. segments t = [a, x, b]"
      using l p match_parts_sound by (fastforce simp: topic_matches_def simp del: u_Cons split: if_splits)
  qed
  then show ?thesis using assms by (auto simp: segments_eq_iff)
qed

text \<open>
  The ready-made patterns select their topics and nothing else: the pattern for all agent
  outputs, permission requests and cancellations and for all sampler streams match exactly the
  topics the corresponding constructors build for identifiers without a slash.
\<close>

theorem patterns_select_families:
  "(topic_matches all_agent_outputs t \<longleftrightarrow> (\<exists>i. 47 \<notin> set i \<and> t = agent_output i))
   \<and> (topic_matches all_agent_permissions t \<longleftrightarrow> (\<exists>i. 47 \<notin> set i \<and> t = agent_permission i))
   \<and> (topic_matches all_agent_cancels t \<longleftrightarrow> (\<exists>i. 47 \<notin> set i \<and> t = agent_cancel i))
   \<and> (topic_matches all_sampler_streams t \<longleftrightarrow> (\<exists>i. 47 \<notin> set i \<and> t = sampler_stream i))"
  using one_star_family [of "u ''agent''" "u ''output''" t] one_star_family [of "u ''agent''" "u ''permission''" t]
    one_star_family [of "u ''agent''" "u ''cancel''" t] one_star_family [of "u ''sampler''" "u ''stream''" t]
  by (simp add: all_agent_outputs_def all_agent_permissions_def all_agent_cancels_def all_sampler_streams_def
      agent_output_def agent_permission_def agent_cancel_def sampler_stream_def)

end
