(* ===== verification/Frame.thy ===== *)
theory Frame
  imports Topic
begin

text \<open>
  The three-frame messages of the bus, \<^verbatim>\<open>crates/codegen/ccore/src/message/frame.rs\<close>. The
  MessagePack coder of the header (\<^verbatim>\<open>rmp_serde\<close>) is a pair of parameters; the UTF-8 coder of
  the standard library is written out. Decoding makes a topic, whose assertions a debug build checks;
  such a panic is \<^const>\<open>None\<close>.
\<close>

section \<open>UTF-8\<close>

type_synonym byte = nat

definition utf8_char :: "nat \<Rightarrow> byte list" where
  "utf8_char c =
     (if c < 128 then [c]
      else if c < 2048 then [192 + c div 64, 128 + c mod 64]
      else if c < 65536 then [224 + c div 4096, 128 + c div 64 mod 64, 128 + c mod 64]
      else [240 + c div 262144, 128 + c div 4096 mod 64, 128 + c div 64 mod 64, 128 + c mod 64])"

definition as_bytes :: "ustr \<Rightarrow> byte list" where
  "as_bytes s = concat (map utf8_char s)"

definition scalar :: "nat \<Rightarrow> bool" where
  "scalar c \<longleftrightarrow> c < 55296 \<or> (57344 \<le> c \<and> c < 1114112)"

definition cont :: "byte \<Rightarrow> bool" where
  "cont b \<longleftrightarrow> 128 \<le> b \<and> b < 192"

definition code2 :: "byte \<Rightarrow> byte \<Rightarrow> nat" where
  "code2 b b1 = (b - 192) * 64 + (b1 - 128)"

definition code3 :: "byte \<Rightarrow> byte \<Rightarrow> byte \<Rightarrow> nat" where
  "code3 b b1 b2 = (b - 224) * 4096 + (b1 - 128) * 64 + (b2 - 128)"

definition code4 :: "byte \<Rightarrow> byte \<Rightarrow> byte \<Rightarrow> byte \<Rightarrow> nat" where
  "code4 b b1 b2 b3 = (b - 240) * 262144 + (b1 - 128) * 4096 + (b2 - 128) * 64 + (b3 - 128)"

definition cons_opt :: "nat \<Rightarrow> ustr option \<Rightarrow> ustr option" where
  "cons_opt c s = map_option ((#) c) s"

text \<open>\<^verbatim>\<open>String::from_utf8\<close>: shortest forms of Unicode scalar values only.\<close>

fun from_utf8 :: "byte list \<Rightarrow> ustr option" where
  "from_utf8 [] = Some []"
| "from_utf8 (b # r) =
     (if b < 128 then cons_opt b (from_utf8 r)
      else if b < 192 then None
      else if b < 224 then
        (case r of
           b1 # r1 \<Rightarrow> if cont b1 \<and> 128 \<le> code2 b b1 then cons_opt (code2 b b1) (from_utf8 r1) else None
         | _ \<Rightarrow> None)
      else if b < 240 then
        (case r of
           b1 # b2 # r2 \<Rightarrow>
             if cont b1 \<and> cont b2 \<and> 2048 \<le> code3 b b1 b2 \<and> scalar (code3 b b1 b2)
             then cons_opt (code3 b b1 b2) (from_utf8 r2) else None
         | _ \<Rightarrow> None)
      else if b < 248 then
        (case r of
           b1 # b2 # b3 # r3 \<Rightarrow>
             if cont b1 \<and> cont b2 \<and> cont b3 \<and> 65536 \<le> code4 b b1 b2 b3 \<and> scalar (code4 b b1 b2 b3)
             then cons_opt (code4 b b1 b2 b3) (from_utf8 r3) else None
         | _ \<Rightarrow> None)
      else None)"

lemma as_bytes_simps [simp]:
  "as_bytes [] = []" "as_bytes (c # s) = utf8_char c @ as_bytes s"
  by (simp_all add: as_bytes_def)

lemma split_64:
  fixes c :: nat
  shows "c div 64 * 64 + c mod 64 = c"
    and "c div 4096 * 4096 + c div 64 mod 64 * 64 + c mod 64 = c"
    and "c div 262144 * 262144 + c div 4096 mod 64 * 4096 + c div 64 mod 64 * 64 + c mod 64 = c"
proof -
  have d: "c div 4096 = c div 64 div 64" "c div 262144 = c div 64 div 64 div 64"
    by (simp_all add: div_mult2_eq [symmetric])
  have m: "k div 64 * 64 + k mod 64 = k" for k :: nat
    by (rule div_mult_mod_eq)
  show "c div 64 * 64 + c mod 64 = c"
    by (rule m)
  show "c div 4096 * 4096 + c div 64 mod 64 * 64 + c mod 64 = c"
    using m [of c] m [of "c div 64"] unfolding d by linarith
  show "c div 262144 * 262144 + c div 4096 mod 64 * 4096 + c div 64 mod 64 * 64 + c mod 64 = c"
    using m [of c] m [of "c div 64"] m [of "c div 64 div 64"] unfolding d by linarith
qed

lemma digits_64:
  fixes x :: nat
  assumes "y < 64"
  shows "(x * 64 + y) div 64 = x" and "(x * 64 + y) mod 64 = y"
  using assms by simp_all

lemma from_utf8_char:
  assumes "scalar c"
  shows "from_utf8 (utf8_char c @ r) = cons_opt c (from_utf8 r)"
proof -
  consider "c < 128" | "128 \<le> c" "c < 2048" | "2048 \<le> c" "c < 65536" | "65536 \<le> c" "c < 1114112"
    using assms unfolding scalar_def by linarith
  then show ?thesis
  proof cases
    case 1
    then show ?thesis by (simp add: utf8_char_def)
  next
    case 2
    then have "c div 64 < 32" "2 \<le> c div 64" by auto
    then show ?thesis using 2 by (simp add: utf8_char_def cont_def code2_def split_64)
  next
    case 3
    then have "c div 4096 < 16" by auto
    then show ?thesis using 3 assms by (simp add: utf8_char_def cont_def code3_def split_64)
  next
    case 4
    then have "c div 262144 < 8" by auto
    then show ?thesis using 4 assms by (simp add: utf8_char_def cont_def code4_def split_64)
  qed
qed

lemma cons_opt_Some [simp]: "cons_opt c s = Some t \<longleftrightarrow> (\<exists>t'. s = Some t' \<and> t = c # t')"
  by (auto simp: cons_opt_def)

lemma from_utf8_as_bytes: "list_all scalar s \<Longrightarrow> from_utf8 (as_bytes s) = Some s"
  by (induction s) (auto simp: from_utf8_char)

lemma utf8_char_code2:
  assumes "192 \<le> b" "b < 224" "cont b1" "128 \<le> code2 b b1"
  shows "utf8_char (code2 b b1) = [b, b1] \<and> scalar (code2 b b1)"
proof -
  define x y where "x = b - 192" and "y = b1 - 128"
  have "x < 32" "y < 64" and b: "b = 192 + x" "b1 = 128 + y"
    using assms by (auto simp: x_def y_def cont_def)
  moreover have "code2 b b1 = x * 64 + y" by (simp add: code2_def x_def y_def)
  ultimately show ?thesis using assms(4) by (simp add: utf8_char_def scalar_def)
qed

lemma utf8_char_code3:
  assumes "224 \<le> b" "b < 240" "cont b1" "cont b2" "2048 \<le> code3 b b1 b2"
  shows "utf8_char (code3 b b1 b2) = [b, b1, b2]"
proof -
  define x y z where "x = b - 224" and "y = b1 - 128" and "z = b2 - 128"
  have xyz: "x < 16" "y < 64" "z < 64" and b: "b = 224 + x" "b1 = 128 + y" "b2 = 128 + z"
    using assms by (auto simp: x_def y_def z_def cont_def)
  have c: "code3 b b1 b2 = x * 4096 + y * 64 + z" by (simp add: code3_def x_def y_def z_def)
  have "x * 4096 + y * 64 + z = (x * 64 + y) * 64 + z" "\<And>k :: nat. k div 4096 = k div 64 div 64"
    by (simp_all add: div_mult2_eq [symmetric])
  then have "(x * 4096 + y * 64 + z) div 4096 = x" "(x * 4096 + y * 64 + z) div 64 mod 64 = y"
    "(x * 4096 + y * 64 + z) mod 64 = z" using xyz by (simp_all only: digits_64)
  then show ?thesis using xyz b c assms(5) by (simp add: utf8_char_def)
qed

lemma utf8_char_code4:
  assumes "240 \<le> b" "cont b1" "cont b2" "cont b3" "65536 \<le> code4 b b1 b2 b3"
  shows "utf8_char (code4 b b1 b2 b3) = [b, b1, b2, b3]"
proof -
  define x y z w where "x = b - 240" and "y = b1 - 128" and "z = b2 - 128" and "w = b3 - 128"
  have xyz: "y < 64" "z < 64" "w < 64" and b: "b = 240 + x" "b1 = 128 + y" "b2 = 128 + z" "b3 = 128 + w"
    using assms by (auto simp: x_def y_def z_def w_def cont_def)
  have c: "code4 b b1 b2 b3 = x * 262144 + y * 4096 + z * 64 + w"
    by (simp add: code4_def x_def y_def z_def w_def)
  have "x * 262144 + y * 4096 + z * 64 + w = ((x * 64 + y) * 64 + z) * 64 + w"
    "\<And>k :: nat. k div 4096 = k div 64 div 64" "\<And>k :: nat. k div 262144 = k div 64 div 64 div 64"
    by (simp_all add: div_mult2_eq [symmetric])
  then have "(x * 262144 + y * 4096 + z * 64 + w) div 262144 = x"
    "(x * 262144 + y * 4096 + z * 64 + w) div 4096 mod 64 = y"
    "(x * 262144 + y * 4096 + z * 64 + w) div 64 mod 64 = z"
    "(x * 262144 + y * 4096 + z * 64 + w) mod 64 = w" using xyz by (simp_all only: digits_64)
  then show ?thesis using b c assms(5) by (simp add: utf8_char_def)
qed

lemma as_bytes_from_utf8:
  "from_utf8 bs = Some s \<Longrightarrow> as_bytes s = bs \<and> list_all scalar s"
proof (induction bs arbitrary: s rule: from_utf8.induct)
  case 1
  then show ?case by simp
next
  case (2 b r)
  consider "b < 128" | "128 \<le> b" "b < 192" | "192 \<le> b" "b < 224" | "224 \<le> b" "b < 240" | "240 \<le> b"
    by linarith
  then show ?case
  proof cases
    case 1
    then obtain t where "from_utf8 r = Some t" "s = b # t" using 2(5) by auto
    then show ?thesis using 1 2(1) [OF 1] by (simp add: utf8_char_def scalar_def)
  next
    case 2
    then show ?thesis using \<open>from_utf8 (b # r) = Some s\<close> by simp
  next
    case 3
    then obtain b1 r1 t where "r = b1 # r1" "cont b1" "128 \<le> code2 b b1" "from_utf8 r1 = Some t"
      "s = code2 b b1 # t"
      using 2(5) by (auto split: list.splits if_splits)
    then show ?thesis using 3 2(2) [of b1 r1 t] by (simp add: utf8_char_code2)
  next
    case 4
    then obtain b1 b2 r2 t where "r = b1 # b2 # r2" "cont b1" "cont b2" "2048 \<le> code3 b b1 b2"
      "scalar (code3 b b1 b2)" "from_utf8 r2 = Some t" "s = code3 b b1 b2 # t"
      using 2(5) by (auto split: list.splits if_splits)
    then show ?thesis using 4 2(3) [of b1 _ b2 r2 t] by (simp add: utf8_char_code3)
  next
    case 5
    then obtain b1 b2 b3 r3 t where "r = b1 # b2 # b3 # r3" "cont b1" "cont b2" "cont b3"
      "65536 \<le> code4 b b1 b2 b3" "scalar (code4 b b1 b2 b3)" "from_utf8 r3 = Some t"
      "s = code4 b b1 b2 b3 # t" "b < 248"
      using 2(5) by (auto split: list.splits if_splits)
    then show ?thesis using 5 2(4) [of b1 _ b2 _ b3 r3 t] by (simp add: utf8_char_code4)
  qed
qed

lemma from_utf8_iff: "from_utf8 bs = Some s \<longleftrightarrow> list_all scalar s \<and> as_bytes s = bs"
  using as_bytes_from_utf8 from_utf8_as_bytes by blast

section \<open>Messages\<close>

record message_header =
  msg_id :: ustr
  timestamp :: ustr
  src_node :: ustr
  reply_to :: "ustr option"
  sequence :: nat
  requires_ack :: bool

record message =
  topic :: ustr
  header :: message_header
  payload :: "byte list"

datatype 'e frame_error =
    Frame_Count nat
  | Not_Utf8
  | Rmp 'e

text \<open>
  The new identifier and the clock are inputs of the constructors, and so is the result of
  serializing the payload.
\<close>

definition new_message_with_sequence ::
    "ustr \<Rightarrow> ustr \<Rightarrow> ustr \<Rightarrow> ustr \<Rightarrow> 'e + byte list \<Rightarrow> nat \<Rightarrow> 'e frame_error + message" where
  "new_message_with_sequence uuid now tpc src payload_vec sq =
     (case payload_vec of
        Inl e \<Rightarrow> Inl (Rmp e)
      | Inr p \<Rightarrow> Inr \<lparr>topic = tpc,
                    header = \<lparr>msg_id = uuid, timestamp = now, src_node = src, reply_to = None,
                              sequence = sq, requires_ack = False\<rparr>,
                    payload = p\<rparr>)"

definition new_message ::
    "ustr \<Rightarrow> ustr \<Rightarrow> ustr \<Rightarrow> ustr \<Rightarrow> 'e + byte list \<Rightarrow> 'e frame_error + message" where
  "new_message uuid now tpc src payload_vec = new_message_with_sequence uuid now tpc src payload_vec 0"

definition new_reply_with_sequence ::
    "ustr \<Rightarrow> ustr \<Rightarrow> ustr \<Rightarrow> ustr \<Rightarrow> ustr \<Rightarrow> 'e + byte list \<Rightarrow> nat \<Rightarrow> 'e frame_error + message" where
  "new_reply_with_sequence uuid now tpc src reply_to_msg_id payload_vec sq =
     (case payload_vec of
        Inl e \<Rightarrow> Inl (Rmp e)
      | Inr p \<Rightarrow> Inr \<lparr>topic = tpc,
                    header = \<lparr>msg_id = uuid, timestamp = now, src_node = src,
                              reply_to = Some reply_to_msg_id, sequence = sq, requires_ack = False\<rparr>,
                    payload = p\<rparr>)"

definition new_reply ::
    "ustr \<Rightarrow> ustr \<Rightarrow> ustr \<Rightarrow> ustr \<Rightarrow> ustr \<Rightarrow> 'e + byte list \<Rightarrow> 'e frame_error + message" where
  "new_reply uuid now tpc src reply_to_msg_id payload_vec =
     new_reply_with_sequence uuid now tpc src reply_to_msg_id payload_vec 0"

definition encode :: "(message_header \<Rightarrow> 'e + byte list) \<Rightarrow> message \<Rightarrow> 'e frame_error + byte list list" where
  "encode rmp_to_vec msg =
     (case rmp_to_vec (header msg) of
        Inl e \<Rightarrow> Inl (Rmp e)
      | Inr frame2 \<Rightarrow> Inr [as_bytes (topic msg), frame2, payload msg])"

definition decode :: "bool \<Rightarrow> (byte list \<Rightarrow> 'e + message_header) \<Rightarrow> byte list list
    \<Rightarrow> ('e frame_error + message) option" where
  "decode debug rmp_from_read frames =
     (if length frames \<noteq> 3 then Some (Inl (Frame_Count (length frames)))
      else case from_utf8 (frames ! 0) of
        None \<Rightarrow> Some (Inl Not_Utf8)
      | Some topic_str \<Rightarrow>
          (case topic_new debug topic_str of
             None \<Rightarrow> None
           | Some t \<Rightarrow> Some
               (case rmp_from_read (frames ! 1) of
                  Inl e \<Rightarrow> Inl (Rmp e)
                | Inr h \<Rightarrow> Inr \<lparr>topic = t, header = h, payload = frames ! 2\<rparr>)))"

lemma length_3_iff: "length xs = 3 \<longleftrightarrow> (\<exists>a b c. xs = [a, b, c])"
  by (auto simp: numeral_3_eq_3 length_Suc_conv)

text \<open>What the decoder accepts: exactly the frames of a message whose topic passes the assertions.\<close>

lemma decode_accepts_iff:
  "decode debug rmp_from_read frames = Some (Inr msg) \<longleftrightarrow>
     list_all scalar (topic msg) \<and> topic_new debug (topic msg) \<noteq> None \<and>
     (\<exists>h. rmp_from_read h = Inr (header msg) \<and> frames = [as_bytes (topic msg), h, payload msg])"
proof
  assume *: "decode debug rmp_from_read frames = Some (Inr msg)"
  then obtain a h c where frames: "frames = [a, h, c]"
    by (auto simp: decode_def length_3_iff split: if_splits)
  with * show "list_all scalar (topic msg) \<and> topic_new debug (topic msg) \<noteq> None \<and>
     (\<exists>h. rmp_from_read h = Inr (header msg) \<and> frames = [as_bytes (topic msg), h, payload msg])"
    by (auto simp: decode_def from_utf8_iff topic_new_def split: option.splits sum.splits if_splits)
next
  assume "list_all scalar (topic msg) \<and> topic_new debug (topic msg) \<noteq> None \<and>
     (\<exists>h. rmp_from_read h = Inr (header msg) \<and> frames = [as_bytes (topic msg), h, payload msg])"
  then show "decode debug rmp_from_read frames = Some (Inr msg)"
    by (auto simp: decode_def from_utf8_as_bytes topic_new_def split: if_splits)
qed

text \<open>
  C28. Frame round trip. Let the MessagePack coder be lossless on a message's header, and let its topic be
  Unicode text. Then encoding the message succeeds and gives three frames; decoding them gives the message back,
  except that a debug build panics when the topic is empty or has a segment of more than 100 bytes; and
  whatever frames decode to the message have the same first and third frame, so that no other byte
  string stands for its topic.
\<close>

theorem frames_roundtrip:
  assumes "rmp_to_vec (header msg) = Inr h" and "rmp_from_read h = Inr (header msg)"
    and "list_all scalar (topic msg)"
  shows "\<exists>frames. encode rmp_to_vec msg = Inr frames \<and> length frames = 3 \<and>
    decode debug rmp_from_read frames =
      (if debug \<and> (topic msg = [] \<or> (\<exists>seg \<in> set (split_on 47 (topic msg)). 100 < byte_len seg)) then None
       else Some (Inr msg)) \<and>
    (\<forall>debug' frames'. decode debug' rmp_from_read frames' = Some (Inr msg) \<longrightarrow>
       length frames' = 3 \<and> frames' ! 0 = frames ! 0 \<and> frames' ! 2 = frames ! 2)"
proof -
  let ?frames = "[as_bytes (topic msg), h, payload msg]"
  have n: "topic_new debug (topic msg) = None \<longleftrightarrow>
      debug \<and> (topic msg = [] \<or> (\<exists>seg \<in> set (split_on 47 (topic msg)). 100 < byte_len seg))"
    by (auto simp: topic_new_def list_all_iff not_less)
  have "decode debug rmp_from_read ?frames = (if topic_new debug (topic msg) = None then None else Some (Inr msg))"
  proof (cases "topic_new debug (topic msg)")
    case None
    then show ?thesis using assms(3) by (simp add: decode_def from_utf8_as_bytes)
  next
    case (Some t)
    then show ?thesis using assms(2,3) by (simp add: decode_accepts_iff)
  qed
  then show ?thesis using assms(1) unfolding n by (auto simp: encode_def decode_accepts_iff)
qed

definition sample_message :: message where
  "sample_message =
     \<lparr>topic = [233, 47, 20013, 47, 128512],
      header = \<lparr>msg_id = u ''1'', timestamp = u ''t'', src_node = u ''n'', reply_to = None,
                sequence = 7, requires_ack = False\<rparr>,
      payload = [1, 2]\<rparr>"

theorem frames_roundtrip_witness:
  "\<exists>frames. encode (\<lambda>h. Inr [sequence h] :: unit + byte list) sample_message = Inr frames \<and>
     length frames = 3 \<and>
     decode True (\<lambda>b. if b = [7] then Inr (header sample_message) else Inl ()) frames = Some (Inr sample_message)"
  using frames_roundtrip
    [of "\<lambda>h. Inr [sequence h] :: unit + byte list" sample_message "[7]"
      "\<lambda>b. if b = [7] then Inr (header sample_message) else Inl ()" True]
  by (simp add: sample_message_def scalar_def utf8_len_def) blast

end
