(* ===== verification/Key_Store.thy ===== *)
theory Key_Store
  imports Main
begin

text \<open>
  The contract of a table with keys, which the parameter server, the identity table of the broker and
  the node registry all promise: a lookup sees the last change of its key, and the invariant of the
  component survives every change. A run of changes then refines the run on a map.
\<close>

datatype ('k, 'v) store_op = Put 'k 'v | Drop 'k

fun store_step :: "('s \<Rightarrow> 'k \<Rightarrow> 'v \<Rightarrow> 's) \<Rightarrow> ('s \<Rightarrow> 'k \<Rightarrow> 's) \<Rightarrow> 's \<Rightarrow> ('k, 'v) store_op \<Rightarrow> 's" where
  "store_step put del s (Put k v) = put s k v"
| "store_step put del s (Drop k) = del s k"

fun store_spec :: "('k \<rightharpoonup> 'v) \<Rightarrow> ('k, 'v) store_op \<Rightarrow> ('k \<rightharpoonup> 'v)" where
  "store_spec m (Put k v) = m(k \<mapsto> v)"
| "store_spec m (Drop k) = m(k := None)"

locale key_store =
  fixes inv :: "'s \<Rightarrow> bool"
    and get :: "'s \<Rightarrow> 'k \<Rightarrow> 'v option"
    and put :: "'s \<Rightarrow> 'k \<Rightarrow> 'v \<Rightarrow> 's"
    and del :: "'s \<Rightarrow> 'k \<Rightarrow> 's"
  assumes put_inv: "inv s \<Longrightarrow> inv (put s k v)"
    and del_inv: "inv s \<Longrightarrow> inv (del s k)"
    and get_put: "get (put s k v) = (get s)(k \<mapsto> v)"
    and get_del: "get (del s k) = (get s)(k := None)"
begin

lemma dom_put: "dom (get (put s k v)) = insert k (dom (get s))"
  by (auto simp: get_put)

lemma dom_del: "dom (get (del s k)) = dom (get s) - {k}"
  by (auto simp: get_del)

lemma step_inv: "inv s \<Longrightarrow> inv (store_step put del s c)"
  by (cases c) (simp_all add: put_inv del_inv)

lemma step_refines: "get (store_step put del s c) = store_spec (get s) c"
  by (cases c) (simp_all add: get_put get_del)

lemma run_refines:
  "inv s \<Longrightarrow> inv (foldl (store_step put del) s cs) \<and>
     get (foldl (store_step put del) s cs) = foldl store_spec (get s) cs"
  by (induction cs arbitrary: s) (simp_all add: step_inv step_refines)

end

end
