(* ===== verification/Broker.thy ===== *)
theory Broker
  imports Frame Key_Store "HOL-Library.AList" "HOL-Library.List_Lexorder"
begin

text \<open>
  The broker of the message bus, \<^verbatim>\<open>crates/codegen/ccore/src/kernel/broker.rs\<close>, and the node
  registry, \<^verbatim>\<open>registry.rs\<close>. A hash map is an association list with distinct keys in the
  order an iteration visits them; what is returned in sorted order does not depend on it.
  Strings compare by code points, which is the order of their UTF-8 bytes.
\<close>

section \<open>Data\<close>

type_synonym node_id = ustr
type_synonym identity = "byte list"

record publisher_info =
  pi_node_id :: node_id
  pub_addr :: ustr
  pi_topics :: "ustr list"

record service_provider_info =
  sp_node_id :: node_id
  rep_addr :: ustr
  service_name :: ustr

record broker =
  node_identities :: "(node_id \<times> identity) list"
  subscriptions :: "(ustr \<times> node_id list) list"
  publishers :: "(node_id \<times> publisher_info) list"
  topic_publishers :: "(ustr \<times> node_id list) list"
  service_providers :: "(ustr \<times> service_provider_info) list"

definition broker_new :: broker where
  "broker_new = \<lparr>node_identities = [], subscriptions = [], publishers = [], topic_publishers = [],
     service_providers = []\<rparr>"

section \<open>Registration\<close>

definition register_identity :: "broker \<Rightarrow> node_id \<Rightarrow> identity \<Rightarrow> broker" where
  "register_identity b n i = b\<lparr>node_identities := AList.update n i (node_identities b)\<rparr>"

text \<open>\<^verbatim>\<open>get_mut(k)\<close> followed by a change of the value: nothing happens without the key.\<close>

definition adjust :: "'k \<Rightarrow> ('v \<Rightarrow> 'v) \<Rightarrow> ('k \<times> 'v) list \<Rightarrow> ('k \<times> 'v) list" where
  "adjust k f al = map (\<lambda>(k', v). (k', if k' = k then f v else v)) al"

definition without :: "'a \<Rightarrow> 'a list \<Rightarrow> 'a list" where
  "without x = filter (\<lambda>y. y \<noteq> x)"

definition withdraw :: "node_id \<Rightarrow> ustr list \<Rightarrow> (ustr \<times> node_id list) list \<Rightarrow> (ustr \<times> node_id list) list" where
  "withdraw n topics tp = foldl (\<lambda>tp t. adjust t (without n) tp) tp topics"

definition deregister_identity :: "broker \<Rightarrow> node_id \<Rightarrow> broker" where
  "deregister_identity b n =
     (let b1 = b\<lparr>node_identities := AList.delete n (node_identities b),
                subscriptions := map (\<lambda>(p, ns). (p, without n ns)) (subscriptions b)\<rparr>;
          b2 = (case map_of (publishers b1) n of
                  Some info \<Rightarrow> b1\<lparr>publishers := AList.delete n (publishers b1),
                                  topic_publishers := withdraw n (pi_topics info) (topic_publishers b1)\<rparr>
                | None \<Rightarrow> b1)
      in b2\<lparr>service_providers := filter (\<lambda>(s, v). sp_node_id v \<noteq> n) (service_providers b2)\<rparr>)"

definition entry_or_default :: "'k \<Rightarrow> ('k \<times> 'v list) list \<Rightarrow> 'v list" where
  "entry_or_default k al = (case map_of al k of Some v \<Rightarrow> v | None \<Rightarrow> [])"

definition subscribe :: "broker \<Rightarrow> node_id \<Rightarrow> ustr \<Rightarrow> broker" where
  "subscribe b n pattern =
     (let ns = entry_or_default pattern (subscriptions b)
      in b\<lparr>subscriptions := AList.update pattern (if n \<notin> set ns then ns @ [n] else ns) (subscriptions b)\<rparr>)"

definition unsubscribe :: "broker \<Rightarrow> node_id \<Rightarrow> ustr \<Rightarrow> broker" where
  "unsubscribe b n pattern = b\<lparr>subscriptions := adjust pattern (without n) (subscriptions b)\<rparr>"

definition announce :: "node_id \<Rightarrow> ustr list \<Rightarrow> (ustr \<times> node_id list) list \<Rightarrow> (ustr \<times> node_id list) list" where
  "announce n topics tp = foldl (\<lambda>tp t. AList.update t (entry_or_default t tp @ [n]) tp) tp topics"

definition register_publisher :: "broker \<Rightarrow> publisher_info \<Rightarrow> broker" where
  "register_publisher b info =
     (let n = pi_node_id info;
          tp1 = (case map_of (publishers b) n of
                   Some old_info \<Rightarrow> withdraw n (pi_topics old_info) (topic_publishers b)
                 | None \<Rightarrow> topic_publishers b)
      in b\<lparr>topic_publishers := announce n (pi_topics info) tp1,
           publishers := AList.update n info (publishers b)\<rparr>)"

definition register_service_provider :: "broker \<Rightarrow> service_provider_info \<Rightarrow> broker" where
  "register_service_provider b info =
     b\<lparr>service_providers := AList.update (service_name info) info (service_providers b)\<rparr>"

section \<open>Queries\<close>

definition infos_of :: "broker \<Rightarrow> node_id list \<Rightarrow> publisher_info list" where
  "infos_of b ids = List.map_filter (map_of (publishers b)) ids"

definition push_new_info :: "publisher_info list \<Rightarrow> publisher_info \<Rightarrow> publisher_info list" where
  "push_new_info result info =
     (if pi_node_id info \<in> pi_node_id ` set result then result else result @ [info])"

definition find_publishers :: "broker \<Rightarrow> ustr \<Rightarrow> publisher_info list" where
  "find_publishers b t =
     (let exact = infos_of b (entry_or_default t (topic_publishers b))
      in foldl (\<lambda>result (pattern, ids).
                  if contains pattern [42] \<and> topic_matches pattern t
                  then foldl push_new_info result (infos_of b ids) else result)
           exact (topic_publishers b))"

fun dedup_infos :: "publisher_info list \<Rightarrow> publisher_info list" where
  "dedup_infos [] = []"
| "dedup_infos [x] = [x]"
| "dedup_infos (x # y # xs) =
     (if pi_node_id x = pi_node_id y then dedup_infos (x # xs) else x # dedup_infos (y # xs))"

definition matching_publishers :: "broker \<Rightarrow> ustr \<Rightarrow> publisher_info list" where
  "matching_publishers b pattern =
     (if contains pattern [42]
      then concat (map (\<lambda>(t, ids). if topic_matches pattern t then infos_of b ids else [])
             (topic_publishers b))
      else infos_of b (entry_or_default pattern (topic_publishers b)))"

definition find_publishers_for_subscriptions :: "broker \<Rightarrow> ustr list \<Rightarrow> (ustr \<times> publisher_info list) list" where
  "find_publishers_for_subscriptions b patterns =
     List.map_filter (\<lambda>pattern.
        let ms = matching_publishers b pattern
        in if ms \<noteq> [] then Some (pattern, dedup_infos (sort_key pi_node_id ms)) else None) patterns"

definition find_service_provider :: "broker \<Rightarrow> ustr \<Rightarrow> service_provider_info option" where
  "find_service_provider b name = map_of (service_providers b) name"

definition subscribers_of :: "broker \<Rightarrow> ustr \<Rightarrow> node_id list" where
  "subscribers_of b t =
     concat (map (\<lambda>(pattern, ns). if topic_matches pattern t then ns else []) (subscriptions b))"

definition find_subscribers :: "broker \<Rightarrow> ustr \<Rightarrow> node_id list" where
  "find_subscribers b t = remdups_adj (sort (subscribers_of b t))"

definition find_subscribers_for_publisher :: "broker \<Rightarrow> ustr list \<Rightarrow> node_id list" where
  "find_subscribers_for_publisher b publisher_topics =
     remdups_adj (sort (concat (map (subscribers_of b) publisher_topics)))"

definition get_identity :: "broker \<Rightarrow> node_id \<Rightarrow> identity option" where
  "get_identity b n = map_of (node_identities b) n"

definition find_targets :: "broker \<Rightarrow> message \<Rightarrow> (identity \<times> node_id) list" where
  "find_targets b msg =
     List.map_filter (\<lambda>n. map_option (\<lambda>i. (i, n)) (map_of (node_identities b) n))
       (filter (\<lambda>n. n \<noteq> src_node (header msg)) (find_subscribers b (topic msg)))"

definition route_message :: "(message_header \<Rightarrow> 'e + byte list) \<Rightarrow> broker \<Rightarrow> message
    \<Rightarrow> 'e frame_error + (identity \<times> byte list list) list" where
  "route_message rmp_to_vec b msg =
     (case encode rmp_to_vec msg of
        Inl e \<Rightarrow> Inl e
      | Inr frames \<Rightarrow>
          Inr (List.map_filter (\<lambda>n. map_option (\<lambda>i. (i, frames)) (map_of (node_identities b) n))
            (filter (\<lambda>n. n \<noteq> src_node (header msg)) (find_subscribers b (topic msg)))))"

section \<open>Association lists\<close>

lemma keys_adjust [simp]: "map fst (adjust k f al) = map fst al"
  by (induction al) (auto simp: adjust_def)

lemma map_of_adjust: "map_of (adjust k f al) k' = (if k' = k then map_option f (map_of al k') else map_of al k')"
  by (induction al) (auto simp: adjust_def)

lemma set_without [simp]: "set (without x xs) = set xs - {x}"
  by (auto simp: without_def)

lemma without_Nil [simp]: "without x [] = []"
  by (simp add: without_def)

lemma distinct_without [simp]: "distinct xs \<Longrightarrow> distinct (without x xs)"
  by (simp add: without_def)

lemma entry_update [simp]:
  "entry_or_default k (AList.update k' v al) = (if k = k' then v else entry_or_default k al)"
  by (simp add: entry_or_default_def update_conv')

lemma entry_adjust_without [simp]:
  "entry_or_default k (adjust k' (without x) al) =
     (if k = k' then without x (entry_or_default k al) else entry_or_default k al)"
  by (simp add: entry_or_default_def map_of_adjust split: option.split)

lemma entry_withdraw:
  "set (entry_or_default t (withdraw n ts tp)) =
     (if t \<in> set ts then set (entry_or_default t tp) - {n} else set (entry_or_default t tp))"
  unfolding withdraw_def by (induction ts arbitrary: tp) auto

lemma keys_withdraw [simp]: "map fst (withdraw n ts tp) = map fst tp"
  unfolding withdraw_def by (induction ts arbitrary: tp) auto

lemma entry_announce:
  "set (entry_or_default t (announce n ts tp)) =
     (if t \<in> set ts then insert n (set (entry_or_default t tp)) else set (entry_or_default t tp))"
  unfolding announce_def by (induction ts arbitrary: tp) auto

lemma distinct_announce: "distinct (map fst tp) \<Longrightarrow> distinct (map fst (announce n ts tp))"
  unfolding announce_def by (induction ts arbitrary: tp) (auto simp: distinct_update)

lemma in_alist_iff:
  "distinct (map fst al) \<Longrightarrow> (\<exists>v. (k, v) \<in> set al \<and> x \<in> set v) \<longleftrightarrow> x \<in> set (entry_or_default k al)"
  by (auto simp: entry_or_default_def split: option.split dest: map_of_SomeD)

lemma distinct_remdups_adj_sorted: "sorted xs \<Longrightarrow> distinct (remdups_adj (xs :: 'a :: linorder list))"
  by (induction xs rule: remdups_adj.induct) auto

lemma sorted_remdups_adj_sort [simp]:
  fixes xs :: "'a :: linorder list"
  shows "sorted (remdups_adj (sort xs))" "distinct (remdups_adj (sort xs))"
    "set (remdups_adj (sort xs)) = set xs"
  by (simp_all add: sorted_remdups_adj distinct_remdups_adj_sorted)

section \<open>The invariant of the routing tables\<close>

text \<open>What the tables say, as relations.\<close>

definition subscribed :: "broker \<Rightarrow> (node_id \<times> ustr) set" where
  "subscribed b = {(n, p). n \<in> set (entry_or_default p (subscriptions b))}"

definition publishes :: "broker \<Rightarrow> (node_id \<times> ustr) set" where
  "publishes b = {(n, t). \<exists>info. map_of (publishers b) n = Some info \<and> t \<in> set (pi_topics info)}"

definition broker_inv :: "broker \<Rightarrow> bool" where
  "broker_inv b \<longleftrightarrow>
     distinct (map fst (node_identities b)) \<and> distinct (map fst (subscriptions b)) \<and>
     distinct (map fst (publishers b)) \<and> distinct (map fst (topic_publishers b)) \<and>
     distinct (map fst (service_providers b)) \<and>
     (\<forall>p. distinct (entry_or_default p (subscriptions b))) \<and>
     (\<forall>n info. map_of (publishers b) n = Some info \<longrightarrow> pi_node_id info = n) \<and>
     (\<forall>s info. map_of (service_providers b) s = Some info \<longrightarrow> service_name info = s) \<and>
     (\<forall>n t. n \<in> set (entry_or_default t (topic_publishers b)) \<longleftrightarrow> (n, t) \<in> publishes b)"

datatype broker_op =
    Register_Identity node_id identity
  | Deregister_Identity node_id
  | Subscribe node_id ustr
  | Unsubscribe node_id ustr
  | Register_Publisher publisher_info
  | Register_Service_Provider service_provider_info

fun broker_step :: "broker \<Rightarrow> broker_op \<Rightarrow> broker" where
  "broker_step b (Register_Identity n i) = register_identity b n i"
| "broker_step b (Deregister_Identity n) = deregister_identity b n"
| "broker_step b (Subscribe n p) = subscribe b n p"
| "broker_step b (Unsubscribe n p) = unsubscribe b n p"
| "broker_step b (Register_Publisher info) = register_publisher b info"
| "broker_step b (Register_Service_Provider info) = register_service_provider b info"

definition broker_run :: "broker_op list \<Rightarrow> broker" where
  "broker_run ops = foldl broker_step broker_new ops"

lemma broker_inv_new: "broker_inv broker_new"
  by (simp add: broker_inv_def broker_new_def publishes_def entry_or_default_def)

lemma broker_inv_register_identity: "broker_inv b \<Longrightarrow> broker_inv (register_identity b n i)"
  by (simp add: broker_inv_def register_identity_def publishes_def distinct_update)

lemma broker_inv_subscribe: "broker_inv b \<Longrightarrow> broker_inv (subscribe b n p)"
  by (simp add: broker_inv_def subscribe_def publishes_def distinct_update Let_def)

lemma broker_inv_unsubscribe: "broker_inv b \<Longrightarrow> broker_inv (unsubscribe b n p)"
  by (simp add: broker_inv_def unsubscribe_def publishes_def)

lemma broker_inv_register_service_provider:
  "broker_inv b \<Longrightarrow> broker_inv (register_service_provider b info)"
  by (simp add: broker_inv_def register_service_provider_def publishes_def distinct_update update_conv')

lemma map_snd_without_entry:
  "entry_or_default p (map (\<lambda>(p, ns). (p, without n ns)) al) = without n (entry_or_default p al)"
  unfolding entry_or_default_def by (induction al) auto

lemma fst_map_snd [simp]: "fst \<circ> (\<lambda>(p, ns). (p, f ns)) = fst"
  by (auto simp: fun_eq_iff)

lemma map_of_filter_snd:
  "distinct (map fst al) \<Longrightarrow>
     map_of (filter (\<lambda>(k, v). P v) al) k = (case map_of al k of Some v \<Rightarrow> if P v then Some v else None | None \<Rightarrow> None)"
  by (induction al) (auto split: option.split simp: map_of_eq_None_iff)

lemma distinct_keys_filter: "distinct (map fst al) \<Longrightarrow> distinct (map fst (filter P al))"
  by (induction al) auto

lemma broker_inv_register_publisher:
  assumes "broker_inv b"
  shows "broker_inv (register_publisher b info)"
  using assms
  by (auto simp: broker_inv_def register_publisher_def publishes_def distinct_update update_conv' Let_def
      distinct_announce entry_announce entry_withdraw split: option.splits if_splits)

lemma broker_inv_deregister_identity:
  assumes "broker_inv b"
  shows "broker_inv (deregister_identity b n)"
  using assms
  by (auto simp: broker_inv_def deregister_identity_def publishes_def distinct_delete delete_conv' Let_def
      map_snd_without_entry entry_withdraw map_of_filter_snd distinct_keys_filter
      simp del: map_of_eq_Some_iff split: option.splits if_splits)

lemma broker_inv_step: "broker_inv b \<Longrightarrow> broker_inv (broker_step b op)"
  by (cases op) (simp_all add: broker_inv_register_identity broker_inv_subscribe broker_inv_unsubscribe
      broker_inv_register_service_provider broker_inv_register_publisher broker_inv_deregister_identity)

lemma broker_inv_run: "broker_inv (broker_run ops)"
  unfolding broker_run_def
  by (induction ops rule: rev_induct) (simp_all add: broker_inv_new broker_inv_step)

section \<open>The directory the broker implements\<close>

text \<open>The specification: who is known, who listens to what, who publishes what, who serves what.\<close>

record directory =
  d_identity :: "node_id \<rightharpoonup> identity"
  d_subscribed :: "(node_id \<times> ustr) set"
  d_publisher :: "node_id \<rightharpoonup> publisher_info"
  d_service :: "ustr \<rightharpoonup> service_provider_info"

definition directory_new :: directory where
  "directory_new = \<lparr>d_identity = Map.empty, d_subscribed = {}, d_publisher = Map.empty, d_service = Map.empty\<rparr>"

fun directory_step :: "directory \<Rightarrow> broker_op \<Rightarrow> directory" where
  "directory_step d (Register_Identity n i) = d\<lparr>d_identity := (d_identity d)(n \<mapsto> i)\<rparr>"
| "directory_step d (Deregister_Identity n) =
     \<lparr>d_identity = (d_identity d)(n := None),
      d_subscribed = {(m, p). (m, p) \<in> d_subscribed d \<and> m \<noteq> n},
      d_publisher = (d_publisher d)(n := None),
      d_service = (\<lambda>s. case d_service d s of
                     Some v \<Rightarrow> if sp_node_id v = n then None else Some v | None \<Rightarrow> None)\<rparr>"
| "directory_step d (Subscribe n p) = d\<lparr>d_subscribed := insert (n, p) (d_subscribed d)\<rparr>"
| "directory_step d (Unsubscribe n p) = d\<lparr>d_subscribed := d_subscribed d - {(n, p)}\<rparr>"
| "directory_step d (Register_Publisher info) =
     d\<lparr>d_publisher := (d_publisher d)(pi_node_id info \<mapsto> info)\<rparr>"
| "directory_step d (Register_Service_Provider info) =
     d\<lparr>d_service := (d_service d)(service_name info \<mapsto> info)\<rparr>"

definition directory_of :: "broker \<Rightarrow> directory" where
  "directory_of b = \<lparr>d_identity = map_of (node_identities b), d_subscribed = subscribed b,
     d_publisher = map_of (publishers b), d_service = map_of (service_providers b)\<rparr>"

lemma directory_of_new: "directory_of broker_new = directory_new"
  by (simp add: directory_of_def broker_new_def directory_new_def subscribed_def entry_or_default_def)

lemma directory_of_deregister:
  assumes "broker_inv b"
  shows "directory_of (deregister_identity b n) = directory_step (directory_of b) (Deregister_Identity n)"
proof -
  have "distinct (map fst (service_providers b))" using assms by (simp add: broker_inv_def)
  then show ?thesis
    by (auto simp: directory_of_def deregister_identity_def subscribed_def Let_def delete_conv' fun_eq_iff
        map_snd_without_entry map_of_filter_snd split: option.split)
qed

lemma directory_of_step:
  "broker_inv b \<Longrightarrow> directory_of (broker_step b op) = directory_step (directory_of b) op"
  by (cases op) (auto simp: directory_of_deregister, auto simp: directory_of_def register_identity_def
      subscribe_def unsubscribe_def register_publisher_def register_service_provider_def subscribed_def
      Let_def update_conv' split: if_splits)

lemma directory_of_run: "directory_of (broker_run ops) = foldl directory_step directory_new ops"
proof (induction ops rule: rev_induct)
  case Nil
  then show ?case by (simp add: broker_run_def directory_of_new)
next
  case (snoc op ops)
  have "broker_run (ops @ [op]) = broker_step (broker_run ops) op" by (simp add: broker_run_def)
  then show ?case using snoc directory_of_step [OF broker_inv_run] by simp
qed

section \<open>Queries\<close>

lemma set_subscribers_of:
  assumes "broker_inv b"
  shows "set (subscribers_of b t) = {n. \<exists>p. (n, p) \<in> subscribed b \<and> topic_matches p t}"
proof -
  have d: "distinct (map fst (subscriptions b))" using assms by (simp add: broker_inv_def)
  have "n \<in> set (subscribers_of b t) \<longleftrightarrow>
      (\<exists>p. topic_matches p t \<and> (\<exists>ns. (p, ns) \<in> set (subscriptions b) \<and> n \<in> set ns))" for n
    by (auto simp: subscribers_of_def split: if_splits)
  then show ?thesis by (auto simp: in_alist_iff [OF d] subscribed_def)
qed

lemma in_infos_of: "info \<in> set (infos_of b ids) \<longleftrightarrow> (\<exists>n \<in> set ids. map_of (publishers b) n = Some info)"
  by (force simp: infos_of_def List.map_filter_def image_iff)

definition known :: "broker \<Rightarrow> publisher_info set" where
  "known b = ran (map_of (publishers b))"

lemma known_inj: "broker_inv b \<Longrightarrow> inj_on pi_node_id (known b)"
  by (auto simp: inj_on_def known_def broker_inv_def ran_def simp del: map_of_eq_Some_iff)

lemma infos_of_known: "set (infos_of b ids) \<subseteq> known b"
  by (auto simp: in_infos_of known_def ran_def)

lemma set_push_new_infos:
  assumes "inj_on pi_node_id K" "set result \<subseteq> K" "set xs \<subseteq> K"
  shows "set (foldl push_new_info result xs) = set result \<union> set xs"
  using assms(2,3)
proof (induction xs arbitrary: result)
  case (Cons x xs)
  have "set (push_new_info result x) = insert x (set result)"
    using Cons.prems assms(1) by (auto simp: push_new_info_def inj_on_def)
  with Cons.IH [of "push_new_info result x"] Cons.prems show ?case by auto
qed simp

lemma set_wildcard_publishers:
  assumes "broker_inv b" "set result \<subseteq> known b"
  shows "set (foldl (\<lambda>result (pattern, ids).
             if P pattern then foldl push_new_info result (infos_of b ids) else result) result tp) =
         set result \<union> {info. \<exists>p ids. (p, ids) \<in> set tp \<and> P p \<and> info \<in> set (infos_of b ids)}"
  using assms(2)
proof (induction tp arbitrary: result)
  case (Cons e tp)
  obtain p ids where e: "e = (p, ids)" by (cases e)
  let ?r = "if P p then foldl push_new_info result (infos_of b ids) else result"
  have r: "set ?r = set result \<union> (if P p then set (infos_of b ids) else {})"
    using set_push_new_infos [OF known_inj [OF assms(1)] Cons.prems infos_of_known] by simp
  then have "set ?r \<subseteq> known b" using Cons.prems infos_of_known [of b ids] by auto
  from Cons.IH [OF this] r show ?case by (auto simp: e)
qed simp

definition advertises :: "publisher_info \<Rightarrow> ustr \<Rightarrow> bool" where
  "advertises info t \<longleftrightarrow>
     (\<exists>p \<in> set (pi_topics info). p = t \<or> contains p [42] \<and> topic_matches p t)"

lemma in_infos_of_entry:
  assumes "broker_inv b"
  shows "info \<in> set (infos_of b (entry_or_default t (topic_publishers b))) \<longleftrightarrow>
    info \<in> known b \<and> t \<in> set (pi_topics info)"
  using assms
  by (auto simp: in_infos_of known_def ran_def broker_inv_def publishes_def simp del: map_of_eq_Some_iff)

lemma infos_of_table:
  assumes "broker_inv b"
  shows "(\<exists>t ids. (t, ids) \<in> set (topic_publishers b) \<and> Q t \<and> info \<in> set (infos_of b ids)) \<longleftrightarrow>
    (\<exists>t \<in> set (pi_topics info). Q t \<and> info \<in> known b)"
proof -
  have d: "distinct (map fst (topic_publishers b))" using assms by (simp add: broker_inv_def)
  have "(\<exists>t ids. (t, ids) \<in> set (topic_publishers b) \<and> Q t \<and> info \<in> set (infos_of b ids)) \<longleftrightarrow>
    (\<exists>t n. Q t \<and> map_of (publishers b) n = Some info \<and>
        (\<exists>ids. (t, ids) \<in> set (topic_publishers b) \<and> n \<in> set ids))"
    by (auto simp: in_infos_of simp del: map_of_eq_Some_iff)
  also have "\<dots> \<longleftrightarrow> (\<exists>t. Q t \<and> info \<in> set (infos_of b (entry_or_default t (topic_publishers b))))"
    by (auto simp: in_alist_iff [OF d] in_infos_of simp del: map_of_eq_Some_iff)
  finally show ?thesis by (auto simp: in_infos_of_entry [OF assms])
qed

lemma set_find_publishers:
  assumes "broker_inv b"
  shows "set (find_publishers b t) = {info \<in> known b. advertises info t}"
proof -
  let ?Q = "\<lambda>p. contains p [42] \<and> topic_matches p t"
  have "info \<in> set (find_publishers b t) \<longleftrightarrow>
      info \<in> set (infos_of b (entry_or_default t (topic_publishers b))) \<or>
      (\<exists>p ids. (p, ids) \<in> set (topic_publishers b) \<and> ?Q p \<and> info \<in> set (infos_of b ids))" for info
    unfolding find_publishers_def Let_def
    by (subst set_wildcard_publishers [where P = ?Q, OF assms infos_of_known]) auto
  then show ?thesis
    unfolding in_infos_of_entry [OF assms] infos_of_table [OF assms, where Q = ?Q] advertises_def by blast
qed

lemma dedup_infos_sorted:
  assumes "inj_on pi_node_id (set xs)" "sorted (map pi_node_id xs)"
  shows "set (dedup_infos xs) = set xs \<and> sorted_wrt (<) (map pi_node_id (dedup_infos xs))"
  using assms
proof (induction xs rule: dedup_infos.induct)
  case (3 x y xs)
  show ?case
  proof (cases "pi_node_id x = pi_node_id y")
    case True
    from inj_onD [OF 3(3) this] have "x = y" by simp
    with True 3(1) [OF True] 3(3,4) show ?thesis by simp
  next
    case False
    have "inj_on pi_node_id (set (y # xs))" using 3(3) by (rule inj_on_subset) auto
    moreover have "sorted (map pi_node_id (y # xs))" using 3(4) by simp
    ultimately have IH: "set (dedup_infos (y # xs)) = set (y # xs)"
      "sorted_wrt (<) (map pi_node_id (dedup_infos (y # xs)))"
      using 3(2) [OF False] by blast+
    have "pi_node_id x < pi_node_id y" "\<forall>z \<in> set xs. pi_node_id y \<le> pi_node_id z"
      using 3(4) False by (auto simp: less_le)
    then have "\<forall>z \<in> set (y # xs). pi_node_id x < pi_node_id z" by (auto intro: less_le_trans)
    with IH False show ?thesis by simp
  qed
qed simp_all

definition listens_to :: "ustr \<Rightarrow> publisher_info \<Rightarrow> bool" where
  "listens_to pattern info \<longleftrightarrow>
     (\<exists>t \<in> set (pi_topics info). if contains pattern [42] then topic_matches pattern t else t = pattern)"

lemma set_matching_publishers:
  assumes "broker_inv b"
  shows "set (matching_publishers b p) = {info \<in> known b. listens_to p info}"
proof -
  have "info \<in> set (matching_publishers b p) \<longleftrightarrow>
      (if contains p [42]
       then \<exists>t ids. (t, ids) \<in> set (topic_publishers b) \<and> topic_matches p t \<and> info \<in> set (infos_of b ids)
       else info \<in> set (infos_of b (entry_or_default p (topic_publishers b))))" for info
    by (auto simp: matching_publishers_def)
  then have "info \<in> set (matching_publishers b p) \<longleftrightarrow> info \<in> known b \<and> listens_to p info" for info
    unfolding infos_of_table [OF assms, where Q = "topic_matches p"] in_infos_of_entry [OF assms] listens_to_def
    by (cases "contains p [42]") auto
  then show ?thesis by blast
qed

lemma find_publishers_for_subscriptions_entry:
  assumes "broker_inv b" "(p, infos) \<in> set (find_publishers_for_subscriptions b ps)"
  shows "p \<in> set ps \<and> infos \<noteq> [] \<and> set infos = {info \<in> known b. listens_to p info} \<and>
    sorted_wrt (<) (map pi_node_id infos)"
proof -
  let ?ms = "matching_publishers b p"
  have p: "p \<in> set ps" "?ms \<noteq> []" "infos = dedup_infos (sort_key pi_node_id ?ms)"
    using assms(2) by (auto simp: find_publishers_for_subscriptions_def List.map_filter_def Let_def split: if_splits)
  have "inj_on pi_node_id (set ?ms)"
    using known_inj [OF assms(1)] by (rule inj_on_subset) (auto simp: set_matching_publishers [OF assms(1)])
  then have "set infos = set ?ms \<and> sorted_wrt (<) (map pi_node_id infos)"
    using dedup_infos_sorted [of "sort_key pi_node_id ?ms"] by (simp add: p(3))
  moreover have "infos \<noteq> []" using calculation p(2) by auto
  ultimately show ?thesis using p(1) by (simp add: set_matching_publishers [OF assms(1)])
qed

lemma patterns_of_find_publishers_for_subscriptions:
  "map fst (find_publishers_for_subscriptions b ps) = filter (\<lambda>p. matching_publishers b p \<noteq> []) ps"
  by (induction ps) (auto simp: find_publishers_for_subscriptions_def List.map_filter_def Let_def)


lemma find_subscribers_for_publisher_eq:
  assumes "broker_inv b"
  shows "find_subscribers_for_publisher b ts =
    sorted_list_of_set {n. \<exists>p. \<exists>t \<in> set ts. (n, p) \<in> subscribed b \<and> topic_matches p t}" (is "_ = sorted_list_of_set ?N")
proof -
  have N: "set (find_subscribers_for_publisher b ts) = ?N"
    by (auto simp: find_subscribers_for_publisher_def set_subscribers_of [OF assms])
  have "sorted (find_subscribers_for_publisher b ts)" "distinct (find_subscribers_for_publisher b ts)"
    by (simp_all add: find_subscribers_for_publisher_def)
  then show ?thesis
    unfolding N [symmetric] by (metis sorted_list_of_set.idem_if_sorted_distinct)
qed

lemma find_subscribers_eq:
  assumes "broker_inv b"
  shows "find_subscribers b t = sorted_list_of_set {n. \<exists>p. (n, p) \<in> subscribed b \<and> topic_matches p t}"
  using find_subscribers_for_publisher_eq [OF assms, of "[t]"]
  by (simp add: find_subscribers_def find_subscribers_for_publisher_def)

section \<open>Properties\<close>

text \<open>
  C6. The broker's five tables implement the directory. Whatever sequence of registrations,
  subscriptions and removals was applied to a new broker, its tables describe exactly the
  directory obtained by the same operations on the abstract one, and the redundant topic index
  agrees with the publishers' own topic lists.
\<close>

theorem broker_refines_directory:
  "directory_of (broker_run ops) = foldl directory_step directory_new ops \<and> broker_inv (broker_run ops)"
  using directory_of_run broker_inv_run by blast

text \<open>
  Discovery is exact after any history. A node asking who publishes a topic gets exactly the
  registered publishers that list the topic or a wildcard pattern matching it; a joining node gets,
  for each of its subscriptions somebody can serve and for no other, exactly the publishers with a
  topic under that subscription, once each and in order of their ids; and the nodes to be told of a
  new publisher are exactly those subscribed to one of its topics, once each, in order.
\<close>

theorem discovery_is_exact:
  "set (find_publishers (broker_run ops) t) = {info \<in> known (broker_run ops). advertises info t} \<and>
   map fst (find_publishers_for_subscriptions (broker_run ops) ps) =
     filter (\<lambda>p. \<exists>info \<in> known (broker_run ops). listens_to p info) ps \<and>
   (\<forall>(p, infos) \<in> set (find_publishers_for_subscriptions (broker_run ops) ps).
      set infos = {info \<in> known (broker_run ops). listens_to p info} \<and>
      sorted_wrt (<) (map pi_node_id infos)) \<and>
   find_subscribers_for_publisher (broker_run ops) ts =
     sorted_list_of_set {n. \<exists>p. \<exists>t \<in> set ts. (n, p) \<in> subscribed (broker_run ops) \<and> topic_matches p t}"
proof -
  note inv = broker_inv_run [of ops]
  have "matching_publishers (broker_run ops) p \<noteq> [] \<longleftrightarrow>
      (\<exists>info \<in> known (broker_run ops). listens_to p info)" for p
    using set_matching_publishers [OF inv, of p] by (auto simp flip: set_empty)
  moreover have "set infos = {info \<in> known (broker_run ops). listens_to p info} \<and>
      sorted_wrt (<) (map pi_node_id infos)"
    if "(p, infos) \<in> set (find_publishers_for_subscriptions (broker_run ops) ps)" for p infos
    using find_publishers_for_subscriptions_entry [OF inv that] by blast
  ultimately show ?thesis
    using set_find_publishers [OF inv] find_subscribers_for_publisher_eq [OF inv]
    by (auto simp: patterns_of_find_publishers_for_subscriptions)
qed

definition sample_ops :: "broker_op list" where
  "sample_ops =
     [Register_Identity (u ''tui'') [1], Register_Identity (u ''tool'') [2], Register_Identity (u ''th'') [3],
      Subscribe (u ''tui'') (u ''agent/*/output''), Subscribe (u ''tool'') (u ''agent/**''),
      Register_Publisher \<lparr>pi_node_id = u ''th'', pub_addr = u ''a'', pi_topics = [u ''agent/x/output'']\<rparr>]"

lemma single_key: "map fst al = [k] \<Longrightarrow> \<exists>v. (k, v) \<in> set al"
  by (cases al) auto

theorem discovery_is_exact_witness:
  "\<exists>infos. (u ''agent/*/output'', infos) \<in>
       set (find_publishers_for_subscriptions (broker_run sample_ops) [u ''agent/*/output'', u ''b'']) \<and>
     set infos = {info \<in> known (broker_run sample_ops). listens_to (u ''agent/*/output'') info}"
proof -
  have "map fst (find_publishers_for_subscriptions (broker_run sample_ops) [u ''agent/*/output'', u ''b'']) =
      [u ''agent/*/output'']"
    by code_simp
  from single_key [OF this] obtain infos where "(u ''agent/*/output'', infos) \<in>
      set (find_publishers_for_subscriptions (broker_run sample_ops) [u ''agent/*/output'', u ''b''])" ..
  with discovery_is_exact [where ops = sample_ops and ps = "[u ''agent/*/output'', u ''b'']"]
  show ?thesis by blast
qed

definition recipients :: "directory \<Rightarrow> message \<Rightarrow> node_id list" where
  "recipients d msg =
     filter (\<lambda>n. n \<noteq> src_node (header msg) \<and> n \<in> dom (d_identity d))
       (sorted_list_of_set {n. \<exists>p. (n, p) \<in> d_subscribed d \<and> topic_matches p (topic msg)})"

lemma map_filter_option:
  "List.map_filter (\<lambda>n. map_option (f n) (m n)) (filter P ns) =
     map (\<lambda>n. f n (the (m n))) (filter (\<lambda>n. P n \<and> n \<in> dom m) ns)"
  by (induction ns) (auto simp: List.map_filter_def)

lemma find_targets_eq:
  assumes "broker_inv b"
  shows "find_targets b msg =
    map (\<lambda>n. (the (get_identity b n), n)) (recipients (directory_of b) msg)"
  unfolding find_targets_def find_subscribers_eq [OF assms]
  using map_filter_option [of "\<lambda>n i. (i, n)" "map_of (node_identities b)" "\<lambda>n. n \<noteq> src_node (header msg)"]
  by (simp add: recipients_def directory_of_def get_identity_def)

text \<open>
  C7. Routing is exact after any history. A system message whose header encodes goes, in three
  shared frames, to exactly the nodes that are subscribed to a pattern matching its topic, have a
  registered identity and are not its sender, once each and in order of their ids; a header that
  does not encode reaches nobody. \<^verbatim>\<open>find_targets\<close> names the same nodes.
\<close>

theorem routing_is_exact:
  "route_message rmp_to_vec (broker_run ops) msg =
     (case rmp_to_vec (header msg) of
        Inl e \<Rightarrow> Inl (Rmp e)
      | Inr h \<Rightarrow> Inr (map (\<lambda>n. (the (get_identity (broker_run ops) n), [as_bytes (topic msg), h, payload msg]))
                     (recipients (foldl directory_step directory_new ops) msg))) \<and>
   map snd (find_targets (broker_run ops) msg) = recipients (foldl directory_step directory_new ops) msg"
proof -
  note inv = broker_inv_run [of ops]
  have "route_message rmp_to_vec (broker_run ops) msg =
     (case rmp_to_vec (header msg) of
        Inl e \<Rightarrow> Inl (Rmp e)
      | Inr h \<Rightarrow> Inr (map (\<lambda>n. (the (get_identity (broker_run ops) n), [as_bytes (topic msg), h, payload msg]))
                     (recipients (directory_of (broker_run ops)) msg)))"
    unfolding route_message_def encode_def find_subscribers_eq [OF inv] map_filter_option [of "\<lambda>n i. (i, _)"]
    by (simp add: recipients_def directory_of_def get_identity_def split: sum.split)
  moreover have "map snd (find_targets (broker_run ops) msg) = recipients (directory_of (broker_run ops)) msg"
    by (simp add: find_targets_eq [OF inv] comp_def)
  ultimately show ?thesis by (simp only: directory_of_run)
qed

end
