(* ===== verification/Node_Registry.thy ===== *)
theory Node_Registry
  imports Broker
begin

text \<open>
  The node registry of the kernel, \<^verbatim>\<open>crates/codegen/ccore/src/kernel/registry.rs\<close>, and the contract
  it shares with the broker: both answer who listens to a topic and both forget a node. The wall
  clock is an input of the operations that read it, in nanoseconds since the epoch.
\<close>

section \<open>Operations\<close>

datatype node_type = Kernel | Agent | Tool | Sampler | State | TUI | Plugin | Acp | Thinker

definition node_type_as_str :: "node_type \<Rightarrow> ustr" where
  "node_type_as_str t =
     (case t of
        Kernel \<Rightarrow> u ''kernel'' | Agent \<Rightarrow> u ''agent'' | Tool \<Rightarrow> u ''tool'' | Sampler \<Rightarrow> u ''sampler''
      | State \<Rightarrow> u ''state'' | TUI \<Rightarrow> u ''tui'' | Plugin \<Rightarrow> u ''plugin'' | Acp \<Rightarrow> u ''acp''
      | Thinker \<Rightarrow> u ''thinker'')"

definition parse_node_type :: "ustr \<Rightarrow> node_type" where
  "parse_node_type s =
     (if s = u ''kernel'' then Kernel
      else if s = u ''agent'' then Agent
      else if s = u ''tool'' then Tool
      else if s = u ''sampler'' then Sampler
      else if s = u ''state'' then State
      else if s = u ''tui'' then TUI
      else if s = u ''plugin'' then Plugin
      else if s = u ''acp'' then Acp
      else if s = u ''thinker'' then Thinker
      else Plugin)"

lemma parse_node_type_as_str: "parse_node_type (node_type_as_str t) = t"
  by (cases t) (simp_all add: parse_node_type_def node_type_as_str_def)

record node_info =
  ni_type :: node_type
  ni_subscriptions :: "ustr list"
  last_heartbeat :: int

type_synonym registry = "(node_id \<times> node_info) list"

definition registry_new :: registry where
  "registry_new = []"

definition reg_register :: "int \<Rightarrow> registry \<Rightarrow> node_id \<Rightarrow> node_type \<Rightarrow> ustr list \<Rightarrow> registry" where
  "reg_register now r n ty subs =
     AList.update n \<lparr>ni_type = ty, ni_subscriptions = subs, last_heartbeat = now\<rparr> r"

definition reg_deregister :: "registry \<Rightarrow> node_id \<Rightarrow> registry" where
  "reg_deregister r n = AList.delete n r"

definition reg_heartbeat :: "int \<Rightarrow> registry \<Rightarrow> node_id \<Rightarrow> registry" where
  "reg_heartbeat now r n = adjust n (\<lambda>info. info\<lparr>last_heartbeat := now\<rparr>) r"

text \<open>\<^verbatim>\<open>TimeDelta::num_seconds\<close> rounds towards zero; \<^verbatim>\<open>as u64\<close> wraps a negative count around.\<close>

definition num_seconds :: "int \<Rightarrow> int" where
  "num_seconds d = (if 0 \<le> d then d div 1000000000 else - (- d div 1000000000))"

definition as_u64 :: "int \<Rightarrow> nat" where
  "as_u64 i = nat (i mod 2 ^ 64)"

definition stale :: "int \<Rightarrow> nat \<Rightarrow> node_info \<Rightarrow> bool" where
  "stale now timeout_secs info \<longleftrightarrow> timeout_secs < as_u64 (num_seconds (now - last_heartbeat info))"

definition remove_stale :: "int \<Rightarrow> registry \<Rightarrow> nat \<Rightarrow> node_id list \<times> registry" where
  "remove_stale now r timeout_secs =
     (let gone = map fst (filter (\<lambda>(n, info). stale now timeout_secs info) r)
      in (gone, foldl (\<lambda>r n. AList.delete n r) r gone))"

definition reg_find_subscribers :: "registry \<Rightarrow> ustr \<Rightarrow> node_id list" where
  "reg_find_subscribers r t =
     map fst (filter (\<lambda>(n, info). \<exists>sub \<in> set (ni_subscriptions info). topic_matches sub t) r)"

definition find_by_type :: "registry \<Rightarrow> node_type \<Rightarrow> node_id list" where
  "find_by_type r ty = map fst (filter (\<lambda>(n, info). ni_type info = ty) r)"

definition reg_get :: "registry \<Rightarrow> node_id \<Rightarrow> node_info option" where
  "reg_get r n = map_of r n"

definition reg_len :: "registry \<Rightarrow> nat" where
  "reg_len r = length r"

definition reg_is_empty :: "registry \<Rightarrow> bool" where
  "reg_is_empty r \<longleftrightarrow> r = []"

section \<open>Invariant and meaning\<close>

definition registry_inv :: "registry \<Rightarrow> bool" where
  "registry_inv r \<longleftrightarrow> distinct (map fst r)"

definition reg_subscribed :: "registry \<Rightarrow> (node_id \<times> ustr) set" where
  "reg_subscribed r = {(n, p). \<exists>info. map_of r n = Some info \<and> p \<in> set (ni_subscriptions info)}"

lemma registry_inv_intros [intro, simp]:
  "registry_inv registry_new"
  "registry_inv r \<Longrightarrow> registry_inv (reg_register now r n ty subs)"
  "registry_inv r \<Longrightarrow> registry_inv (reg_deregister r n)"
  "registry_inv r \<Longrightarrow> registry_inv (reg_heartbeat now r n)"
  by (simp_all add: registry_inv_def registry_new_def reg_register_def reg_deregister_def reg_heartbeat_def
      distinct_update distinct_delete)

lemma foldl_delete:
  "foldl (\<lambda>r n. AList.delete n r) r ns = filter (\<lambda>(n, v). n \<notin> set ns) r"
  by (induction ns arbitrary: r) (auto simp: AList.delete_eq intro!: filter_cong)

lemma remove_stale_eq:
  assumes "registry_inv r"
  shows "remove_stale now r timeout =
    (map fst (filter (\<lambda>(n, info). stale now timeout info) r), filter (\<lambda>(n, info). \<not> stale now timeout info) r)"
proof -
  have "n \<in> fst ` {x \<in> set r. stale now timeout (snd x)} \<longleftrightarrow> stale now timeout info"
    if "(n, info) \<in> set r" for n info
    using assms that by (force simp: registry_inv_def image_iff dest: eq_key_imp_eq_value)
  then have "filter (\<lambda>x. fst x \<notin> fst ` {x \<in> set r. stale now timeout (snd x)}) r =
      filter (\<lambda>x. \<not> stale now timeout (snd x)) r"
    by (intro filter_cong) auto
  then show ?thesis by (simp add: remove_stale_def Let_def foldl_delete case_prod_unfold)
qed

lemma registry_inv_remove_stale: "registry_inv r \<Longrightarrow> registry_inv (snd (remove_stale now r timeout))"
  by (simp add: remove_stale_eq) (simp add: registry_inv_def distinct_keys_filter)

lemma set_reg_find_subscribers:
  assumes "registry_inv r"
  shows "set (reg_find_subscribers r t) = {n. \<exists>p. (n, p) \<in> reg_subscribed r \<and> topic_matches p t}"
proof -
  have "n \<in> set (reg_find_subscribers r t) \<longleftrightarrow>
      (\<exists>info. (n, info) \<in> set r \<and> (\<exists>p \<in> set (ni_subscriptions info). topic_matches p t))" for n
    by (force simp: reg_find_subscribers_def)
  then show ?thesis
    using assms by (fastforce simp: reg_subscribed_def registry_inv_def)
qed

section \<open>The contract of a subscriber index\<close>

locale subscriber_index =
  fixes inv :: "'s \<Rightarrow> bool"
    and rel :: "'s \<Rightarrow> (node_id \<times> ustr) set"
    and find :: "'s \<Rightarrow> ustr \<Rightarrow> node_id list"
    and forget :: "'s \<Rightarrow> node_id \<Rightarrow> 's"
  assumes find_exact: "inv s \<Longrightarrow> set (find s t) = {n. \<exists>p. (n, p) \<in> rel s \<and> topic_matches p t}"
    and find_distinct: "inv s \<Longrightarrow> distinct (find s t)"
    and forget_inv: "inv s \<Longrightarrow> inv (forget s n)"
    and forget_rel: "inv s \<Longrightarrow> rel (forget s n) = {(m, p) \<in> rel s. m \<noteq> n}"
begin

lemma forgotten_not_found: "inv s \<Longrightarrow> n \<notin> set (find (forget s n) t)"
  by (simp add: find_exact forget_inv forget_rel)

lemma others_still_found: "inv s \<Longrightarrow> m \<noteq> n \<Longrightarrow> m \<in> set (find (forget s n) t) \<longleftrightarrow> m \<in> set (find s t)"
  by (simp add: find_exact forget_inv forget_rel)

lemma forget_all:
  "inv s \<Longrightarrow> inv (foldl forget s ns) \<and> rel (foldl forget s ns) = {(m, p) \<in> rel s. m \<notin> set ns}"
  by (induction ns arbitrary: s) (auto simp: forget_inv forget_rel)

lemma found_after_forget_all:
  "inv s \<Longrightarrow> set (find (foldl forget s ns) t) = set (find s t) - set ns"
  using forget_all [of s ns] by (auto simp: find_exact)

end

interpretation reg: subscriber_index registry_inv reg_subscribed reg_find_subscribers reg_deregister
proof
  fix s t assume "registry_inv s"
  then show "set (reg_find_subscribers s t) = {n. \<exists>p. (n, p) \<in> reg_subscribed s \<and> topic_matches p t}"
    by (rule set_reg_find_subscribers)
next
  fix s t assume "registry_inv s"
  then show "distinct (reg_find_subscribers s t)"
    by (simp add: reg_find_subscribers_def registry_inv_def distinct_keys_filter)
next
  fix s n assume "registry_inv s"
  then show "registry_inv (reg_deregister s n)" by simp
next
  fix s n
  show "reg_subscribed (reg_deregister s n) = {(m, p) \<in> reg_subscribed s. m \<noteq> n}"
    by (auto simp: reg_subscribed_def reg_deregister_def delete_conv' split: if_splits)
qed

interpretation nds: key_store registry_inv map_of "\<lambda>r n info. reg_register (last_heartbeat info) r n (ni_type info) (ni_subscriptions info)"
    reg_deregister
proof
  fix s :: registry and k v
  show "map_of (reg_register (last_heartbeat v) s k (ni_type v) (ni_subscriptions v)) = (map_of s)(k \<mapsto> v)"
    by (cases v) (simp add: reg_register_def update_conv')
qed (simp_all add: registry_inv_def reg_register_def reg_deregister_def distinct_update distinct_delete delete_conv')

interpretation ids: key_store broker_inv get_identity register_identity deregister_identity
proof
  fix s k v
  show "get_identity (register_identity s k v) = (get_identity s)(k \<mapsto> v)"
    by (simp add: get_identity_def [abs_def] register_identity_def update_conv')
  show "get_identity (deregister_identity s k) = (get_identity s)(k := None)"
    by (simp add: get_identity_def [abs_def] deregister_identity_def Let_def delete_conv' split: option.split)
qed (simp_all add: broker_inv_register_identity broker_inv_deregister_identity)

lemma subscribed_deregister: "subscribed (deregister_identity b n) = {(m, p) \<in> subscribed b. m \<noteq> n}"
  by (auto simp: subscribed_def deregister_identity_def Let_def map_snd_without_entry split: option.splits)

interpretation bkr: subscriber_index broker_inv subscribed find_subscribers deregister_identity
proof
  fix s t assume "broker_inv s"
  then show "set (find_subscribers s t) = {n. \<exists>p. (n, p) \<in> subscribed s \<and> topic_matches p t}"
    by (simp add: find_subscribers_def set_subscribers_of)
next
  fix s t
  show "distinct (find_subscribers s t)" by (simp add: find_subscribers_def)
next
  fix s n assume "broker_inv s"
  then show "broker_inv (deregister_identity s n)" by (rule broker_inv_deregister_identity)
next
  fix s n
  show "subscribed (deregister_identity s n) = {(m, p) \<in> subscribed s. m \<noteq> n}"
    by (rule subscribed_deregister)
qed

section \<open>Staleness\<close>

lemma num_seconds_bounds:
  "0 \<le> d \<Longrightarrow> 0 \<le> num_seconds d" "d < 0 \<Longrightarrow> num_seconds d \<le> 0"
  "- (2 ^ 63 * 1000000000) < d \<Longrightarrow> - (2 ^ 63) < num_seconds d"
  "d < 2 ^ 63 * 1000000000 \<Longrightarrow> num_seconds d < 2 ^ 63"
  by (auto simp: num_seconds_def zdiv_zminus1_eq_if)

lemma as_u64_cases:
  assumes "- (2 ^ 63) < i" "i < 2 ^ 63"
  shows "int (as_u64 i) = (if 0 \<le> i then i else 2 ^ 64 + i)"
proof (cases "0 \<le> i")
  case False
  have "i mod 2 ^ 64 = (i + 2 ^ 64) mod 2 ^ 64" by simp
  also have "\<dots> = i + 2 ^ 64" using False assms by (intro mod_pos_pos_trivial) auto
  finally show ?thesis using False assms by (simp add: as_u64_def)
qed (use assms in \<open>simp add: as_u64_def\<close>)

lemma less_div_iff:
  fixes k d c :: int
  assumes "0 < c"
  shows "k < d div c \<longleftrightarrow> (k + 1) * c \<le> d"
proof
  assume "k < d div c"
  then have "(k + 1) * c \<le> d div c * c" using assms by (intro mult_right_mono) auto
  also have "\<dots> \<le> d" using assms div_mult_mod_eq [of d c] pos_mod_sign [of c d] by linarith
  finally show "(k + 1) * c \<le> d" .
next
  assume "(k + 1) * c \<le> d"
  then have "(k + 1) * c div c \<le> d div c" using assms by (rule zdiv_mono1)
  then show "k < d div c" using assms by simp
qed

lemma stale_iff:
  assumes "timeout < 2 ^ 63" "\<bar>now - last_heartbeat info\<bar> < 2 ^ 63 * 1000000000"
  shows "stale now timeout info \<longleftrightarrow>
    last_heartbeat info + (int timeout + 1) * 1000000000 \<le> now \<or> now + 1000000000 \<le> last_heartbeat info"
proof -
  let ?d = "now - last_heartbeat info"
  have b: "- (2 ^ 63) < num_seconds ?d" "num_seconds ?d < 2 ^ 63"
    by (rule num_seconds_bounds, use assms(2) in linarith)+
  have *: "stale now timeout info \<longleftrightarrow>
      int timeout < (if 0 \<le> num_seconds ?d then num_seconds ?d else 2 ^ 64 + num_seconds ?d)"
    unfolding stale_def as_u64_cases [OF b, symmetric] by simp
  show ?thesis
  proof (cases "0 \<le> ?d")
    case True
    then have "num_seconds ?d = ?d div 1000000000" "0 \<le> num_seconds ?d"
      by (simp_all add: num_seconds_def pos_imp_zdiv_nonneg_iff)
    moreover have "int timeout < ?d div 1000000000 \<longleftrightarrow> (int timeout + 1) * 1000000000 \<le> ?d"
      using less_div_iff [of 1000000000] by simp
    ultimately show ?thesis using * True by auto
  next
    case False
    then have n: "num_seconds ?d = - ((- ?d) div 1000000000)" by (simp add: num_seconds_def)
    have "0 \<le> num_seconds ?d \<longleftrightarrow> \<not> 1000000000 \<le> - ?d"
      unfolding n using False less_div_iff [of 1000000000 0 "- ?d"] by auto
    moreover have "int timeout < 2 ^ 64 + num_seconds ?d" using assms(1) b(1) by simp
    moreover have "num_seconds ?d \<le> 0" using False by (auto intro: num_seconds_bounds)
    ultimately show ?thesis using * False by auto
  qed
qed

text \<open>
  Which nodes the health check removes. For a timeout below $2^{63}$ seconds and clock readings
  less than $2^{63}$ seconds apart, \<^verbatim>\<open>remove_stale\<close> reports, and removes, exactly the nodes whose last
  heartbeat is at least one second more than the timeout ago, or lies a second or more in the
  future: after the wall clock steps back, the cast of the negative age to an unsigned number makes
  every node look stale.
\<close>

theorem remove_stale_removes:
  assumes "registry_inv r" "timeout < 2 ^ 63"
    and "\<forall>(n, info) \<in> set r. \<bar>now - last_heartbeat info\<bar> < 2 ^ 63 * 1000000000"
  shows "remove_stale now r timeout =
    (map fst (filter (\<lambda>(n, info). last_heartbeat info + (int timeout + 1) * 1000000000 \<le> now \<or>
                                  now + 1000000000 \<le> last_heartbeat info) r),
     filter (\<lambda>(n, info). now < last_heartbeat info + (int timeout + 1) * 1000000000 \<and>
                         last_heartbeat info < now + 1000000000) r)"
proof -
  have "stale now timeout info \<longleftrightarrow>
      last_heartbeat info + (int timeout + 1) * 1000000000 \<le> now \<or> now + 1000000000 \<le> last_heartbeat info"
    if "(n, info) \<in> set r" for n info
    using assms(3) that by (intro stale_iff [OF assms(2)]) auto
  then show ?thesis
    unfolding remove_stale_eq [OF assms(1)] prod.inject
    by (intro conjI arg_cong [where f = "map fst"] filter_cong) (auto simp: not_le)
qed

theorem remove_stale_removes_witness:
  "remove_stale 5000000000
     [(u ''a'', \<lparr>ni_type = Tool, ni_subscriptions = [], last_heartbeat = 6000000000\<rparr>),
      (u ''b'', \<lparr>ni_type = Tool, ni_subscriptions = [], last_heartbeat = 4000000000\<rparr>)] 30 =
   ([u ''a''], [(u ''b'', \<lparr>ni_type = Tool, ni_subscriptions = [], last_heartbeat = 4000000000\<rparr>)])"
  by (subst remove_stale_removes) (simp_all add: registry_inv_def)

end
