(* ===== verification/Kernel_Tx.thy ===== *)
theory Kernel_Tx
  imports Node_Registry
begin

text \<open>
  Registration across the two tables of the kernel: the transaction of
  \<^verbatim>\<open>crates/codegen/ccore/src/kernel/transaction.rs\<close> and the direct paths of \<^verbatim>\<open>kernel/mod.rs\<close>
  (\<^verbatim>\<open>atomic_register_node\<close>, \<^verbatim>\<open>atomic_deregister_node\<close>, the health check of \<^verbatim>\<open>run\<close>).
\<close>

section \<open>Transactions\<close>

datatype operation =
    RegisterNode node_id node_type "ustr list" identity
  | DeregisterNode node_id node_type "ustr list" identity
  | SubscribeOp node_id ustr

record transaction =
  tx_broker :: broker
  tx_registry :: registry
  operations :: "operation list"

definition tx_new :: "broker \<Rightarrow> registry \<Rightarrow> transaction" where
  "tx_new b r = \<lparr>tx_broker = b, tx_registry = r, operations = []\<rparr>"

definition tx_register_node :: "int \<Rightarrow> transaction \<Rightarrow> node_id \<Rightarrow> node_type \<Rightarrow> ustr list \<Rightarrow> identity \<Rightarrow> transaction" where
  "tx_register_node now tx n ty subs ident =
     (let tx1 = tx\<lparr>tx_registry := reg_register now (tx_registry tx) n ty subs,
                   operations := operations tx @ [RegisterNode n ty subs ident]\<rparr>;
          tx2 = tx1\<lparr>tx_broker := register_identity (tx_broker tx1) n ident\<rparr>
      in foldl (\<lambda>tx p. tx\<lparr>tx_broker := subscribe (tx_broker tx) n p,
                          operations := operations tx @ [SubscribeOp n p]\<rparr>) tx2 subs)"

definition tx_deregister_node :: "transaction \<Rightarrow> node_id \<Rightarrow> transaction" where
  "tx_deregister_node tx n =
     (case reg_get (tx_registry tx) n of
        Some info \<Rightarrow>
          tx\<lparr>operations := operations tx @ [DeregisterNode n (ni_type info) (ni_subscriptions info) []],
             tx_registry := reg_deregister (tx_registry tx) n,
             tx_broker := deregister_identity (tx_broker tx) n\<rparr>
      | None \<Rightarrow> tx)"

definition tx_commit :: "transaction \<Rightarrow> broker \<times> registry" where
  "tx_commit tx = (tx_broker tx, tx_registry tx)"

fun undo :: "int \<Rightarrow> operation \<Rightarrow> broker \<times> registry \<Rightarrow> broker \<times> registry" where
  "undo now (RegisterNode n ty subs ident) (b, r) = (deregister_identity b n, reg_deregister r n)"
| "undo now (DeregisterNode n ty subs ident) (b, r) = (register_identity b n ident, reg_register now r n ty subs)"
| "undo now (SubscribeOp n p) (b, r) = (unsubscribe b n p, r)"

definition tx_rollback :: "int \<Rightarrow> transaction \<Rightarrow> broker \<times> registry" where
  "tx_rollback now tx = foldl (\<lambda>s op. undo now op s) (tx_broker tx, tx_registry tx) (rev (operations tx))"

section \<open>Direct registration\<close>

record kernel_tables =
  k_registry :: registry
  k_broker :: broker

definition kernel_tables_new :: kernel_tables where
  "kernel_tables_new = \<lparr>k_registry = registry_new, k_broker = broker_new\<rparr>"

definition atomic_register_node ::
    "int \<Rightarrow> kernel_tables \<Rightarrow> node_id \<Rightarrow> node_type \<Rightarrow> ustr list \<Rightarrow> identity \<Rightarrow> kernel_tables" where
  "atomic_register_node now k n ty subs ident =
     (let k1 = k\<lparr>k_registry := reg_register now (k_registry k) n ty subs\<rparr>;
          k2 = k1\<lparr>k_broker := register_identity (k_broker k1) n ident\<rparr>
      in foldl (\<lambda>k p. k\<lparr>k_broker := subscribe (k_broker k) n p\<rparr>) k2 subs)"

definition register_node ::
    "int \<Rightarrow> kernel_tables \<Rightarrow> node_id \<Rightarrow> node_type \<Rightarrow> ustr list \<Rightarrow> identity \<Rightarrow> kernel_tables" where
  "register_node now k n ty subs ident =
     (let k1 = k\<lparr>k_registry := reg_register now (k_registry k) n ty subs\<rparr>;
          k2 = k1\<lparr>k_broker := register_identity (k_broker k1) n ident\<rparr>
      in foldl (\<lambda>k p. k\<lparr>k_broker := subscribe (k_broker k) n p\<rparr>) k2 subs)"

definition atomic_deregister_node :: "kernel_tables \<Rightarrow> node_id \<Rightarrow> kernel_tables" where
  "atomic_deregister_node k n =
     (let k1 = k\<lparr>k_registry := reg_deregister (k_registry k) n\<rparr>
      in k1\<lparr>k_broker := deregister_identity (k_broker k1) n\<rparr>)"

definition deregister_node :: "kernel_tables \<Rightarrow> node_id \<Rightarrow> kernel_tables" where
  "deregister_node k n = atomic_deregister_node k n"

definition handle_heartbeat :: "int \<Rightarrow> kernel_tables \<Rightarrow> node_id \<Rightarrow> kernel_tables" where
  "handle_heartbeat now k n = k\<lparr>k_registry := reg_heartbeat now (k_registry k) n\<rparr>"

text \<open>The health tick of the event loop; the second result lists the nodes announced as gone.\<close>

definition health_tick :: "int \<Rightarrow> nat \<Rightarrow> kernel_tables \<Rightarrow> kernel_tables \<times> node_id list" where
  "health_tick now heartbeat_timeout_secs k =
     (let (dead, r) = remove_stale now (k_registry k) heartbeat_timeout_secs;
          k1 = k\<lparr>k_registry := r\<rparr>
      in (if dead \<noteq> [] then k1\<lparr>k_broker := foldl deregister_identity (k_broker k1) dead\<rparr> else k1, dead))"

definition node_count :: "kernel_tables \<Rightarrow> nat" where
  "node_count k = reg_len (k_registry k)"

section \<open>Rollback\<close>

lemma foldl_subscribe:
  "subscribed (foldl (\<lambda>b p. subscribe b n p) b ps) = subscribed b \<union> {n} \<times> set ps"
proof (induction ps arbitrary: b)
  case (Cons p ps)
  have "subscribed (subscribe b n p) = insert (n, p) (subscribed b)"
    by (auto simp: subscribed_def subscribe_def Let_def)
  with Cons show ?case by auto
qed simp

text \<open>What the tables say of the nodes outside a set, and of the nodes in it.\<close>

definition outside :: "node_id set \<Rightarrow> directory \<Rightarrow> directory" where
  "outside N d = \<lparr>d_identity = (\<lambda>n. if n \<in> N then None else d_identity d n),
     d_subscribed = {(n, p) \<in> d_subscribed d. n \<notin> N},
     d_publisher = (\<lambda>n. if n \<in> N then None else d_publisher d n),
     d_service = (\<lambda>s. case d_service d s of
        Some v \<Rightarrow> if sp_node_id v \<in> N then None else Some v | None \<Rightarrow> None)\<rparr>"

definition unknown :: "node_id \<Rightarrow> broker \<Rightarrow> registry \<Rightarrow> bool" where
  "unknown n b r \<longleftrightarrow> outside {n} (directory_of b) = directory_of b \<and> map_of r n = None"

lemma foldl_tx_subscribe:
  "foldl (\<lambda>tx p. tx\<lparr>tx_broker := subscribe (tx_broker tx) n p, operations := operations tx @ [SubscribeOp n p]\<rparr>) tx ps =
     tx\<lparr>tx_broker := foldl (\<lambda>b p. subscribe b n p) (tx_broker tx) ps,
        operations := operations tx @ map (SubscribeOp n) ps\<rparr>"
  by (induction ps arbitrary: tx) simp_all

lemma tx_register_node_simps:
  "tx_broker (tx_register_node now tx n ty subs ident) =
     foldl (\<lambda>b p. subscribe b n p) (register_identity (tx_broker tx) n ident) subs"
  "tx_registry (tx_register_node now tx n ty subs ident) = reg_register now (tx_registry tx) n ty subs"
  "operations (tx_register_node now tx n ty subs ident) =
     operations tx @ RegisterNode n ty subs ident # map (SubscribeOp n) subs"
  by (simp_all add: tx_register_node_def Let_def foldl_tx_subscribe)

definition mentioned :: "directory \<Rightarrow> node_id set" where
  "mentioned d = dom (d_identity d) \<union> fst ` d_subscribed d \<union> dom (d_publisher d) \<union> sp_node_id ` ran (d_service d)"

lemma outside_id_iff: "outside N d = d \<longleftrightarrow> mentioned d \<inter> N = {}"
proof
  assume "outside N d = d"
  then have "mentioned (outside N d) = mentioned d" by simp
  moreover have "mentioned (outside N d) \<inter> N = {}"
    by (auto simp: mentioned_def outside_def ran_def split: if_splits option.splits)
  ultimately show "mentioned d \<inter> N = {}" by simp
next
  assume *: "mentioned d \<inter> N = {}"
  have 1: "d_identity d n = None" "d_publisher d n = None" "(n, p) \<notin> d_subscribed d" if "n \<in> N" for n p
    using * that by (auto simp: mentioned_def disjoint_iff domIff image_iff)
  have 2: "sp_node_id v \<notin> N" if "d_service d s = Some v" for s v
    using * that by (auto simp: mentioned_def disjoint_iff ran_def)
  have "(\<lambda>n. if n \<in> N then None else d_identity d n) = d_identity d"
    "(\<lambda>n. if n \<in> N then None else d_publisher d n) = d_publisher d"
    "{(n, p) \<in> d_subscribed d. n \<notin> N} = d_subscribed d"
    using 1 by (auto simp: fun_eq_iff)
  moreover have "(\<lambda>s. case d_service d s of Some v \<Rightarrow> if sp_node_id v \<in> N then None else Some v | None \<Rightarrow> None) =
      d_service d"
    using 2 by (auto simp: fun_eq_iff split: option.split)
  ultimately show "outside N d = d" by (simp add: outside_def)
qed

lemma outside_step:
  "n \<in> N \<Longrightarrow> outside N (directory_step d (Deregister_Identity n)) = outside N d"
  "n \<in> N \<Longrightarrow> outside N (directory_step d (Unsubscribe n p)) = outside N d"
  "n \<in> N \<Longrightarrow> outside N (directory_step d (Subscribe n p)) = outside N d"
  "n \<in> N \<Longrightarrow> outside N (directory_step d (Register_Identity n i)) = outside N d"
  by (auto simp: outside_def fun_eq_iff split: option.split)

lemma ran_without:
  "ran (\<lambda>s. case m s of Some v \<Rightarrow> if P v then None else Some v | None \<Rightarrow> None) = {v \<in> ran m. \<not> P v}"
  by (auto simp: ran_def split: option.splits if_splits)

lemma mentioned_step:
  "mentioned (directory_step d (Deregister_Identity n)) = mentioned d - {n}"
  "mentioned (directory_step d (Unsubscribe n p)) \<subseteq> mentioned d"
  by (auto simp: mentioned_def ran_without)

fun op_node :: "operation \<Rightarrow> node_id" where
  "op_node (RegisterNode n ty subs ident) = n"
| "op_node (DeregisterNode n ty subs ident) = n"
| "op_node (SubscribeOp n p) = n"

fun is_registration :: "operation \<Rightarrow> bool" where
  "is_registration (DeregisterNode n ty subs ident) \<longleftrightarrow> False"
| "is_registration _ \<longleftrightarrow> True"

fun registered_by :: "operation \<Rightarrow> node_id set" where
  "registered_by (RegisterNode n ty subs ident) = {n}"
| "registered_by _ = {}"

lemma undo_step:
  assumes "broker_inv b" "is_registration op" "undo now op (b, r) = (b', r')" "op_node op \<in> N"
  shows "broker_inv b' \<and> outside N (directory_of b') = outside N (directory_of b) \<and>
    mentioned (directory_of b') \<subseteq> mentioned (directory_of b) \<and>
    map_of r' |` (- N) = map_of r |` (- N) \<and> dom (map_of r') \<subseteq> dom (map_of r) \<and>
    registered_by op \<inter> (mentioned (directory_of b') \<union> dom (map_of r')) = {}"
proof (cases op)
  case (RegisterNode n ty subs ident)
  with assms show ?thesis
    using directory_of_step [OF assms(1), of "Deregister_Identity n"] broker_inv_deregister_identity [OF assms(1)]
    by (auto simp: outside_step mentioned_step reg_deregister_def delete_conv' restrict_map_def fun_eq_iff
        simp del: directory_step.simps split: if_splits)
next
  case (SubscribeOp n p)
  with assms show ?thesis
    using directory_of_step [OF assms(1), of "Unsubscribe n p"] broker_inv_unsubscribe [OF assms(1)]
      mentioned_step(2) [of "directory_of b" n p]
    by (auto simp: outside_step simp del: directory_step.simps)
qed (use assms in simp)

lemma undo_all:
  assumes "broker_inv b" "\<forall>op \<in> set ops. is_registration op \<and> op_node op \<in> N"
    and "foldl (\<lambda>s op. undo now op s) (b, r) ops = (b', r')"
  shows "broker_inv b' \<and> outside N (directory_of b') = outside N (directory_of b) \<and>
    mentioned (directory_of b') \<subseteq> mentioned (directory_of b) - \<Union> (registered_by ` set ops) \<and>
    map_of r' |` (- N) = map_of r |` (- N) \<and>
    dom (map_of r') \<subseteq> dom (map_of r) - \<Union> (registered_by ` set ops)"
  using assms
proof (induction ops arbitrary: b r)
  case (Cons op ops)
  obtain b1 r1 where 1: "undo now op (b, r) = (b1, r1)" by fastforce
  have s: "broker_inv b1 \<and> outside N (directory_of b1) = outside N (directory_of b) \<and>
    mentioned (directory_of b1) \<subseteq> mentioned (directory_of b) \<and>
    map_of r1 |` (- N) = map_of r |` (- N) \<and> dom (map_of r1) \<subseteq> dom (map_of r) \<and>
    registered_by op \<inter> (mentioned (directory_of b1) \<union> dom (map_of r1)) = {}"
    by (rule undo_step [OF Cons.prems(1) _ 1]) (use Cons.prems(2) in auto)
  have "broker_inv b' \<and> outside N (directory_of b') = outside N (directory_of b1) \<and>
    mentioned (directory_of b') \<subseteq> mentioned (directory_of b1) - \<Union> (registered_by ` set ops) \<and>
    map_of r' |` (- N) = map_of r1 |` (- N) \<and>
    dom (map_of r') \<subseteq> dom (map_of r1) - \<Union> (registered_by ` set ops)"
    by (rule Cons.IH) (use s Cons.prems 1 in auto)
  with s show ?case by (simp only: list.set image_insert Union_insert) blast
qed auto

lemma outside_subscribe_all:
  "broker_inv b \<Longrightarrow> n \<in> N \<Longrightarrow>
     broker_inv (foldl (\<lambda>b p. subscribe b n p) b ps) \<and>
     outside N (directory_of (foldl (\<lambda>b p. subscribe b n p) b ps)) = outside N (directory_of b)"
proof (induction ps arbitrary: b)
  case (Cons p ps)
  have "outside N (directory_of (subscribe b n p)) = outside N (directory_of b)"
    using directory_of_step [OF Cons.prems(1), of "Subscribe n p"] Cons.prems(2)
    by (simp add: outside_step del: directory_step.simps)
  with Cons.IH [OF broker_inv_subscribe [OF Cons.prems(1)] Cons.prems(2)] show ?case by simp
qed simp

type_synonym registration = "int \<times> node_id \<times> node_type \<times> ustr list \<times> identity"

definition tx_register_all :: "transaction \<Rightarrow> registration list \<Rightarrow> transaction" where
  "tx_register_all = foldl (\<lambda>tx (now, n, ty, subs, ident). tx_register_node now tx n ty subs ident)"

definition ids_of :: "registration list \<Rightarrow> node_id set" where
  "ids_of regs = (\<lambda>(now, n, ty, subs, ident). n) ` set regs"

lemma tx_register_all_effect:
  assumes "broker_inv (tx_broker tx)" "ids_of regs \<subseteq> N"
    and "\<forall>op \<in> set (operations tx). is_registration op \<and> op_node op \<in> N"
  shows "broker_inv (tx_broker (tx_register_all tx regs)) \<and>
    outside N (directory_of (tx_broker (tx_register_all tx regs))) = outside N (directory_of (tx_broker tx)) \<and>
    map_of (tx_registry (tx_register_all tx regs)) |` (- N) = map_of (tx_registry tx) |` (- N) \<and>
    (\<forall>op \<in> set (operations (tx_register_all tx regs)). is_registration op \<and> op_node op \<in> N) \<and>
    \<Union> (registered_by ` set (operations (tx_register_all tx regs))) =
      \<Union> (registered_by ` set (operations tx)) \<union> ids_of regs"
  using assms
proof (induction regs arbitrary: tx)
  case (Cons x regs)
  obtain now n ty subs ident where x: "x = (now, n, ty, subs, ident)" by (cases x)
  let ?tx = "tx_register_node now tx n ty subs ident"
  have n: "n \<in> N" using Cons.prems(2) by (simp add: ids_of_def x)
  have "broker_inv (register_identity (tx_broker tx) n ident)"
    using Cons.prems(1) by (rule broker_inv_register_identity)
  moreover have "outside N (directory_of (register_identity (tx_broker tx) n ident)) = outside N (directory_of (tx_broker tx))"
    using directory_of_step [OF Cons.prems(1), of "Register_Identity n ident"] n
    by (simp add: outside_step del: directory_step.simps)
  ultimately have b: "broker_inv (tx_broker ?tx)"
    "outside N (directory_of (tx_broker ?tx)) = outside N (directory_of (tx_broker tx))"
    using outside_subscribe_all [OF _ n] by (simp_all add: tx_register_node_simps)
  have r: "map_of (tx_registry ?tx) |` (- N) = map_of (tx_registry tx) |` (- N)"
    using n by (auto simp: tx_register_node_simps reg_register_def update_conv' restrict_map_def fun_eq_iff)
  have o: "\<forall>op \<in> set (operations ?tx). is_registration op \<and> op_node op \<in> N"
    "\<Union> (registered_by ` set (operations ?tx)) = insert n (\<Union> (registered_by ` set (operations tx)))"
    using Cons.prems(3) n by (auto simp: tx_register_node_simps)
  have "ids_of regs \<subseteq> N" "ids_of (x # regs) = insert n (ids_of regs)"
    using Cons.prems(2) by (auto simp: ids_of_def x)
  with Cons.IH [OF b(1) _ o(1)] b(2) r o(2) show ?case
    by (simp add: tx_register_all_def x)
qed (simp_all add: tx_register_all_def ids_of_def)

section \<open>Properties\<close>

text \<open>
  C25. Rolling back registrations restores the kernel's state. If none of the nodes that a
  transaction registers was known before (it has no registry entry, identity, subscription,
  published topic or service), then after any number of registrations, also repeated ones, rollback
  leaves the registry and everything the broker answers as they were before the transaction.
\<close>

theorem rollback_restores_registrations:
  assumes "broker_inv b" and "\<forall>n \<in> ids_of regs. unknown n b r"
    and "tx_rollback now (tx_register_all (tx_new b r) regs) = (b', r')"
  shows "directory_of b' = directory_of b \<and> map_of r' = map_of r"
proof -
  let ?N = "ids_of regs" and ?tx = "tx_register_all (tx_new b r) regs"
  have e: "broker_inv (tx_broker ?tx)" "outside ?N (directory_of (tx_broker ?tx)) = outside ?N (directory_of b)"
    "map_of (tx_registry ?tx) |` (- ?N) = map_of r |` (- ?N)"
    "\<forall>op \<in> set (operations ?tx). is_registration op \<and> op_node op \<in> ?N"
    "\<Union> (registered_by ` set (operations ?tx)) = ?N"
    using tx_register_all_effect [of "tx_new b r" regs ?N] assms(1) by (simp_all add: tx_new_def)
  have u: "outside ?N (directory_of b') = outside ?N (directory_of b)" "mentioned (directory_of b') \<inter> ?N = {}"
    "map_of r' |` (- ?N) = map_of r |` (- ?N)" "dom (map_of r') \<inter> ?N = {}"
    using undo_all [OF e(1), of "rev (operations ?tx)" ?N now "tx_registry ?tx" b' r'] e(2-5) assms(3)
    by (auto simp: tx_rollback_def)
  have k: "mentioned (directory_of b) \<inter> ?N = {}" "dom (map_of r) \<inter> ?N = {}"
    using assms(2) by (auto simp: unknown_def outside_id_iff)
  have "directory_of b' = directory_of b"
    using u(1,2) k(1) by (simp flip: outside_id_iff)
  moreover have "map_of r' n = map_of r n" for n
  proof (cases "n \<in> ?N")
    case True
    then have "n \<notin> dom (map_of r')" "n \<notin> dom (map_of r)" using u(4) k(2) by blast+
    then show ?thesis by (simp add: domIff)
  qed (use fun_cong [OF u(3), of n] in simp)
  ultimately show ?thesis by auto
qed

theorem rollback_restores_registrations_witness:
  "\<exists>b' r'. tx_rollback 9 (tx_register_all (tx_new (broker_run sample_ops) [])
       [(5, u ''new'', Agent, [u ''agent/**''], [7]), (6, u ''new'', Tool, [], [8])]) = (b', r') \<and>
     directory_of b' = directory_of (broker_run sample_ops) \<and> map_of r' = map_of []"
proof -
  let ?regs = "[(5, u ''new'', Agent, [u ''agent/**''], [7]), (6, u ''new'', Tool, [], [8])] :: registration list"
  obtain b' r' where s: "tx_rollback 9 (tx_register_all (tx_new (broker_run sample_ops) []) ?regs) = (b', r')"
    by fastforce
  have "mentioned (directory_of (broker_run sample_ops)) \<subseteq> {u ''tui'', u ''tool'', u ''th''}"
    unfolding directory_of_run by (auto simp: sample_ops_def mentioned_def directory_new_def simp del: u_Cons)
  then have "\<forall>n \<in> ids_of ?regs. unknown n (broker_run sample_ops) []"
    by (auto simp: ids_of_def unknown_def outside_id_iff)
  from rollback_restores_registrations [OF broker_inv_run this s] s show ?thesis by blast
qed

text \<open>
  Rolling back a deregistration does not restore the node. The registry gets its entry back, but
  the broker is given an empty identity, none of the node's subscriptions, no published topic and
  no service: no message is ever routed to the node although the registry lists it as a subscriber.
\<close>

theorem rollback_of_deregistration_loses_node:
  assumes "broker_inv b" "map_of r n = Some info"
    and "tx_rollback now (tx_deregister_node (tx_new b r) n) = (b', r')"
  shows "map_of r' n = Some (info\<lparr>last_heartbeat := now\<rparr>) \<and> get_identity b' n = Some [] \<and>
    (\<forall>t. n \<notin> set (find_subscribers b' t)) \<and> map_of (publishers b') n = None"
proof -
  let ?b = "deregister_identity b n"
  have s: "b' = register_identity ?b n []" "r' = reg_register now (reg_deregister r n) n (ni_type info) (ni_subscriptions info)"
    using assms(2,3) by (simp_all add: tx_rollback_def tx_deregister_node_def tx_new_def reg_get_def)
  have inv: "broker_inv ?b" using assms(1) by (rule broker_inv_deregister_identity)
  have "subscribed b' = subscribed ?b" "publishers b' = publishers ?b"
    by (simp_all add: s(1) register_identity_def subscribed_def)
  moreover have "n \<notin> set (find_subscribers b' t)" for t
    using bkr.forgotten_not_found [OF assms(1), of n t] bkr.find_exact [OF inv] calculation(1)
      bkr.find_exact [OF broker_inv_register_identity [OF inv, of n "[]"]]
    by (simp add: s(1))
  moreover have "map_of (publishers ?b) n = None"
    using directory_of_deregister [OF assms(1), of n] by (simp add: directory_of_def)
  ultimately show ?thesis
    by (simp add: s get_identity_def register_identity_def reg_register_def update_conv')
qed

theorem rollback_of_deregistration_loses_node_witness:
  "\<exists>b' r'. tx_rollback 9 (tx_deregister_node (tx_new (broker_run sample_ops)
       [(u ''tool'', \<lparr>ni_type = Tool, ni_subscriptions = [u ''agent/**''], last_heartbeat = 3\<rparr>)]) (u ''tool'')) = (b', r') \<and>
     u ''tool'' \<notin> set (find_subscribers b' (u ''agent/x/output'')) \<and>
     u ''tool'' \<in> set (find_subscribers (broker_run sample_ops) (u ''agent/x/output''))"
proof -
  let ?r = "[(u ''tool'', \<lparr>ni_type = Tool, ni_subscriptions = [u ''agent/**''], last_heartbeat = 3\<rparr>)]"
  obtain b' r' where s: "tx_rollback 9 (tx_deregister_node (tx_new (broker_run sample_ops) ?r) (u ''tool'')) = (b', r')"
    by fastforce
  have "u ''tool'' \<in> set (find_subscribers (broker_run sample_ops) (u ''agent/x/output''))" by code_simp
  with rollback_of_deregistration_loses_node [OF broker_inv_run _ s] s show ?thesis by auto
qed

end
