(* ===== verification/Sequence_Check.thy ===== *)
theory Sequence_Check
  imports Node_Registry "HOL-Library.Sublist"
begin

text \<open>
  Sequence numbers of the bus, \<^verbatim>\<open>crates/codegen/ccore/src/message/sequence.rs\<close>: the sender's counter
  and the kernel's check of what arrives. Numbers are naturals below $2^{64}$; the counter's
  \<^verbatim>\<open>fetch_add\<close> wraps.
\<close>

record sequence_manager =
  send_seq :: nat
  sm_node_id :: node_id

definition sequence_manager_new :: "node_id \<Rightarrow> sequence_manager" where
  "sequence_manager_new n = \<lparr>send_seq = 0, sm_node_id = n\<rparr>"

definition next_sequence :: "sequence_manager \<Rightarrow> nat \<times> sequence_manager" where
  "next_sequence m = (send_seq m, m\<lparr>send_seq := (send_seq m + 1) mod 2 ^ 64\<rparr>)"

definition current_sequence :: "sequence_manager \<Rightarrow> nat" where
  "current_sequence m = send_seq m"

datatype sequence_check_result = InOrder | Gap nat

datatype sequence_error = Duplicate | OutOfOrder (expected: nat) (actual: nat)

record sequence_checker =
  last_received :: "(node_id \<times> nat) list"
  window_size :: nat

definition sequence_checker_new :: "nat \<Rightarrow> sequence_checker" where
  "sequence_checker_new w = \<lparr>last_received = [], window_size = w\<rparr>"

definition seq_check :: "sequence_checker \<Rightarrow> node_id \<Rightarrow> nat
    \<Rightarrow> (sequence_error + sequence_check_result) \<times> sequence_checker" where
  "seq_check c n sq =
     (case map_of (last_received c) n of
        None \<Rightarrow> (Inr InOrder, c\<lparr>last_received := AList.update n sq (last_received c)\<rparr>)
      | Some l \<Rightarrow>
          if l < sq then
            (let gap = sq - l;
                 c' = c\<lparr>last_received := AList.update n sq (last_received c)\<rparr>
             in if window_size c < gap then (Inr (Gap gap), c')
                else if 1 < gap then (Inr (Gap gap), c')
                else (Inr InOrder, c'))
          else if sq = l then (Inl Duplicate, c)
          else (Inl (OutOfOrder (l + 1) sq), c))"

definition seq_reset :: "sequence_checker \<Rightarrow> node_id \<Rightarrow> sequence_checker" where
  "seq_reset c n = c\<lparr>last_received := AList.delete n (last_received c)\<rparr>"

definition get_last_sequence :: "sequence_checker \<Rightarrow> node_id \<Rightarrow> nat option" where
  "get_last_sequence c n = map_of (last_received c) n"

section \<open>A stream of messages and registrations\<close>

text \<open>
  What reaches the checker: the number of a message, or the reset that a registration of the node makes.
  The numbers of one node come in sessions, which its registrations separate.
\<close>

datatype seq_event = Arrived node_id nat | Registered node_id

definition to_session :: "nat \<Rightarrow> nat list list \<Rightarrow> nat list list" where
  "to_session sq ss = (sq # hd ss) # tl ss"

fun sessions :: "node_id \<Rightarrow> seq_event list \<Rightarrow> nat list list" where
  "sessions n [] = [[]]"
| "sessions n (Arrived m sq # es) = (if m = n then to_session sq (sessions n es) else sessions n es)"
| "sessions n (Registered m # es) = (if m = n then [] # sessions n es else sessions n es)"

text \<open>The accepted ones among them.\<close>

fun accepted :: "sequence_checker \<Rightarrow> seq_event list \<Rightarrow> node_id \<Rightarrow> nat list list" where
  "accepted c [] n = [[]]"
| "accepted c (Arrived m sq # es) n =
     (let (r, c') = seq_check c m sq
      in if m = n \<and> (\<exists>ok. r = Inr ok) then to_session sq (accepted c' es n) else accepted c' es n)"
| "accepted c (Registered m # es) n =
     (if m = n then [] # accepted (seq_reset c m) es n else accepted (seq_reset c m) es n)"

text \<open>The reference: the numbers larger than everything before them.\<close>

fun new_maxima :: "nat option \<Rightarrow> nat list \<Rightarrow> nat list" where
  "new_maxima m [] = []"
| "new_maxima m (x # xs) =
     (if (case m of None \<Rightarrow> True | Some k \<Rightarrow> k < x) then x # new_maxima (Some x) xs else new_maxima m xs)"

lemma seq_check_state:
  "map_of (last_received (snd (seq_check c m sq))) n =
     (if n = m \<and> (case map_of (last_received c) m of None \<Rightarrow> True | Some k \<Rightarrow> k < sq) then Some sq
      else map_of (last_received c) n)"
  by (auto simp: seq_check_def Let_def update_conv' split: option.split)

lemma seq_check_accepts_iff:
  "(\<exists>ok. fst (seq_check c m sq) = Inr ok) \<longleftrightarrow>
     (case map_of (last_received c) m of None \<Rightarrow> True | Some k \<Rightarrow> k < sq)"
  by (auto simp: seq_check_def Let_def split: option.split)

lemma map_of_seq_reset [simp]:
  "map_of (last_received (seq_reset c m)) n = (if m = n then None else map_of (last_received c) n)"
  by (simp add: seq_reset_def delete_conv')

lemma sessions_nonempty [simp]: "sessions n es \<noteq> []"
  by (induction n es rule: sessions.induct) (simp_all add: to_session_def)

lemma accepted_eq_new_maxima:
  "accepted c es n =
     new_maxima (map_of (last_received c) n) (hd (sessions n es)) # map (new_maxima None) (tl (sessions n es))"
proof (induction es arbitrary: c)
  case (Cons e es)
  show ?case
  proof (cases e)
    case (Arrived m sq)
    then show ?thesis
      using seq_check_state [of c m sq n] seq_check_accepts_iff [of c m sq] Cons.IH [of "snd (seq_check c m sq)"]
      by (auto simp: to_session_def case_prod_unfold Let_def split: option.splits)
  next
    case (Registered m)
    then show ?thesis using Cons.IH [of "seq_reset c m"] by (cases "sessions n es") (auto simp: map_of_seq_reset)
  qed
qed simp

lemma new_maxima_sorted:
  "sorted_wrt (<) (new_maxima m xs) \<and> (\<forall>k. m = Some k \<longrightarrow> (\<forall>y \<in> set (new_maxima m xs). k < y)) \<and>
   set (new_maxima m xs) \<subseteq> set xs"
proof (induction xs arbitrary: m)
  case (Cons x xs)
  from Cons.IH [of m] Cons.IH [of "Some x"] show ?case
    by (auto split: option.split_asm)
qed simp

lemma fold_max_ge: "(k :: nat) \<le> fold max xs k"
  by (induction xs arbitrary: k) (auto intro: le_trans [OF max.cobounded2])

lemma new_maxima_max:
  "fold max (new_maxima m xs) (case m of None \<Rightarrow> 0 | Some k \<Rightarrow> k) = fold max xs (case m of None \<Rightarrow> 0 | Some k \<Rightarrow> k)"
proof (induction xs arbitrary: m)
  case (Cons x xs)
  from Cons.IH [of m] Cons.IH [of "Some x"] show ?case
    by (auto split: option.split simp: max_def)
qed simp

lemma new_maxima_sorted_id: "sorted_wrt (<) xs \<Longrightarrow> (\<forall>k. m = Some k \<longrightarrow> (\<forall>x \<in> set xs. k < x)) \<Longrightarrow> new_maxima m xs = xs"
  by (induction xs arbitrary: m) (auto split: option.split)

section \<open>Properties\<close>

text \<open>
  C26. The sequence checker accepts new maxima. However messages and registrations of nodes are interleaved, the
  checker accepts of the numbers of a node, from one registration of the node to the next, exactly those that exceed
  every earlier one of that stretch: the accepted numbers of a stretch are strictly increasing, so none is accepted
  twice in it, the highest that arrived is among them, and the window size plays no part. A registration, which the
  kernel does not check, starts over: after it, earlier numbers are accepted again.
\<close>

theorem accepted_are_new_maxima:
  "accepted (sequence_checker_new w) es n = map (new_maxima None) (sessions n es) \<and>
   list_all (sorted_wrt (<)) (accepted (sequence_checker_new w) es n) \<and>
   map (\<lambda>s. fold max s 0) (accepted (sequence_checker_new w) es n) = map (\<lambda>s. fold max s 0) (sessions n es)"
proof -
  have "accepted (sequence_checker_new w) es n = map (new_maxima None) (sessions n es)"
    by (cases "sessions n es") (simp_all add: accepted_eq_new_maxima sequence_checker_new_def)
  then show ?thesis using new_maxima_sorted [of None] new_maxima_max [of None] by (simp add: list_all_iff)
qed

section \<open>Sender and receiver\<close>

text \<open>The numbers of the next \<open>k\<close> messages of a sender.\<close>

fun send_numbers :: "sequence_manager \<Rightarrow> nat \<Rightarrow> nat list" where
  "send_numbers m 0 = []"
| "send_numbers m (Suc k) = (let (sq, m') = next_sequence m in sq # send_numbers m' k)"

lemma send_numbers_eq: "send_seq m + k \<le> 2 ^ 64 \<Longrightarrow> send_numbers m k = [send_seq m..<send_seq m + k]"
proof (induction k arbitrary: m)
  case (Suc k)
  let ?m = "m\<lparr>send_seq := (send_seq m + 1) mod 2 ^ 64\<rparr>"
  show ?case
  proof (cases k)
    case 0
    then show ?thesis by (simp add: next_sequence_def)
  next
    case (Suc j)
    with Suc.prems have "send_seq m + 1 < 2 ^ 64" by simp
    then have "send_seq ?m = send_seq m + 1" by simp
    then have "send_numbers ?m k = [send_seq m + 1..<send_seq m + 1 + k]"
      using Suc.IH [of ?m] Suc.prems by simp
    then show ?thesis by (simp add: next_sequence_def upt_rec [of "send_seq m"] del: upt_Suc)
  qed
qed simp

lemma sorted_wrt_sublist: "subseq xs ys \<Longrightarrow> sorted_wrt P ys \<Longrightarrow> sorted_wrt P xs"
  by (induction rule: list_emb.induct) (auto dest: list_emb_set)

text \<open>
  What a fresh node sends over an ordered, possibly lossy channel is all handled: if in every session of
  the node up to $2^{64}$ messages are numbered by a new \<^verbatim>\<open>SequenceManager\<close> and some of them arrive, in order and
  interleaved with the traffic of other nodes, the checker accepts every one that arrives.
\<close>

theorem ordered_channel_loses_nothing_more:
  assumes "k \<le> 2 ^ 64" and "\<And>s. s \<in> set (sessions n es) \<Longrightarrow> subseq s (send_numbers (sequence_manager_new n) k)"
  shows "accepted (sequence_checker_new w) es n = sessions n es"
proof -
  have k: "send_numbers (sequence_manager_new n) k = [0..<k]"
    using send_numbers_eq [of "sequence_manager_new n" k] assms(1) by (simp add: sequence_manager_new_def)
  have "new_maxima None s = s" if "s \<in> set (sessions n es)" for s
    using assms(2) [OF that] sorted_wrt_upt [of 0 k] by (simp add: k sorted_wrt_sublist new_maxima_sorted_id)
  then show ?thesis
    by (cases "sessions n es") (simp_all add: accepted_eq_new_maxima sequence_checker_new_def map_idI)
qed

theorem ordered_channel_loses_nothing_more_witness:
  "accepted (sequence_checker_new 100)
     [Arrived (u ''a'') 0, Arrived (u ''b'') 7, Arrived (u ''a'') 2, Registered (u ''a''), Arrived (u ''a'') 0] (u ''a'') = [[0, 2], [0]]"
proof -
  let ?es = "[Arrived (u ''a'') 0, Arrived (u ''b'') 7, Arrived (u ''a'') 2, Registered (u ''a''), Arrived (u ''a'') 0]"
  have s: "sessions (u ''a'') ?es = [[0, 2], [0]]" by (simp add: to_session_def)
  have "subseq t (send_numbers (sequence_manager_new (u ''a'')) 3)" if "t \<in> set (sessions (u ''a'') ?es)" for t
    using that unfolding s by (auto simp: numeral_3_eq_3 next_sequence_def sequence_manager_new_def)
  from ordered_channel_loses_nothing_more [where w = 100 and es = ?es, OF _ this] show ?thesis unfolding s by simp
qed

end
