(* ===== verification/Autonomic.thy ===== *)
theory Autonomic
  imports Node_Registry
begin

text \<open>
  The heartbeat monitor of the kernel: \<^verbatim>\<open>AgentHealth\<close> of \<^verbatim>\<open>crates/codegen/ccore/src/kernel/self_healing.rs\<close>
  and the sympathetic part of \<^verbatim>\<open>autonomic.rs\<close>. \<^verbatim>\<open>Instant\<close>s are nanoseconds of the monotonic clock;
  \<^verbatim>\<open>elapsed\<close> saturates at zero.
\<close>

record agent_health =
  agent_id :: ustr
  ah_last_heartbeat :: nat
  restart_count :: nat
  max_restarts :: nat
  marked_dead :: bool

definition agent_health_new :: "nat \<Rightarrow> ustr \<Rightarrow> nat \<Rightarrow> agent_health" where
  "agent_health_new now i maxr =
     \<lparr>agent_id = i, ah_last_heartbeat = now, restart_count = 0, max_restarts = maxr, marked_dead = False\<rparr>"

definition heartbeat :: "nat \<Rightarrow> agent_health \<Rightarrow> agent_health" where
  "heartbeat now h = h\<lparr>ah_last_heartbeat := now, marked_dead := False\<rparr>"

definition is_timed_out :: "nat \<Rightarrow> agent_health \<Rightarrow> nat \<Rightarrow> bool" where
  "is_timed_out now h timeout \<longleftrightarrow> timeout < now - ah_last_heartbeat h"

definition can_restart :: "agent_health \<Rightarrow> bool" where
  "can_restart h \<longleftrightarrow> restart_count h < max_restarts h"

definition record_restart :: "nat \<Rightarrow> agent_health \<Rightarrow> agent_health" where
  "record_restart now h = h\<lparr>restart_count := restart_count h + 1, ah_last_heartbeat := now, marked_dead := False\<rparr>"

record autonomic =
  agents :: "(ustr \<times> agent_health) list"
  heartbeat_timeout :: nat
  ans_max_restarts :: nat

definition autonomic_new :: "nat \<Rightarrow> nat \<Rightarrow> autonomic" where
  "autonomic_new heartbeat_timeout_secs maxr =
     \<lparr>agents = [], heartbeat_timeout = heartbeat_timeout_secs * 1000000000, ans_max_restarts = maxr\<rparr>"

definition register_agent :: "nat \<Rightarrow> autonomic \<Rightarrow> ustr \<Rightarrow> autonomic" where
  "register_agent now a i = a\<lparr>agents := AList.update i (agent_health_new now i (ans_max_restarts a)) (agents a)\<rparr>"

definition record_heartbeat :: "nat \<Rightarrow> autonomic \<Rightarrow> ustr \<Rightarrow> autonomic" where
  "record_heartbeat now a i = a\<lparr>agents := adjust i (heartbeat now) (agents a)\<rparr>"

definition unregister_agent :: "autonomic \<Rightarrow> ustr \<Rightarrow> autonomic" where
  "unregister_agent a i = a\<lparr>agents := AList.delete i (agents a)\<rparr>"

definition check_agent :: "nat \<Rightarrow> nat \<Rightarrow> agent_health \<Rightarrow> agent_health \<times> bool" where
  "check_agent now timeout h =
     (if marked_dead h then (h, False)
      else if is_timed_out now h timeout then
        (if can_restart h then (record_restart now h, True) else (h\<lparr>marked_dead := True\<rparr>, False))
      else (h, False))"

definition check_health :: "nat \<Rightarrow> autonomic \<Rightarrow> autonomic \<times> ustr list" where
  "check_health now a =
     (a\<lparr>agents := map (\<lambda>(i, h). (i, fst (check_agent now (heartbeat_timeout a) h))) (agents a)\<rparr>,
      map fst (filter (\<lambda>(i, h). snd (check_agent now (heartbeat_timeout a) h)) (agents a)))"

section \<open>Runs\<close>

datatype ans_event =
    Ans_Register nat ustr
  | Ans_Beat nat ustr
  | Ans_Unregister ustr
  | Ans_Check nat

fun ans_step :: "autonomic \<Rightarrow> ans_event \<Rightarrow> autonomic \<times> ustr list" where
  "ans_step a (Ans_Register now i) = (register_agent now a i, [])"
| "ans_step a (Ans_Beat now i) = (record_heartbeat now a i, [])"
| "ans_step a (Ans_Unregister i) = (unregister_agent a i, [])"
| "ans_step a (Ans_Check now) = check_health now a"

text \<open>The restart requests that a run sends to the kernel, in order.\<close>

fun ans_restarts :: "autonomic \<Rightarrow> ans_event list \<Rightarrow> ustr list" where
  "ans_restarts a [] = []"
| "ans_restarts a (e # es) = (let (a', rs) = ans_step a e in rs @ ans_restarts a' es)"

definition registers :: "ustr \<Rightarrow> ans_event \<Rightarrow> bool" where
  "registers i e \<longleftrightarrow> (\<exists>now. e = Ans_Register now i)"

definition health_ok :: "nat \<Rightarrow> ustr \<Rightarrow> agent_health \<Rightarrow> bool" where
  "health_ok maxr i h \<longleftrightarrow> agent_id h = i \<and> restart_count h \<le> max_restarts h \<and> max_restarts h = maxr"

definition ans_inv :: "autonomic \<Rightarrow> bool" where
  "ans_inv a \<longleftrightarrow> distinct (map fst (agents a)) \<and>
     (\<forall>i h. map_of (agents a) i = Some h \<longrightarrow> health_ok (ans_max_restarts a) i h)"

text \<open>Restarts an agent has left.\<close>

definition left :: "autonomic \<Rightarrow> ustr \<Rightarrow> nat" where
  "left a i = (case map_of (agents a) i of None \<Rightarrow> 0 | Some h \<Rightarrow> max_restarts h - restart_count h)"

lemma map_of_map_value: "map_of (map (\<lambda>(k, v). (k, f v)) al) k = map_option f (map_of al k)"
  by (induction al) auto

lemma check_agent_facts:
  assumes "restart_count h \<le> max_restarts h"
  shows "agent_id (fst (check_agent now t h)) = agent_id h \<and> max_restarts (fst (check_agent now t h)) = max_restarts h \<and>
    restart_count (fst (check_agent now t h)) = restart_count h + of_bool (snd (check_agent now t h)) \<and>
    restart_count (fst (check_agent now t h)) \<le> max_restarts h"
  using assms by (simp add: check_agent_def can_restart_def record_restart_def)

lemma health_ok_intros [simp]:
  "health_ok m i (agent_health_new now i m)"
  "health_ok m i h \<Longrightarrow> health_ok m i (heartbeat now h)"
  "health_ok m i h \<Longrightarrow> health_ok m i (fst (check_agent now t h))"
  using check_agent_facts [of h now t]
  by (simp_all add: health_ok_def agent_health_new_def heartbeat_def)

lemma ans_inv_step: "ans_inv a \<Longrightarrow> ans_inv (fst (ans_step a e))"
proof (cases e)
  case (Ans_Check now)
  assume "ans_inv a"
  then show ?thesis
    unfolding Ans_Check
    by (auto simp: ans_inv_def check_health_def map_of_map_value simp del: map_of_eq_Some_iff)
qed (auto simp: ans_inv_def register_agent_def record_heartbeat_def unregister_agent_def distinct_update
    distinct_delete update_conv' delete_conv' map_of_adjust
    simp del: map_of_eq_Some_iff split: if_splits)

lemma count_requested:
  assumes "distinct (map fst al)"
  shows "count_list (map fst (filter (\<lambda>(i, h). P h) al)) i =
    (case map_of al i of None \<Rightarrow> 0 | Some h \<Rightarrow> of_bool (P h))"
  using assms
proof (induction al)
  case (Cons x al)
  then have "i = fst x \<Longrightarrow> map_of al i = None" by (auto simp: map_of_eq_None_iff)
  with Cons show ?case by (auto split: option.split)
qed simp

lemma ans_step_left:
  assumes "ans_inv a" "\<not> registers i e"
  shows "count_list (snd (ans_step a e)) i + left (fst (ans_step a e)) i \<le> left a i"
proof (cases e)
  case (Ans_Register now j)
  with assms show ?thesis by (auto simp: registers_def left_def register_agent_def update_conv')
next
  case (Ans_Beat now j)
  then show ?thesis by (auto simp: left_def record_heartbeat_def map_of_adjust heartbeat_def split: option.split)
next
  case (Ans_Unregister j)
  then show ?thesis by (auto simp: left_def unregister_agent_def delete_conv' split: option.split)
next
  case (Ans_Check now)
  show ?thesis
  proof (cases "map_of (agents a) i")
    case None
    with assms Ans_Check show ?thesis
      by (simp add: ans_inv_def check_health_def left_def map_of_map_value count_requested)
  next
    case (Some h)
    then have "health_ok (ans_max_restarts a) i h" using assms(1) unfolding ans_inv_def by blast
    then have "restart_count h \<le> max_restarts h" unfolding health_ok_def by blast
    from check_agent_facts [OF this, of now "heartbeat_timeout a"] show ?thesis
      using assms Ans_Check Some
      by (auto simp: ans_inv_def check_health_def left_def map_of_map_value count_requested
          simp del: map_of_eq_Some_iff)
  qed
qed

lemma ans_run_left:
  assumes "ans_inv a" "\<forall>e \<in> set es. \<not> registers i e"
  shows "count_list (ans_restarts a es) i \<le> left a i"
  using assms
proof (induction es arbitrary: a)
  case (Cons e es)
  have "count_list (ans_restarts (fst (ans_step a e)) es) i \<le> left (fst (ans_step a e)) i"
    by (rule Cons.IH) (use Cons.prems ans_inv_step in auto)
  moreover have "count_list (snd (ans_step a e)) i + left (fst (ans_step a e)) i \<le> left a i"
    by (rule ans_step_left) (use Cons.prems in auto)
  ultimately show ?case by (simp add: case_prod_unfold Let_def)
qed simp

text \<open>
  Self-healing is bounded. Once an agent has registered, and until it registers again, the
  heartbeat monitor asks for at most \<^verbatim>\<open>max_restarts\<close> restarts of it, whatever heartbeats, checks and
  other agents' events follow: a heartbeat revives an agent but does not renew its restarts.
\<close>

theorem restarts_bounded:
  assumes "ans_inv a" "\<forall>e \<in> set es. \<not> registers i e"
  shows "count_list (ans_restarts (register_agent now a i) es) i \<le> ans_max_restarts a"
proof -
  have "ans_inv (register_agent now a i)" using ans_inv_step [OF assms(1), of "Ans_Register now i"] by simp
  from ans_run_left [OF this assms(2)] show ?thesis
    by (simp add: left_def register_agent_def update_conv' agent_health_new_def)
qed

theorem restarts_bounded_witness:
  "count_list (ans_restarts (register_agent 0 (autonomic_new 30 3) (u ''a''))
     [Ans_Check 31000000000, Ans_Check 62000000001, Ans_Beat 70000000000 (u ''a'')]) (u ''a'') \<le> 3"
  using restarts_bounded [of "autonomic_new 30 3"
      "[Ans_Check 31000000000, Ans_Check 62000000001, Ans_Beat 70000000000 (u ''a'')]" "u ''a''" 0]
  by (simp add: ans_inv_def autonomic_new_def registers_def)

end
