(* ===== verification/Kernel_Incoming.thy ===== *)
theory Kernel_Incoming
  imports Kernel_Tx Sequence_Check Autonomic Json
begin

text \<open>
  The registration protocol of the kernel's event loop: \<^verbatim>\<open>handle_incoming\<close> of
  \<^verbatim>\<open>crates/codegen/ccore/src/kernel/mod.rs\<close>, from the sequence check through the arms for
  registration, heartbeat, deregistration, service registration and service lookup, and the
  periodic health check of \<^verbatim>\<open>run\<close>. What the handler sends and counts is returned as a list of
  effects; the payload decoder, the success of encoding and of sending are parameters. The result
  is \<^const>\<open>None\<close> for a topic handled by another arm.
\<close>

section \<open>State and effects\<close>

record kernel =
  k_tables :: kernel_tables
  k_seq :: sequence_checker
  k_autonomic :: autonomic

record outgoing =
  o_topic :: ustr
  o_reply_to :: "ustr option"
  o_payload :: json

datatype effect =
    Record_Received
  | Record_Sequence_Error
  | Record_Success
  | Monitor_Heartbeat ustr
  | Send_Ack message
  | Send_To identity outgoing
  | Registered_Count nat
  | Broadcast_Deregister node_id

record handled =
  h_kernel :: kernel
  h_effects :: "effect list"
  h_ok :: bool

abbreviation k_brk :: "kernel \<Rightarrow> broker" where
  "k_brk k \<equiv> k_broker (k_tables k)"

abbreviation k_reg :: "kernel \<Rightarrow> registry" where
  "k_reg k \<equiv> k_registry (k_tables k)"

definition with_broker :: "broker \<Rightarrow> kernel \<Rightarrow> kernel" where
  "with_broker b k = k\<lparr>k_tables := (k_tables k)\<lparr>k_broker := b\<rparr>\<rparr>"

section \<open>Registration\<close>

definition publisher_json :: "publisher_info \<Rightarrow> json" where
  "publisher_json p = JObject
     [(u ''node_id'', JString (pi_node_id p)), (u ''pub_addr'', JString (pub_addr p)),
      (u ''topics'', JArray (map JString (pi_topics p)))]"

definition change_message :: "publisher_info \<Rightarrow> outgoing" where
  "change_message p = \<lparr>o_topic = sys_publisher_change, o_reply_to = None, o_payload = JObject
     [(u ''type'', JString (u ''publisher_change'')),
      (u ''publishers'', JArray [JObject
         [(u ''pattern'', JString (join_with (u '','') (pi_topics p))),
          (u ''publishers'', JArray [publisher_json p])]])]\<rparr>"

definition discovery_message :: "ustr \<Rightarrow> (ustr \<times> publisher_info list) list \<Rightarrow> outgoing" where
  "discovery_message reply pm = \<lparr>o_topic = sys_register, o_reply_to = Some reply, o_payload = JObject
     [(u ''type'', JString (u ''publisher_discovery'')),
      (u ''publishers'', JArray (map (\<lambda>(pattern, pubs). JObject
         [(u ''pattern'', JString pattern), (u ''publishers'', JArray (map publisher_json pubs))]) pm))]\<rparr>"

definition announce_publisher :: "(outgoing \<Rightarrow> bool) \<Rightarrow> kernel \<Rightarrow> node_id \<Rightarrow> ustr \<Rightarrow> ustr list \<Rightarrow> handled" where
  "announce_publisher enc_ok k n addr topics =
     (if addr \<noteq> [] \<and> topics \<noteq> [] then
        (let info = \<lparr>pi_node_id = n, pub_addr = addr, pi_topics = topics\<rparr>;
             b = register_publisher (k_brk k) info;
             k1 = with_broker b k;
             interested = find_subscribers_for_publisher b topics
         in if interested \<noteq> [] then
              (if enc_ok (change_message info) then
                 \<lparr>h_kernel = k1,
                  h_effects = List.map_filter (\<lambda>s. if s = n then None
                     else map_option (\<lambda>i. Send_To i (change_message info)) (get_identity b s)) interested,
                  h_ok = True\<rparr>
               else \<lparr>h_kernel = k1, h_effects = [], h_ok = False\<rparr>)
            else \<lparr>h_kernel = k1, h_effects = [], h_ok = True\<rparr>)
      else \<lparr>h_kernel = k, h_effects = [], h_ok = True\<rparr>)"

definition offer_service :: "kernel \<Rightarrow> node_id \<Rightarrow> ustr option \<Rightarrow> ustr option \<Rightarrow> kernel" where
  "offer_service k n rep name =
     (case rep of
        Some r \<Rightarrow>
          (case name of
             Some s \<Rightarrow> with_broker (register_service_provider (k_brk k)
                         \<lparr>sp_node_id = n, rep_addr = r, service_name = s\<rparr>) k
           | None \<Rightarrow> k)
      | None \<Rightarrow> k)"

definition reply_discovery :: "(outgoing \<Rightarrow> bool) \<Rightarrow> (identity \<Rightarrow> outgoing \<Rightarrow> bool) \<Rightarrow> kernel \<Rightarrow> identity \<Rightarrow> ustr
    \<Rightarrow> ustr list \<Rightarrow> effect list \<times> bool" where
  "reply_discovery enc_ok send_ok k ident reply subs =
     (let pm = find_publishers_for_subscriptions (k_brk k) subs; out = discovery_message reply pm
      in if pm = [] then ([], True)
         else if enc_ok out then ([Send_To ident out], send_ok ident out)
         else ([], False))"

definition enter_tables :: "int \<Rightarrow> kernel \<Rightarrow> identity \<Rightarrow> json \<Rightarrow> kernel" where
  "enter_tables wall k ident p =
     (let n = str_or p (u ''node_id'') [];
          ty = parse_node_type (str_or p (u ''node_type'') (u ''agent''));
          k1 = k\<lparr>k_seq := seq_reset (k_seq k) n\<rparr>
      in k1\<lparr>k_tables := atomic_register_node wall (k_tables k1) n ty (str_list p (u ''subscriptions'')) ident\<rparr>)"

definition handle_register :: "(outgoing \<Rightarrow> bool) \<Rightarrow> (identity \<Rightarrow> outgoing \<Rightarrow> bool) \<Rightarrow> int \<Rightarrow> nat \<Rightarrow> kernel
    \<Rightarrow> identity \<Rightarrow> message \<Rightarrow> json \<Rightarrow> handled" where
  "handle_register enc_ok send_ok wall inst k ident msg p =
     (let n = str_or p (u ''node_id'') [];
          acks = (if requires_ack (header msg) then [Send_Ack msg] else []);
          subs = str_list p (u ''subscriptions'');
          k2 = enter_tables wall k ident p;
          a = announce_publisher enc_ok k2 n (str_or p (u ''pub_addr'') []) (str_list p (u ''published_topics''));
          before = acks @ [Monitor_Heartbeat n] @ h_effects a
      in if \<not> h_ok a then \<lparr>h_kernel = h_kernel a, h_effects = before, h_ok = False\<rparr>
         else
           (let k3 = offer_service (h_kernel a) n (get_str p (u ''rep_addr'')) (get_str p (u ''service_name''));
                k4 = k3\<lparr>k_autonomic := register_agent inst (k_autonomic k3) n\<rparr>;
                (sends, ok) = reply_discovery enc_ok send_ok k4 ident (msg_id (header msg)) subs
            in \<lparr>h_kernel = k4,
                h_effects = before @ [Record_Success, Registered_Count (reg_len (k_reg k4))] @ sends, h_ok = ok\<rparr>))"

section \<open>The other arms\<close>

definition handle_heartbeat_msg :: "int \<Rightarrow> nat \<Rightarrow> kernel \<Rightarrow> message \<Rightarrow> json \<Rightarrow> handled" where
  "handle_heartbeat_msg wall inst k msg p =
     (let n = str_or p (u ''node_id'') []
      in \<lparr>h_kernel = k\<lparr>k_tables := handle_heartbeat wall (k_tables k) n,
                       k_autonomic := record_heartbeat inst (k_autonomic k) n\<rparr>,
          h_effects = (if requires_ack (header msg) then [Send_Ack msg] else []), h_ok = True\<rparr>)"

definition handle_deregister :: "kernel \<Rightarrow> json \<Rightarrow> handled" where
  "handle_deregister k p =
     (let n = str_or p (u ''node_id'') []
      in \<lparr>h_kernel = k\<lparr>k_tables := deregister_node (k_tables k) n,
                       k_autonomic := unregister_agent (k_autonomic k) n\<rparr>,
          h_effects = [], h_ok = True\<rparr>)"

definition handle_service_register :: "kernel \<Rightarrow> json \<Rightarrow> handled" where
  "handle_service_register k p =
     (let name = str_or p (u ''service_name'') []; rep = str_or p (u ''rep_addr'') [];
          n = str_or p (u ''node_id'') []
      in \<lparr>h_kernel =
            (if name \<noteq> [] \<and> rep \<noteq> []
             then with_broker (register_service_provider (k_brk k)
                    \<lparr>sp_node_id = n, rep_addr = rep, service_name = name\<rparr>) k
             else k),
          h_effects = [], h_ok = True\<rparr>)"

definition lookup_message :: "ustr \<Rightarrow> ustr \<Rightarrow> ustr \<Rightarrow> service_provider_info option \<Rightarrow> outgoing" where
  "lookup_message t reply name found = \<lparr>o_topic = t, o_reply_to = Some reply, o_payload =
     (case found of
        Some pr \<Rightarrow> JObject [(u ''found'', JBool True), (u ''node_id'', JString (sp_node_id pr)),
                    (u ''rep_addr'', JString (rep_addr pr)), (u ''service_name'', JString name)]
      | None \<Rightarrow> JObject [(u ''found'', JBool False), (u ''service_name'', JString name)])\<rparr>"

definition handle_service_lookup :: "(outgoing \<Rightarrow> bool) \<Rightarrow> (identity \<Rightarrow> outgoing \<Rightarrow> bool) \<Rightarrow> kernel \<Rightarrow> identity
    \<Rightarrow> message \<Rightarrow> json \<Rightarrow> handled" where
  "handle_service_lookup enc_ok send_ok k ident msg p =
     (let name = str_or p (u ''service_name'') [];
          out = lookup_message (topic msg) (msg_id (header msg)) name (find_service_provider (k_brk k) name)
      in if enc_ok out then \<lparr>h_kernel = k, h_effects = [Send_To ident out], h_ok = send_ok ident out\<rparr>
         else \<lparr>h_kernel = k, h_effects = [], h_ok = False\<rparr>)"

section \<open>Dispatch\<close>

text \<open>The sequence check: whether to go on, the new state, and the counted error if any.\<close>

definition sequence_gate :: "kernel \<Rightarrow> message \<Rightarrow> bool \<times> kernel \<times> effect list" where
  "sequence_gate k msg =
     (if topic msg \<noteq> sys_register then
        (case seq_check (k_seq k) (src_node (header msg)) (sequence (header msg)) of
           (Inr InOrder, c) \<Rightarrow> (True, k\<lparr>k_seq := c\<rparr>, [])
         | (Inr (Gap gap), c) \<Rightarrow> (True, k\<lparr>k_seq := c\<rparr>, [Record_Sequence_Error])
         | (Inl e, c) \<Rightarrow> (False, k\<lparr>k_seq := c\<rparr>, [Record_Sequence_Error]))
      else (True, k, []))"

definition is_service :: "ustr \<Rightarrow> string \<Rightarrow> bool" where
  "is_service t act \<longleftrightarrow> starts_with t (u ''service/'') \<and> ends_with t (u act)"

definition handle_incoming :: "(outgoing \<Rightarrow> bool) \<Rightarrow> (identity \<Rightarrow> outgoing \<Rightarrow> bool) \<Rightarrow> (byte list \<Rightarrow> json option)
    \<Rightarrow> int \<Rightarrow> nat \<Rightarrow> kernel \<Rightarrow> identity \<Rightarrow> message \<Rightarrow> handled option" where
  "handle_incoming enc_ok send_ok decode_payload wall inst k ident msg =
     (let (go, k1, errs) = sequence_gate k msg;
          t = topic msg;
          eff = Record_Received # errs;
          on_payload = (\<lambda>f. Some (case decode_payload (payload msg) of
             None \<Rightarrow> \<lparr>h_kernel = k1, h_effects = eff, h_ok = False\<rparr>
           | Some p \<Rightarrow> (let h = f p in h\<lparr>h_effects := eff @ h_effects h\<rparr>)))
      in if \<not> go then Some \<lparr>h_kernel = k1, h_effects = eff, h_ok = True\<rparr>
         else if t = sys_register then on_payload (handle_register enc_ok send_ok wall inst k1 ident msg)
         else if t = sys_heartbeat then on_payload (handle_heartbeat_msg wall inst k1 msg)
         else if t = sys_deregister then on_payload (handle_deregister k1)
         else if ends_with t (u ''/spawn'') then None
         else if is_service t ''/register'' then on_payload (handle_service_register k1)
         else if is_service t ''/lookup'' then on_payload (handle_service_lookup enc_ok send_ok k1 ident msg)
         else None)"

definition kernel_health_tick :: "int \<Rightarrow> nat \<Rightarrow> kernel \<Rightarrow> kernel \<times> effect list" where
  "kernel_health_tick wall heartbeat_timeout_secs k =
     (let (t, dead) = health_tick wall heartbeat_timeout_secs (k_tables k)
      in (k\<lparr>k_tables := t, k_autonomic := foldl unregister_agent (k_autonomic k) dead\<rparr>,
          map Broadcast_Deregister dead))"

section \<open>Agreement of the tables\<close>

definition tables_agree :: "kernel_tables \<Rightarrow> bool" where
  "tables_agree t \<longleftrightarrow> registry_inv (k_registry t) \<and> broker_inv (k_broker t) \<and>
     dom (map_of (k_registry t)) = dom (map_of (node_identities (k_broker t))) \<and>
     reg_subscribed (k_registry t) \<subseteq> subscribed (k_broker t)"

definition kernel_inv :: "kernel \<Rightarrow> bool" where
  "kernel_inv k \<longleftrightarrow> tables_agree (k_tables k) \<and>
     dom (map_of (agents (k_autonomic k))) \<subseteq> dom (map_of (k_reg k))"

lemma foldl_k_subscribe:
  "foldl (\<lambda>k p. k\<lparr>k_broker := subscribe (k_broker k) n p\<rparr>) k ps =
     k\<lparr>k_broker := foldl (\<lambda>b p. subscribe b n p) (k_broker k) ps\<rparr>"
  by (induction ps arbitrary: k) simp_all

lemma node_identities_foldl_subscribe [simp]:
  "node_identities (foldl (\<lambda>b p. subscribe b n p) b ps) = node_identities b"
  by (induction ps arbitrary: b) (simp_all add: subscribe_def Let_def)

lemma broker_inv_foldl_subscribe:
  "broker_inv b \<Longrightarrow> broker_inv (foldl (\<lambda>b p. subscribe b n p) b ps)"
  by (induction ps arbitrary: b) (simp_all add: broker_inv_subscribe)

lemma k_broker_register:
  "k_broker (atomic_register_node now t n ty subs ident) =
     foldl (\<lambda>b p. subscribe b n p) (register_identity (k_broker t) n ident) subs"
  by (simp add: atomic_register_node_def Let_def foldl_k_subscribe)

lemma register_facts:
  "k_registry (atomic_register_node now t n ty subs ident) = reg_register now (k_registry t) n ty subs"
  "node_identities (k_broker (atomic_register_node now t n ty subs ident)) =
     AList.update n ident (node_identities (k_broker t))"
  "subscribed (k_broker (atomic_register_node now t n ty subs ident)) = subscribed (k_broker t) \<union> {n} \<times> set subs"
  "broker_inv (k_broker t) \<Longrightarrow> broker_inv (k_broker (atomic_register_node now t n ty subs ident))"
  by (simp_all add: k_broker_register foldl_subscribe broker_inv_foldl_subscribe broker_inv_register_identity)
    (simp_all add: atomic_register_node_def Let_def foldl_k_subscribe register_identity_def subscribed_def)

lemma dom_register: "dom (map_of (reg_register now r n ty subs)) = insert n (dom (map_of r))"
  using nds.dom_put [of "\<lparr>ni_type = ty, ni_subscriptions = subs, last_heartbeat = now\<rparr>" r n] by simp

lemma reg_subscribed_register:
  "reg_subscribed (reg_register now r n ty subs) = {(m, p) \<in> reg_subscribed r. m \<noteq> n} \<union> {n} \<times> set subs"
  by (auto simp: reg_subscribed_def reg_register_def update_conv' split: if_splits)

lemma tables_agree_register:
  "tables_agree t \<Longrightarrow> tables_agree (atomic_register_node now t n ty subs ident)"
  by (auto simp: tables_agree_def register_facts reg_subscribed_register dom_register update_conv')

lemma node_identities_deregister [simp]:
  "node_identities (deregister_identity b n) = AList.delete n (node_identities b)"
  by (simp add: deregister_identity_def Let_def split: option.split)

lemma tables_agree_deregister: "tables_agree t \<Longrightarrow> tables_agree (deregister_node t n)"
  by (auto simp: tables_agree_def deregister_node_def atomic_deregister_node_def Let_def reg.forget_rel
      bkr.forget_rel bkr.forget_inv nds.dom_del delete_conv')

lemma reg_heartbeat_facts:
  "dom (map_of (reg_heartbeat now r n)) = dom (map_of r)"
  "reg_subscribed (reg_heartbeat now r n) = reg_subscribed r"
  by (auto simp: reg_heartbeat_def map_of_adjust reg_subscribed_def split: if_splits)

lemma tables_agree_heartbeat: "tables_agree t \<Longrightarrow> tables_agree (handle_heartbeat now t n)"
  by (simp add: tables_agree_def handle_heartbeat_def reg_heartbeat_facts)

lemma foldl_reg_deregister: "foldl reg_deregister r ns = foldl (\<lambda>r n. AList.delete n r) r ns"
  by (induction ns arbitrary: r) (simp_all add: reg_deregister_def)

lemma tables_agree_deregister_all:
  "tables_agree t \<Longrightarrow>
     tables_agree (t\<lparr>k_registry := foldl reg_deregister (k_registry t) ns, k_broker := foldl deregister_identity (k_broker t) ns\<rparr>)"
proof (induction ns arbitrary: t)
  case (Cons n ns)
  from Cons.IH [OF tables_agree_deregister [OF Cons.prems, of n]] show ?case
    by (simp add: deregister_node_def atomic_deregister_node_def Let_def)
qed simp

lemma health_tick_eq:
  "health_tick now timeout t =
     (let dead = fst (remove_stale now (k_registry t) timeout)
      in (t\<lparr>k_registry := foldl reg_deregister (k_registry t) dead,
            k_broker := foldl deregister_identity (k_broker t) dead\<rparr>, dead))"
  by (simp add: health_tick_def remove_stale_def foldl_reg_deregister Let_def)

lemma tables_agree_health_tick: "tables_agree t \<Longrightarrow> tables_agree (fst (health_tick now timeout t))"
  by (simp add: health_tick_eq tables_agree_deregister_all Let_def)

lemma tables_agree_broker:
  assumes "tables_agree t" "broker_inv b" "node_identities b = node_identities (k_broker t)"
    and "subscriptions b = subscriptions (k_broker t)"
  shows "tables_agree (t\<lparr>k_broker := b\<rparr>)"
  using assms by (simp add: tables_agree_def subscribed_def)

section \<open>The kernel's invariant\<close>

lemma kernel_inv_broker:
  assumes "kernel_inv k" "broker_inv b" "node_identities b = node_identities (k_brk k)"
    and "subscriptions b = subscriptions (k_brk k)"
  shows "kernel_inv (with_broker b k)"
  using assms tables_agree_broker [of "k_tables k" b] by (simp add: kernel_inv_def with_broker_def)

lemma kernel_inv_brk: "kernel_inv k \<Longrightarrow> broker_inv (k_brk k)"
  by (simp add: kernel_inv_def tables_agree_def)

lemma publisher_keeps_routes:
  "node_identities (register_publisher b info) = node_identities b"
  "subscriptions (register_publisher b info) = subscriptions b"
  "node_identities (register_service_provider b sp) = node_identities b"
  "subscriptions (register_service_provider b sp) = subscriptions b"
  by (simp_all add: register_publisher_def register_service_provider_def Let_def)

lemma announce_publisher_kernel:
  "h_kernel (announce_publisher enc_ok k n addr topics) =
     (if addr \<noteq> [] \<and> topics \<noteq> []
      then with_broker (register_publisher (k_brk k) \<lparr>pi_node_id = n, pub_addr = addr, pi_topics = topics\<rparr>) k
      else k)"
  by (simp add: announce_publisher_def Let_def)

lemma kernel_inv_announce: "kernel_inv k \<Longrightarrow> kernel_inv (h_kernel (announce_publisher enc_ok k n addr topics))"
  by (simp add: announce_publisher_kernel kernel_inv_broker kernel_inv_brk broker_inv_register_publisher
      publisher_keeps_routes)

lemma kernel_inv_offer: "kernel_inv k \<Longrightarrow> kernel_inv (offer_service k n rep name)"
  by (simp add: offer_service_def kernel_inv_broker kernel_inv_brk broker_inv_register_service_provider
      publisher_keeps_routes split: option.split)

text \<open>The parts of the state that the steps after the table update leave alone.\<close>

lemma after_register_keeps:
  "k_reg (h_kernel (announce_publisher enc_ok k n addr topics)) = k_reg k"
  "k_reg (offer_service k n rep name) = k_reg k"
  "k_autonomic (h_kernel (announce_publisher enc_ok k n addr topics)) = k_autonomic k"
  "k_autonomic (offer_service k n rep name) = k_autonomic k"
  "node_identities (k_brk (h_kernel (announce_publisher enc_ok k n addr topics))) = node_identities (k_brk k)"
  "node_identities (k_brk (offer_service k n rep name)) = node_identities (k_brk k)"
  "subscriptions (k_brk (h_kernel (announce_publisher enc_ok k n addr topics))) = subscriptions (k_brk k)"
  "subscriptions (k_brk (offer_service k n rep name)) = subscriptions (k_brk k)"
  by (simp_all add: announce_publisher_kernel offer_service_def with_broker_def publisher_keeps_routes
      split: option.split)

lemma kernel_inv_seq: "kernel_inv (k\<lparr>k_seq := c\<rparr>) \<longleftrightarrow> kernel_inv k"
  by (simp add: kernel_inv_def)

lemma kernel_inv_register_tables:
  "kernel_inv k \<Longrightarrow> kernel_inv (k\<lparr>k_tables := atomic_register_node now (k_tables k) n ty subs ident\<rparr>)"
  by (auto simp: kernel_inv_def tables_agree_register register_facts dom_register)

lemma kernel_inv_enter_tables: "kernel_inv k \<Longrightarrow> kernel_inv (enter_tables wall k ident p)"
  using kernel_inv_register_tables [of "k\<lparr>k_seq := seq_reset (k_seq k) (str_or p (u ''node_id'') [])\<rparr>"]
  by (simp add: enter_tables_def Let_def kernel_inv_seq del: u_Cons)

lemma kernel_registry_of_steps:
  "k_registry (handle_heartbeat wall t n) = reg_heartbeat wall (k_registry t) n"
  "k_registry (deregister_node t n) = reg_deregister (k_registry t) n"
  by (simp_all add: handle_heartbeat_def deregister_node_def atomic_deregister_node_def Let_def)

lemma dom_record_heartbeat: "dom (map_of (agents (record_heartbeat inst a n))) = dom (map_of (agents a))"
  by (auto simp: record_heartbeat_def map_of_adjust split: if_splits)

lemma dom_unregister_agent: "dom (map_of (agents (unregister_agent a n))) = dom (map_of (agents a)) - {n}"
  by (auto simp: unregister_agent_def delete_conv')

lemma kernel_inv_handle_register:
  assumes "kernel_inv k"
  shows "kernel_inv (h_kernel (handle_register enc_ok send_ok wall inst k ident msg p))"
proof -
  let ?n = "str_or p (u ''node_id'') []"
  let ?k2 = "enter_tables wall k ident p"
  let ?a = "announce_publisher enc_ok ?k2 ?n (str_or p (u ''pub_addr'') []) (str_list p (u ''published_topics''))"
  let ?k3 = "offer_service (h_kernel ?a) ?n (get_str p (u ''rep_addr'')) (get_str p (u ''service_name''))"
  have a: "kernel_inv (h_kernel ?a)" and k3: "kernel_inv ?k3"
    using assms by (simp_all add: kernel_inv_offer kernel_inv_announce kernel_inv_enter_tables)
  have "?n \<in> dom (map_of (k_reg ?k3))"
    by (simp add: after_register_keeps enter_tables_def Let_def register_facts dom_register del: u_Cons)
  then have "kernel_inv (?k3\<lparr>k_autonomic := register_agent inst (k_autonomic ?k3) ?n\<rparr>)"
    using k3 by (auto simp: kernel_inv_def register_agent_def update_conv' simp del: u_Cons)
  with a show ?thesis by (simp add: handle_register_def Let_def case_prod_unfold del: u_Cons)
qed

lemma kernel_inv_handle_heartbeat_msg:
  "kernel_inv k \<Longrightarrow> kernel_inv (h_kernel (handle_heartbeat_msg wall inst k msg p))"
  by (simp add: handle_heartbeat_msg_def Let_def kernel_inv_def tables_agree_heartbeat dom_record_heartbeat
      kernel_registry_of_steps reg_heartbeat_facts del: u_Cons)

lemma kernel_inv_handle_deregister: "kernel_inv k \<Longrightarrow> kernel_inv (h_kernel (handle_deregister k p))"
  by (auto simp: handle_deregister_def Let_def kernel_inv_def tables_agree_deregister dom_unregister_agent
      kernel_registry_of_steps nds.dom_del simp del: u_Cons)

lemma kernel_inv_handle_service_register: "kernel_inv k \<Longrightarrow> kernel_inv (h_kernel (handle_service_register k p))"
  by (simp add: handle_service_register_def Let_def kernel_inv_broker kernel_inv_brk
      broker_inv_register_service_provider publisher_keeps_routes del: u_Cons)

lemma kernel_handle_service_lookup [simp]: "h_kernel (handle_service_lookup enc_ok send_ok k ident msg p) = k"
  by (simp add: handle_service_lookup_def Let_def)

lemma sequence_gate_kernel: "\<exists>c. fst (snd (sequence_gate k msg)) = k\<lparr>k_seq := c\<rparr>"
  by (auto simp: sequence_gate_def split: prod.split sum.split sequence_check_result.split
      intro: exI [of _ "k_seq k"])

lemma kernel_inv_gate: "kernel_inv k \<Longrightarrow> kernel_inv (fst (snd (sequence_gate k msg)))"
  using sequence_gate_kernel [of k msg] by (auto simp: kernel_inv_seq)

lemmas kernel_inv_arms = kernel_inv_gate kernel_inv_handle_register kernel_inv_handle_heartbeat_msg
  kernel_inv_handle_deregister kernel_inv_handle_service_register

lemma kernel_inv_handle_incoming:
  assumes "kernel_inv k" "handle_incoming enc_ok send_ok decode_payload wall inst k ident msg = Some h"
  shows "kernel_inv (h_kernel h)"
  using assms(2)
  by (auto simp: handle_incoming_def Let_def case_prod_unfold kernel_inv_arms assms(1)
      simp del: u_Cons split: if_splits option.splits)

lemma kernel_inv_health_tick:
  assumes "kernel_inv k"
  shows "kernel_inv (fst (kernel_health_tick wall timeout k))"
proof -
  let ?dead = "fst (remove_stale wall (k_reg k) timeout)"
  have "dom (map_of (agents (foldl unregister_agent a ns))) = dom (map_of (agents a)) - set ns" for a ns
    by (induction ns arbitrary: a) (auto simp: unregister_agent_def delete_conv')
  moreover have "dom (map_of (foldl reg_deregister r ns)) = dom (map_of r) - set ns" for r ns
    by (induction ns arbitrary: r) (auto simp: nds.dom_del)
  moreover have "tables_agree (fst (health_tick wall timeout (k_tables k)))"
    using assms by (simp add: kernel_inv_def tables_agree_health_tick)
  ultimately show ?thesis
    using assms by (auto simp: kernel_health_tick_def kernel_inv_def health_tick_eq Let_def)
qed

section \<open>Runs of the kernel\<close>

datatype kernel_event =
    Incoming int nat identity message
  | Health_Tick int nat

fun kernel_run :: "(outgoing \<Rightarrow> bool) \<Rightarrow> (identity \<Rightarrow> outgoing \<Rightarrow> bool) \<Rightarrow> (byte list \<Rightarrow> json option)
    \<Rightarrow> kernel \<Rightarrow> kernel_event list \<Rightarrow> kernel option" where
  "kernel_run enc_ok send_ok decode_payload k [] = Some k"
| "kernel_run enc_ok send_ok decode_payload k (Incoming wall inst ident msg # es) =
     (case handle_incoming enc_ok send_ok decode_payload wall inst k ident msg of
        None \<Rightarrow> None
      | Some h \<Rightarrow> kernel_run enc_ok send_ok decode_payload (h_kernel h) es)"
| "kernel_run enc_ok send_ok decode_payload k (Health_Tick wall timeout # es) =
     kernel_run enc_ok send_ok decode_payload (fst (kernel_health_tick wall timeout k)) es"

definition kernel_new :: "nat \<Rightarrow> nat \<Rightarrow> kernel" where
  "kernel_new heartbeat_timeout_secs maxr =
     \<lparr>k_tables = kernel_tables_new, k_seq = sequence_checker_new 100,
      k_autonomic = autonomic_new heartbeat_timeout_secs maxr\<rparr>"

lemma kernel_inv_new: "kernel_inv (kernel_new secs maxr)"
  using broker_inv_new
  by (simp add: kernel_inv_def kernel_new_def kernel_tables_new_def tables_agree_def registry_inv_def
      registry_new_def broker_new_def reg_subscribed_def autonomic_new_def)

lemma kernel_inv_run:
  "kernel_inv k \<Longrightarrow> kernel_run enc_ok send_ok decode_payload k es = Some k' \<Longrightarrow> kernel_inv k'"
proof (induction es arbitrary: k)
  case (Cons e es)
  then show ?case
    by (cases e) (auto dest: kernel_inv_handle_incoming kernel_inv_health_tick split: option.splits)
qed simp

lemma registry_subscribers_reached:
  assumes "kernel_inv k"
  shows "set (reg_find_subscribers (k_reg k) t) \<subseteq> set (find_subscribers (k_brk k) t)"
  using assms reg.find_exact [of "k_reg k" t] bkr.find_exact [of "k_brk k" t]
  by (auto simp: kernel_inv_def tables_agree_def)

lemma in_find_targets:
  assumes "broker_inv b"
  shows "(i, n) \<in> set (find_targets b msg) \<longleftrightarrow>
    n \<noteq> src_node (header msg) \<and> get_identity b n = Some i \<and> n \<in> set (find_subscribers b (topic msg))"
  by (auto simp: find_targets_def List.map_filter_def get_identity_def image_iff)

section \<open>Properties\<close>

text \<open>
  The kernel's tables agree in every reachable state. From a new kernel, after any sequence of
  registration, heartbeat, deregistration, service and rejected messages and of health checks, the
  registry and the broker know the same nodes, both are well formed, everything the registry says a
  node subscribed to is routed by the broker, and the heartbeat monitor watches registered nodes only.
\<close>

theorem kernel_tables_agree:
  assumes "kernel_run enc_ok send_ok decode_payload (kernel_new secs maxr) es = Some k"
  shows "broker_inv (k_brk k) \<and> registry_inv (k_reg k) \<and>
    dom (map_of (k_reg k)) = dom (map_of (node_identities (k_brk k))) \<and>
    set (reg_find_subscribers (k_reg k) t) \<subseteq> set (find_subscribers (k_brk k) t) \<and>
    dom (map_of (agents (k_autonomic k))) \<subseteq> dom (map_of (k_reg k))"
proof -
  have "kernel_inv k" using kernel_inv_run [OF kernel_inv_new assms] .
  with registry_subscribers_reached [OF this, of t] show ?thesis
    unfolding kernel_inv_def tables_agree_def by blast
qed

definition hello :: message where
  "hello = \<lparr>topic = sys_register,
     header = \<lparr>msg_id = u ''m'', timestamp = u ''t'', src_node = u ''n'', reply_to = None, sequence = 0, requires_ack = False\<rparr>,
     payload = []\<rparr>"

definition hello_payload :: json where
  "hello_payload = JObject [(u ''node_id'', JString (u ''n'')), (u ''node_type'', JString (u ''tool'')),
     (u ''subscriptions'', JArray [JString (u ''agent/**'')])]"

lemma hello_handled:
  "handle_incoming (\<lambda>o'. True) (\<lambda>i o'. True) (\<lambda>b. Some hello_payload) 5 6 (kernel_new 30 3) [9] hello \<noteq> None"
  by (simp add: handle_incoming_def sequence_gate_def hello_def Let_def)

theorem kernel_tables_agree_witness:
  "\<exists>k. kernel_run (\<lambda>o'. True) (\<lambda>i o'. True) (\<lambda>b. Some hello_payload) (kernel_new 30 3)
      [Incoming 5 6 [9] hello, Health_Tick 7 30] = Some k \<and>
     dom (map_of (k_reg k)) = dom (map_of (node_identities (k_brk k)))"
proof -
  obtain k where k: "kernel_run (\<lambda>o'. True) (\<lambda>i o'. True) (\<lambda>b. Some hello_payload) (kernel_new 30 3)
      [Incoming 5 6 [9] hello, Health_Tick 7 30] = Some k"
    using hello_handled by auto
  from kernel_tables_agree [OF this] k show ?thesis by blast
qed

text \<open>
  C23. A registration takes effect at once. When the kernel handles \<^verbatim>\<open>sys/register\<close>, on the success path
  and on every path that ends in an encoding or sending error, messages of other nodes whose topic
  matches one of the subscriptions in the payload are from then on routed to the identity that
  sent the registration.
\<close>

theorem registered_node_is_reached:
  assumes "kernel_inv k" "topic msg = sys_register" "decode_payload (payload msg) = Some p"
    and "handle_incoming enc_ok send_ok decode_payload wall inst k ident msg = Some h"
    and "sub \<in> set (str_list p (u ''subscriptions''))" "topic_matches sub (topic msg')"
    and "src_node (header msg') \<noteq> str_or p (u ''node_id'') []"
  shows "(ident, str_or p (u ''node_id'') []) \<in> set (find_targets (k_brk (h_kernel h)) msg')"
proof -
  let ?n = "str_or p (u ''node_id'') []"
  have inv: "broker_inv (k_brk (h_kernel h))"
    using kernel_inv_handle_incoming [OF assms(1,4)] by (rule kernel_inv_brk)
  have "h_kernel h = h_kernel (handle_register enc_ok send_ok wall inst k ident msg p)"
    using assms(2-4) by (auto simp: handle_incoming_def sequence_gate_def Let_def simp del: u_Cons)
  then have t: "node_identities (k_brk (h_kernel h)) = node_identities (k_brk (enter_tables wall k ident p))"
    "subscribed (k_brk (h_kernel h)) = subscribed (k_brk (enter_tables wall k ident p))"
    by (simp_all add: handle_register_def Let_def case_prod_unfold after_register_keeps subscribed_def del: u_Cons)
  have "get_identity (k_brk (h_kernel h)) ?n = Some ident"
    by (simp add: get_identity_def t enter_tables_def Let_def register_facts update_conv' del: u_Cons)
  moreover have "(?n, sub) \<in> subscribed (k_brk (h_kernel h))"
    using assms(5) by (simp add: t enter_tables_def Let_def register_facts del: u_Cons)
  ultimately show ?thesis
    using assms(6,7) by (auto simp: in_find_targets [OF inv] bkr.find_exact [OF inv] simp del: u_Cons)
qed

definition task_message :: message where
  "task_message = hello\<lparr>topic := u ''agent/x'', header := (header hello)\<lparr>src_node := u ''k''\<rparr>\<rparr>"

theorem registered_node_is_reached_witness:
  "\<exists>h. handle_incoming (\<lambda>o'. True) (\<lambda>i o'. True) (\<lambda>b. Some hello_payload) 5 6 (kernel_new 30 3) [9] hello = Some h \<and>
     ([9], u ''n'') \<in> set (find_targets (k_brk (h_kernel h)) task_message)"
proof -
  obtain h where h: "handle_incoming (\<lambda>o'. True) (\<lambda>i o'. True) (\<lambda>b. Some hello_payload) 5 6 (kernel_new 30 3) [9] hello = Some h"
    using hello_handled by auto
  have n: "str_or hello_payload (u ''node_id'') [] = u ''n''" "u ''agent/**'' \<in> set (str_list hello_payload (u ''subscriptions''))"
    "topic_matches (u ''agent/**'') (topic task_message)" "src_node (header task_message) \<noteq> u ''n''"
    "topic hello = sys_register"
    by code_simp+
  from registered_node_is_reached [OF kernel_inv_new n(5) _ h n(2,3)] n(1,4) h show ?thesis by auto
qed

text \<open>
  A deregistration leaves no trace. After the kernel has handled a \<^verbatim>\<open>sys/deregister\<close> message that
  passed the sequence check, the node is in neither table, no message is routed to it, nobody is
  told to connect to it as a publisher, no service lookup answers with it, and the heartbeat
  monitor has dropped it.
\<close>

theorem deregistered_node_is_gone:
  assumes "kernel_inv k" "topic msg = sys_deregister" "decode_payload (payload msg) = Some p"
    and "fst (sequence_gate k msg)"
    and "handle_incoming enc_ok send_ok decode_payload wall inst k ident msg = Some h"
    and "n = str_or p (u ''node_id'') []"
  shows "reg_get (k_reg (h_kernel h)) n = None \<and> get_identity (k_brk (h_kernel h)) n = None \<and>
    n \<notin> snd ` set (find_targets (k_brk (h_kernel h)) msg') \<and>
    n \<notin> pi_node_id ` set (find_publishers (k_brk (h_kernel h)) t) \<and>
    n \<notin> sp_node_id ` set_option (find_service_provider (k_brk (h_kernel h)) s) \<and>
    map_of (agents (k_autonomic (h_kernel h))) n = None"
proof -
  obtain c where "fst (snd (sequence_gate k msg)) = k\<lparr>k_seq := c\<rparr>" using sequence_gate_kernel by blast
  then have h: "h_kernel h = k\<lparr>k_seq := c, k_tables := deregister_node (k_tables k) n,
      k_autonomic := unregister_agent (k_autonomic k) n\<rparr>"
    using assms(2-6)
    by (auto simp: handle_incoming_def Let_def case_prod_unfold handle_deregister_def sys_deregister_def
        sys_register_def sys_heartbeat_def)
  then have b: "k_brk (h_kernel h) = deregister_identity (k_brk k) n"
    by (simp add: deregister_node_def atomic_deregister_node_def Let_def)
  have inv: "broker_inv (k_brk k)" using assms(1) by (rule kernel_inv_brk)
  have inv': "broker_inv (k_brk (h_kernel h))" using inv b by (simp add: broker_inv_deregister_identity)
  have d: "directory_of (k_brk (h_kernel h)) = directory_step (directory_of (k_brk k)) (Deregister_Identity n)"
    using directory_of_deregister [OF inv] by (simp only: b)
  then have i: "get_identity (k_brk (h_kernel h)) n = None" "map_of (publishers (k_brk (h_kernel h))) n = None"
    "\<forall>v. find_service_provider (k_brk (h_kernel h)) s = Some v \<longrightarrow> sp_node_id v \<noteq> n"
    by (auto simp: directory_of_def get_identity_def find_service_provider_def split: option.splits if_splits)
  have "n \<notin> snd ` set (find_targets (k_brk (h_kernel h)) msg')"
    using i(1) by (auto simp: in_find_targets [OF inv'])
  moreover have "n \<notin> pi_node_id ` set (find_publishers (k_brk (h_kernel h)) t)"
    using i(2) inv' by (auto simp: set_find_publishers [OF inv'] known_def ran_def broker_inv_def simp del: map_of_eq_Some_iff)
  moreover have "reg_get (k_reg (h_kernel h)) n = None" "map_of (agents (k_autonomic (h_kernel h))) n = None"
    by (simp_all add: h reg_get_def kernel_registry_of_steps reg_deregister_def unregister_agent_def delete_conv')
  ultimately show ?thesis using i by auto
qed

definition bye :: message where
  "bye = hello\<lparr>topic := sys_deregister\<rparr>"

theorem deregistered_node_is_gone_witness:
  "\<exists>h. handle_incoming (\<lambda>o'. True) (\<lambda>i o'. True) (\<lambda>b. Some hello_payload) 5 6 (kernel_new 30 3) [9] bye = Some h \<and>
     get_identity (k_brk (h_kernel h)) (u ''n'') = None"
proof -
  let ?h = "handle_incoming (\<lambda>o'. True) (\<lambda>i o'. True) (\<lambda>b. Some hello_payload) 5 6 (kernel_new 30 3) [9] bye"
  have n: "fst (sequence_gate (kernel_new 30 3) bye)" "topic bye = sys_deregister"
    by (simp_all add: sequence_gate_def seq_check_def kernel_new_def sequence_checker_new_def bye_def)
  have id: "u ''n'' = str_or hello_payload (u ''node_id'') []"
    by code_simp
  obtain h where h: "?h = Some h"
    using n by (auto simp: handle_incoming_def Let_def case_prod_unfold sys_deregister_def
        sys_register_def sys_heartbeat_def)
  from deregistered_node_is_gone [OF kernel_inv_new n(2) _ n(1) h id] h show ?thesis by auto
qed

text \<open>
  Replayed and reordered messages have no effect. A message other than a registration whose
  number is not greater than the last accepted number of its sender changes nothing in the kernel:
  it is counted as received and as a sequence error, no arm runs, nothing is sent, and no error is
  returned to the event loop.
\<close>

theorem stale_message_ignored:
  assumes "topic msg \<noteq> sys_register"
    and "get_last_sequence (k_seq k) (src_node (header msg)) = Some l" "sequence (header msg) \<le> l"
  shows "handle_incoming enc_ok send_ok decode_payload wall inst k ident msg =
    Some \<lparr>h_kernel = k, h_effects = [Record_Received, Record_Sequence_Error], h_ok = True\<rparr>"
proof -
  have "\<exists>e. seq_check (k_seq k) (src_node (header msg)) (sequence (header msg)) = (Inl e, k_seq k)"
    using assms(2,3) by (auto simp: seq_check_def get_last_sequence_def simp del: map_of_eq_Some_iff)
  then have "sequence_gate k msg = (False, k, [Record_Sequence_Error])"
    using assms(1) by (auto simp: sequence_gate_def)
  then show ?thesis by (simp add: handle_incoming_def)
qed

definition again :: kernel where
  "again = (kernel_new 30 3)\<lparr>k_seq := \<lparr>last_received = [(u ''n'', 4)], window_size = 100\<rparr>\<rparr>"

theorem stale_message_ignored_witness:
  "handle_incoming (\<lambda>o'. True) (\<lambda>i o'. True) (\<lambda>b. None) 5 6 again [9] bye =
     Some \<lparr>h_kernel = again, h_effects = [Record_Received, Record_Sequence_Error], h_ok = True\<rparr>"
  by (rule stale_message_ignored [where l = 4])
    (simp_all add: again_def bye_def hello_def get_last_sequence_def sys_deregister_def sys_register_def)

text \<open>
  Registering again does not drop old subscriptions. After a node registers a second time, the
  registry holds the new list of subscriptions only, while the broker still routes every topic of the
  old one to the node.
\<close>

theorem reregistration_keeps_old_subscriptions:
  assumes "tables_agree t" "n \<in> set (find_subscribers (k_broker t) tp)"
  shows "n \<in> set (find_subscribers (k_broker (atomic_register_node now t n ty subs ident)) tp) \<and>
    (n \<in> set (reg_find_subscribers (k_registry (atomic_register_node now t n ty subs ident)) tp) \<longleftrightarrow>
      (\<exists>sub \<in> set subs. topic_matches sub tp))"
proof -
  have b: "broker_inv (k_broker t)" "broker_inv (k_broker (atomic_register_node now t n ty subs ident))"
    "registry_inv (k_registry (atomic_register_node now t n ty subs ident))"
    using assms(1) tables_agree_register by (auto simp: tables_agree_def)
  show ?thesis
    using assms(2) unfolding bkr.find_exact [OF b(1)] bkr.find_exact [OF b(2)] reg.find_exact [OF b(3)]
    by (auto simp: register_facts reg_subscribed_register)
qed

theorem reregistration_keeps_old_subscriptions_witness:
  "u ''n'' \<in> set (find_subscribers (k_broker (atomic_register_node 8
     (atomic_register_node 5 kernel_tables_new (u ''n'') Tool [u ''agent/**''] [9]) (u ''n'') Tool [] [9])) (u ''agent/x''))"
proof -
  have "tables_agree (atomic_register_node 5 kernel_tables_new (u ''n'') Tool [u ''agent/**''] [9])"
    using kernel_inv_new [of 0 0] by (intro tables_agree_register) (simp add: kernel_inv_def kernel_new_def)
  moreover have "u ''n'' \<in> set (find_subscribers (k_broker
      (atomic_register_node 5 kernel_tables_new (u ''n'') Tool [u ''agent/**''] [9])) (u ''agent/x''))"
    by code_simp
  ultimately show ?thesis using reregistration_keeps_old_subscriptions by blast
qed

end
