(* ===== verification/Ack.thy ===== *)
theory Ack
  imports Broker
begin

text \<open>
  Acknowledgement and retry, \<^verbatim>\<open>crates/codegen/ccore/src/message/ack.rs\<close>. Instants are nanoseconds of
  the monotonic clock. The backoff multiplier, a float in the code, is modelled for whole numbers,
  such as the default: for these and delays below $2^{53}$ milliseconds every float operation of
  \<^verbatim>\<open>calculate_retry_delay\<close> that decides the result is exact.
\<close>

record ack_config =
  ack_timeout_secs :: nat
  max_retries :: nat
  initial_retry_delay_ms :: nat
  max_retry_delay_ms :: nat
  retry_backoff_multiplier :: nat

definition ack_config_default :: ack_config where
  "ack_config_default = \<lparr>ack_timeout_secs = 30, max_retries = 3, initial_retry_delay_ms = 1000,
     max_retry_delay_ms = 30000, retry_backoff_multiplier = 2\<rparr>"

record pending_ack =
  pa_message :: message
  sent_at :: nat
  retry_count :: nat
  next_retry_at :: nat

record ack_manager =
  config :: ack_config
  pending :: "(ustr \<times> pending_ack) list"
  confirmed :: "(ustr \<times> nat) list"
  failed :: "(message \<times> ustr) list"

definition ack_manager_new :: "ack_config \<Rightarrow> ack_manager" where
  "ack_manager_new c = \<lparr>config = c, pending = [], confirmed = [], failed = []\<rparr>"

definition ms :: "nat \<Rightarrow> nat" where
  "ms n = n * 1000000"

definition secs :: "nat \<Rightarrow> nat" where
  "secs n = n * 1000000000"

definition calculate_retry_delay :: "ack_config \<Rightarrow> nat \<Rightarrow> nat" where
  "calculate_retry_delay c k =
     min (initial_retry_delay_ms c * retry_backoff_multiplier c ^ k) (max_retry_delay_ms c)"

definition record_sent :: "nat \<Rightarrow> ack_manager \<Rightarrow> message \<Rightarrow> ack_manager" where
  "record_sent now m msg =
     m\<lparr>pending := AList.update (msg_id (header msg))
         \<lparr>pa_message = msg, sent_at = now, retry_count = 0,
          next_retry_at = now + ms (calculate_retry_delay (config m) 0)\<rparr> (pending m)\<rparr>"

definition handle_ack :: "nat \<Rightarrow> ack_manager \<Rightarrow> ustr \<Rightarrow> ack_manager \<times> bool" where
  "handle_ack now m i =
     (case map_of (pending m) i of
        Some p \<Rightarrow> (m\<lparr>pending := AList.delete i (pending m), confirmed := AList.update i now (confirmed m)\<rparr>, True)
      | None \<Rightarrow> (m, False))"

datatype verdict = Keep | Retry | Fail

definition judge :: "nat \<Rightarrow> ack_config \<Rightarrow> pending_ack \<Rightarrow> verdict" where
  "judge now c p =
     (if secs (ack_timeout_secs c) < now - sent_at p then
        (if max_retries c \<le> retry_count p then Fail
         else if next_retry_at p \<le> now then Retry
         else Keep)
      else Keep)"

definition retried :: "nat \<Rightarrow> ack_config \<Rightarrow> pending_ack \<Rightarrow> pending_ack" where
  "retried now c p =
     p\<lparr>retry_count := retry_count p + 1, sent_at := now,
       next_retry_at := now + ms (calculate_retry_delay c (retry_count p + 1))\<rparr>"

text \<open>The text of the failure: "maximum number of retries reached" in Chinese.\<close>

definition max_retries_reached :: ustr where
  "max_retries_reached = [36798, 21040, 26368, 22823, 37325, 35797, 27425, 25968]"

definition check_timeout :: "nat \<Rightarrow> ack_manager \<Rightarrow> ack_manager \<times> message list" where
  "check_timeout now m =
     (let c = config m;
          to_retry = map (pa_message \<circ> snd) (filter (\<lambda>(i, p). judge now c p = Retry) (pending m));
          to_fail = map fst (filter (\<lambda>(i, p). judge now c p = Fail) (pending m));
          pending1 = map (\<lambda>(i, p). (i, if judge now c p = Retry then retried now c p else p)) (pending m);
          failed_entries = List.map_filter (\<lambda>i. map_option (\<lambda>p. (pa_message p, max_retries_reached)) (map_of pending1 i)) to_fail
      in (m\<lparr>pending := foldl (\<lambda>ps i. AList.delete i ps) pending1 to_fail, failed := failed m @ failed_entries\<rparr>,
          to_retry))"

definition get_failed_messages :: "ack_manager \<Rightarrow> (message \<times> ustr) list" where
  "get_failed_messages m = failed m"

definition cleanup_old_confirmed :: "nat \<Rightarrow> ack_manager \<Rightarrow> nat \<Rightarrow> ack_manager" where
  "cleanup_old_confirmed now m max_age_secs =
     m\<lparr>confirmed := filter (\<lambda>(i, at). now - at < secs max_age_secs) (confirmed m)\<rparr>"

definition create_ack_message :: "ustr \<Rightarrow> ustr \<Rightarrow> ustr \<Rightarrow> ustr \<Rightarrow> byte list \<Rightarrow> message" where
  "create_ack_message uuid now original_msg_id src json_bytes =
     \<lparr>topic = u ''sys/ack'',
      header = \<lparr>msg_id = uuid, timestamp = now, src_node = src, reply_to = Some original_msg_id,
                sequence = 0, requires_ack = False\<rparr>,
      payload = json_bytes\<rparr>"

text \<open>
  One turn of the background task after its sleep. The channel to the caller accepts the messages
  for which \<open>open_ch\<close> holds; the result says whether the loop goes on and what was passed on.
\<close>

fun resend :: "(message \<Rightarrow> bool) \<Rightarrow> nat \<Rightarrow> ack_manager \<Rightarrow> message list \<Rightarrow> ack_manager \<times> message list \<times> bool" where
  "resend open_ch now m [] = (m, [], True)"
| "resend open_ch now m (msg # msgs) =
     (let m1 = record_sent now m msg
      in if open_ch msg then
           (let (m2, out, go) = resend open_ch now m1 msgs in (m2, msg # out, go))
         else (m1, [], False))"

definition retry_turn :: "(message \<Rightarrow> bool) \<Rightarrow> nat \<Rightarrow> ack_manager \<Rightarrow> ack_manager \<times> message list \<times> bool" where
  "retry_turn open_ch now m =
     (let (m1, to_retry) = check_timeout now m;
          (m2, out, go) = resend open_ch now m1 to_retry
      in if go then (cleanup_old_confirmed now m2 300, out, True) else (m2, out, False))"

section \<open>The effect of a timeout check\<close>

definition ack_inv :: "ack_manager \<Rightarrow> bool" where
  "ack_inv m \<longleftrightarrow> distinct (map fst (pending m)) \<and>
     (\<forall>i p. map_of (pending m) i = Some p \<longrightarrow> msg_id (header (pa_message p)) = i)"

lemma map_of_foldl_delete:
  "map_of (foldl (\<lambda>ps i. AList.delete i ps) ps is) i = (if i \<in> set is then None else map_of ps i)"
  by (induction "is" arbitrary: ps) (auto simp: delete_conv')

lemma distinct_foldl_delete:
  "distinct (map fst ps) \<Longrightarrow> distinct (map fst (foldl (\<lambda>ps i. AList.delete i ps) ps is))"
  by (induction "is" arbitrary: ps) (auto simp: distinct_delete)

lemma map_of_map_key: "map_of (map (\<lambda>(k, v). (k, f v)) al) k = map_option f (map_of al k)"
  by (induction al) auto

lemma in_filtered_keys:
  "distinct (map fst al) \<Longrightarrow>
     k \<in> set (map fst (filter (\<lambda>(k, v). P v) al)) \<longleftrightarrow> (\<exists>v. map_of al k = Some v \<and> P v)"
  by force

lemma map_filter_keys:
  "\<forall>(k, v) \<in> set al. f k = Some v \<Longrightarrow>
     List.map_filter (\<lambda>k. map_option g (f k)) (map fst al) = map (\<lambda>(k, v). g v) al"
  by (induction al) (auto simp: List.map_filter_def)

lemma check_timeout_config [simp]:
  "config (fst (check_timeout now m)) = config m" "confirmed (fst (check_timeout now m)) = confirmed m"
  by (simp_all add: check_timeout_def Let_def)

lemma check_timeout_pending:
  assumes "ack_inv m"
  shows "map_of (pending (fst (check_timeout now m))) i =
    (case map_of (pending m) i of
       None \<Rightarrow> None
     | Some p \<Rightarrow> (case judge now (config m) p of
                   Keep \<Rightarrow> Some p | Retry \<Rightarrow> Some (retried now (config m) p) | Fail \<Rightarrow> None))"
proof -
  have d: "distinct (map fst (pending m))" using assms by (simp add: ack_inv_def)
  have pend: "pending (fst (check_timeout now m)) = foldl (\<lambda>ps i. AList.delete i ps)
      (map (\<lambda>(i, p). (i, if judge now (config m) p = Retry then retried now (config m) p else p)) (pending m))
      (map fst (filter (\<lambda>(i, p). judge now (config m) p = Fail) (pending m)))"
    by (simp add: check_timeout_def Let_def)
  show ?thesis
    using in_filtered_keys [OF d, of i "\<lambda>p. judge now (config m) p = Fail"]
    unfolding pend map_of_foldl_delete map_of_map_key
    by (auto simp del: map_of_eq_Some_iff set_map set_filter split: option.split verdict.split)
qed

lemma check_timeout_retries:
  assumes "ack_inv m"
  shows "set (snd (check_timeout now m)) =
    {pa_message p | i p. map_of (pending m) i = Some p \<and> judge now (config m) p = Retry}"
  using assms by (force simp: check_timeout_def Let_def ack_inv_def)

lemma check_timeout_failed:
  assumes "ack_inv m"
  shows "failed (fst (check_timeout now m)) = failed m @
    map (\<lambda>(i, p). (pa_message p, max_retries_reached)) (filter (\<lambda>(i, p). judge now (config m) p = Fail) (pending m))"
proof -
  let ?F = "filter (\<lambda>(i, p). judge now (config m) p = Fail) (pending m)"
  let ?p1 = "map (\<lambda>(i, p). (i, if judge now (config m) p = Retry then retried now (config m) p else p)) (pending m)"
  have "\<forall>(i, p) \<in> set ?F. map_of ?p1 i = Some p"
    unfolding map_of_map_key using assms by (auto simp: ack_inv_def)
  from map_filter_keys [OF this] show ?thesis
    by (simp add: check_timeout_def Let_def)
qed

lemma check_timeout_inv: "ack_inv m \<Longrightarrow> ack_inv (fst (check_timeout now m))"
proof -
  assume inv: "ack_inv m"
  have "distinct (map fst (pending (fst (check_timeout now m))))"
    using inv by (simp add: check_timeout_def Let_def ack_inv_def distinct_foldl_delete)
  moreover have "msg_id (header (pa_message p)) = i"
    if "map_of (pending (fst (check_timeout now m))) i = Some p" for i p
    using that inv unfolding check_timeout_pending [OF inv]
    by (auto simp: ack_inv_def retried_def simp del: map_of_eq_Some_iff split: option.splits verdict.splits)
  ultimately show ?thesis unfolding ack_inv_def by blast
qed

lemma record_sent_inv: "ack_inv m \<Longrightarrow> ack_inv (record_sent now m msg)"
  by (auto simp: ack_inv_def record_sent_def distinct_update update_conv' simp del: map_of_eq_Some_iff split: if_splits)

lemma handle_ack_inv: "ack_inv m \<Longrightarrow> ack_inv (fst (handle_ack now m i))"
  by (auto simp: ack_inv_def handle_ack_def distinct_delete delete_conv' simp del: map_of_eq_Some_iff
      split: if_splits option.split)

section \<open>Runs of the manager beside its retry task\<close>

datatype ack_event =
    Sent nat message
  | Acked nat ustr
  | Turn nat

text \<open>The task runs until its channel is closed; after that there are no more turns.\<close>

fun ack_step :: "(message \<Rightarrow> bool) \<Rightarrow> ack_manager \<times> bool \<Rightarrow> ack_event \<Rightarrow> ack_manager \<times> bool" where
  "ack_step open_ch (m, alive) (Sent now msg) = (record_sent now m msg, alive)"
| "ack_step open_ch (m, alive) (Acked now i) = (fst (handle_ack now m i), alive)"
| "ack_step open_ch (m, alive) (Turn now) =
     (if alive then (let (m', out, go) = retry_turn open_ch now m in (m', go)) else (m, False))"

definition ack_run :: "(message \<Rightarrow> bool) \<Rightarrow> ack_config \<Rightarrow> ack_event list \<Rightarrow> ack_manager \<times> bool" where
  "ack_run open_ch c es = foldl (ack_step open_ch) (ack_manager_new c, True) es"

definition no_retries_counted :: "ack_manager \<Rightarrow> bool" where
  "no_retries_counted m \<longleftrightarrow> (\<forall>i p. map_of (pending m) i = Some p \<longrightarrow> retry_count p = 0)"

lemma resend_facts:
  assumes "resend open_ch now m msgs = (m', out, go)" "ack_inv m"
  shows "ack_inv m' \<and> config m' = config m \<and> failed m' = failed m \<and>
    (go \<longrightarrow> (\<forall>i p. map_of (pending m') i = Some p \<longrightarrow>
       retry_count p = 0 \<or> i \<notin> (msg_id \<circ> header) ` set msgs \<and> map_of (pending m) i = Some p))"
  using assms
proof (induction msgs arbitrary: m m' out go)
  case (Cons msg msgs)
  let ?m = "record_sent now m msg"
  have inv: "ack_inv ?m" using Cons.prems(2) by (rule record_sent_inv)
  have s: "config ?m = config m" "failed ?m = failed m"
    "map_of (pending ?m) i = Some p \<Longrightarrow> retry_count p = 0 \<or> i \<noteq> msg_id (header msg) \<and> map_of (pending m) i = Some p" for i p
    by (auto simp: record_sent_def update_conv' simp del: map_of_eq_Some_iff split: if_splits)
  show ?case
  proof (cases "open_ch msg")
    case True
    obtain out' where r: "resend open_ch now ?m msgs = (m', out', go)"
      using Cons.prems(1) True by (auto simp: Let_def split: prod.splits)
    have "retry_count p = 0 \<or> i \<notin> (msg_id \<circ> header) ` set (msg # msgs) \<and> map_of (pending m) i = Some p"
      if "go" "map_of (pending m') i = Some p" for i p
    proof -
      have "retry_count p = 0 \<or> i \<notin> (msg_id \<circ> header) ` set msgs \<and> map_of (pending ?m) i = Some p"
        using Cons.IH [OF r inv] that by blast
      with s(3) [of i p] show ?thesis by auto
    qed
    then show ?thesis using Cons.IH [OF r inv] s(1,2) by auto
  next
    case False
    then show ?thesis using Cons.prems(1) inv s by auto
  qed
qed simp

lemma retry_turn_facts:
  assumes "retry_turn open_ch now m = (m', out, go)" "ack_inv m" "no_retries_counted m"
    and "0 < max_retries (config m)"
  shows "ack_inv m' \<and> config m' = config m \<and> failed m' = failed m \<and> (go \<longrightarrow> no_retries_counted m')"
proof -
  obtain m1 rs where 1: "check_timeout now m = (m1, rs)" by fastforce
  obtain m2 out2 go2 where 2: "resend open_ch now m1 rs = (m2, out2, go2)" by (cases "resend open_ch now m1 rs")
  have inv1: "ack_inv m1" using check_timeout_inv [OF assms(2), of now] 1 by simp
  have nofail: "judge now (config m) p \<noteq> Fail" if "map_of (pending m) i = Some p" for i p
    using assms(3,4) that by (auto simp: judge_def no_retries_counted_def simp del: map_of_eq_Some_iff)
  have f1: "config m1 = config m" "failed m1 = failed m"
  proof -
    have "filter (\<lambda>(i, p). judge now (config m) p = Fail) (pending m) = []"
      using nofail assms(2) by (force simp: filter_empty_conv ack_inv_def)
    then show "failed m1 = failed m" using check_timeout_failed [OF assms(2), of now] 1 by simp
    show "config m1 = config m" using check_timeout_config(1) [of now m] 1 by simp
  qed
  have p1: "retry_count p = 0 \<or> i \<in> (msg_id \<circ> header) ` set rs" if m1: "map_of (pending m1) i = Some p" for i p
  proof -
    obtain q where q: "map_of (pending m) i = Some q" and
      j: "judge now (config m) q = Keep \<and> p = q \<or> judge now (config m) q = Retry \<and> p = retried now (config m) q"
      using m1 check_timeout_pending [OF assms(2), of now i] 1
      by (auto simp del: map_of_eq_Some_iff split: option.splits verdict.splits)
    have "retry_count q = 0" "msg_id (header (pa_message q)) = i"
      using q assms(2,3) unfolding no_retries_counted_def ack_inv_def by blast+
    moreover have "pa_message q \<in> set rs" if "judge now (config m) q = Retry"
      using check_timeout_retries [OF assms(2), of now] q that 1 by auto
    ultimately show ?thesis using j by (auto simp: image_iff)
  qed
  note r = resend_facts [OF 2 inv1]
  have "no_retries_counted m2" if go2
    unfolding no_retries_counted_def
  proof (intro allI impI)
    fix i p assume "map_of (pending m2) i = Some p"
    with r that have "retry_count p = 0 \<or> i \<notin> (msg_id \<circ> header) ` set rs \<and> map_of (pending m1) i = Some p" by blast
    with p1 show "retry_count p = 0" by blast
  qed
  moreover have "m' = (if go2 then cleanup_old_confirmed now m2 300 else m2)" "go = go2"
    using assms(1) 1 2 by (auto simp: retry_turn_def split: if_splits)
  ultimately show ?thesis
    using r f1 by (simp add: cleanup_old_confirmed_def ack_inv_def no_retries_counted_def del: map_of_eq_Some_iff)
qed

lemma ack_step_facts:
  assumes "ack_step open_ch (m, alive) e = (m', alive')" "ack_inv m" "alive \<longrightarrow> no_retries_counted m"
    and "0 < max_retries (config m)" "failed m = []"
  shows "ack_inv m' \<and> (alive' \<longrightarrow> no_retries_counted m') \<and> config m' = config m \<and> failed m' = []"
proof (cases e)
  case (Sent now msg)
  then show ?thesis using assms record_sent_inv [OF assms(2)]
    by (auto simp: record_sent_def no_retries_counted_def update_conv' simp del: map_of_eq_Some_iff split: if_splits)
next
  case (Acked now i)
  then show ?thesis using assms handle_ack_inv [OF assms(2), of now i]
    by (auto simp: handle_ack_def no_retries_counted_def delete_conv' simp del: map_of_eq_Some_iff
        split: if_splits option.splits)
next
  case (Turn now)
  show ?thesis
  proof (cases alive)
    case True
    obtain out where "retry_turn open_ch now m = (m', out, alive')"
      using assms(1) Turn True by (auto split: prod.splits)
    from retry_turn_facts [OF this assms(2) _ assms(4)] show ?thesis using assms True by auto
  qed (use assms Turn in auto)
qed

lemma ack_run_facts:
  assumes "0 < max_retries c" "ack_run open_ch c es = (m, alive)"
  shows "ack_inv m \<and> (alive \<longrightarrow> no_retries_counted m) \<and> config m = c \<and> failed m = []"
  using assms(2)
proof (induction es arbitrary: m alive rule: rev_induct)
  case Nil
  then show ?case by (auto simp: ack_run_def ack_manager_new_def ack_inv_def no_retries_counted_def)
next
  case (snoc e es)
  obtain m1 a1 where 1: "ack_run open_ch c es = (m1, a1)" by fastforce
  then have "ack_step open_ch (m1, a1) e = (m, alive)" using snoc.prems by (simp add: ack_run_def)
  from ack_step_facts [OF this] snoc.IH [OF 1] assms(1) show ?case by auto
qed

section \<open>Properties\<close>

text \<open>
  The retry limit is never reached. With a positive number of retries configured, whatever
  messages are sent and acknowledged and however often the retry task runs, the list of failed
  messages stays empty: the task records each message it retries as newly sent, which sets its
  retry count back to zero, so a message that is never acknowledged is retried for ever.
\<close>

theorem retry_task_never_gives_up:
  assumes "0 < max_retries c"
  shows "get_failed_messages (fst (ack_run open_ch c es)) = []"
  using ack_run_facts [OF assms, of open_ch es] by (cases "ack_run open_ch c es") (auto simp: get_failed_messages_def)

theorem retry_task_never_gives_up_witness:
  "get_failed_messages (fst (ack_run (\<lambda>msg. True) ack_config_default [Sent 0 sample_message, Turn 31000000000])) = []"
  using retry_task_never_gives_up [of ack_config_default] by (simp add: ack_config_default_def)

text \<open>
  What one timeout check does to every pending message. It is left alone while its timeout
  or its retry time has not come, it is returned for a retry with its count raised while retries are
  left, and otherwise it leaves the table; the messages returned are exactly those retried, and the
  failed list grows by exactly those that left.
\<close>

theorem check_timeout_effect:
  assumes "ack_inv m"
  shows "map_of (pending (fst (check_timeout now m))) i =
      (case map_of (pending m) i of
         None \<Rightarrow> None
       | Some p \<Rightarrow> (case judge now (config m) p of
                     Keep \<Rightarrow> Some p | Retry \<Rightarrow> Some (retried now (config m) p) | Fail \<Rightarrow> None)) \<and>
    set (snd (check_timeout now m)) =
      {pa_message p | i p. map_of (pending m) i = Some p \<and> judge now (config m) p = Retry} \<and>
    set (failed (fst (check_timeout now m))) = set (failed m) \<union>
      {(pa_message p, max_retries_reached) | i p. map_of (pending m) i = Some p \<and> judge now (config m) p = Fail}"
proof -
  have "set (map (\<lambda>(i, p). (pa_message p, max_retries_reached)) (filter (\<lambda>(i, p). judge now (config m) p = Fail) (pending m))) =
      {(pa_message p, max_retries_reached) | i p. map_of (pending m) i = Some p \<and> judge now (config m) p = Fail}"
    using assms by (force simp: ack_inv_def)
  then show ?thesis
    using check_timeout_pending [OF assms] check_timeout_retries [OF assms] check_timeout_failed [OF assms] by simp
qed

theorem check_timeout_effect_witness:
  "set (snd (check_timeout 31000000000 (record_sent 0 (ack_manager_new ack_config_default) sample_message))) = {sample_message}"
proof -
  let ?m = "record_sent 0 (ack_manager_new ack_config_default) sample_message"
  have "ack_inv ?m" by (rule record_sent_inv) (simp add: ack_inv_def ack_manager_new_def)
  from check_timeout_effect [OF this, of 31000000000] show ?thesis
    by (auto simp: record_sent_def ack_manager_new_def ack_config_default_def judge_def secs_def ms_def
        calculate_retry_delay_def)
qed

end
