(* ===== verification/Text_Slices.thy ===== *)
theory Text_Slices
  imports UString
begin

text \<open>
  Slicing of strings by byte positions, which panics inside a character and beyond the end (here
  \<^const>\<open>None\<close>), and the decimal printer of unsigned numbers. Used by the
  components that cut tool outputs.
\<close>

fun byte_split :: "nat \<Rightarrow> ustr \<Rightarrow> (ustr \<times> ustr) option" where
  "byte_split n [] = (if n = 0 then Some ([], []) else None)"
| "byte_split n (c # s) =
     (if n = 0 then Some ([], c # s)
      else if utf8_len c \<le> n then map_option (\<lambda>(p, r). (c # p, r)) (byte_split (n - utf8_len c) s)
      else None)"

text \<open>\<^verbatim>\<open>&s[..n]\<close> and \<^verbatim>\<open>&s[n..]\<close>.\<close>

definition slice_to :: "nat \<Rightarrow> ustr \<Rightarrow> ustr option" where
  "slice_to n s = map_option fst (byte_split n s)"

definition slice_from :: "nat \<Rightarrow> ustr \<Rightarrow> ustr option" where
  "slice_from n s = map_option snd (byte_split n s)"

definition is_char_boundary :: "ustr \<Rightarrow> nat \<Rightarrow> bool" where
  "is_char_boundary s n \<longleftrightarrow> byte_split n s \<noteq> None"

lemma byte_len_0 [simp]: "byte_len s = 0 \<longleftrightarrow> s = []"
  by (cases s) auto

lemma byte_split_Some_iff: "byte_split n s = Some (p, r) \<longleftrightarrow> s = p @ r \<and> byte_len p = n"
proof (induction s arbitrary: n p)
  case (Cons c s)
  have "byte_split n (c # s) = Some (p, r) \<longleftrightarrow>
      (if n = 0 then p = [] \<and> r = c # s
       else utf8_len c \<le> n \<and> (\<exists>p'. p = c # p' \<and> byte_split (n - utf8_len c) s = Some (p', r)))"
    by auto
  also have "\<dots> \<longleftrightarrow> c # s = p @ r \<and> byte_len p = n"
    unfolding Cons.IH by (cases p) auto
  finally show ?case .
qed auto

lemma is_char_boundary_iff: "is_char_boundary s n \<longleftrightarrow> (\<exists>p r. s = p @ r \<and> byte_len p = n)"
  by (auto simp: is_char_boundary_def byte_split_Some_iff)

lemma slice_to_Some: "slice_to n s = Some p \<longleftrightarrow> (\<exists>r. s = p @ r) \<and> byte_len p = n"
  by (auto simp: slice_to_def byte_split_Some_iff)

lemma slice_from_Some: "slice_from n s = Some r \<longleftrightarrow> (\<exists>p. s = p @ r \<and> byte_len p = n)"
  by (auto simp: slice_from_def byte_split_Some_iff)

lemma slice_None_iff:
  "slice_to n s = None \<longleftrightarrow> \<not> is_char_boundary s n" "slice_from n s = None \<longleftrightarrow> \<not> is_char_boundary s n"
  unfolding slice_to_def slice_from_def is_char_boundary_def by (cases "byte_split n s", auto)+

text \<open>Plain ASCII has a boundary everywhere.\<close>

definition ascii :: "ustr \<Rightarrow> bool" where
  "ascii s \<longleftrightarrow> (\<forall>c \<in> set s. c < 128)"

lemma byte_len_ascii: "ascii s \<Longrightarrow> byte_len s = length s"
  by (induction s) (auto simp: ascii_def utf8_len_def)

lemma ascii_boundary:
  assumes "ascii s" "n \<le> byte_len s"
  shows "is_char_boundary s n"
proof -
  have "ascii (take n s)" using assms(1) by (auto simp: ascii_def dest: in_set_takeD)
  then have "byte_len (take n s) = n" using assms by (simp add: byte_len_ascii)
  then show ?thesis unfolding is_char_boundary_iff by (metis append_take_drop_id)
qed

text \<open>Text of one character width has boundaries at the multiples of the width only.\<close>

lemma byte_len_uniform: "\<forall>c \<in> set s. utf8_len c = w \<Longrightarrow> byte_len s = w * length s"
  by (induction s) auto

lemma uniform_boundary:
  assumes "\<forall>c \<in> set s. utf8_len c = w" "is_char_boundary s n"
  shows "w dvd n"
proof -
  obtain p r where "s = p @ r" "byte_len p = n" using assms(2) by (auto simp: is_char_boundary_iff)
  then show ?thesis using assms(1) byte_len_uniform [of p w] by auto
qed

section \<open>Decimal numbers\<close>

fun dec :: "nat \<Rightarrow> ustr" where
  "dec n = (if n < 10 then [48 + n] else dec (n div 10) @ [48 + n mod 10])"

declare dec.simps [simp del]

lemma ascii_dec: "ascii (dec n)"
  by (induction n rule: dec.induct) (subst dec.simps, auto simp: ascii_def)

lemma length_dec: "n < 10 ^ k \<Longrightarrow> 0 < k \<Longrightarrow> length (dec n) \<le> k"
proof (induction n arbitrary: k rule: dec.induct)
  case (1 n)
  show ?case
  proof (cases "n < 10")
    case True
    then show ?thesis using 1 by (subst dec.simps) simp
  next
    case False
    then obtain j where k: "k = Suc (Suc j)" using 1(2,3) by (cases k; cases "k - 1") auto
    have "n div 10 < 10 ^ Suc j" using 1(2) by (simp add: k div_less_iff_less_mult mult.commute)
    then show ?thesis using 1(1) [OF False, of "Suc j"] False by (subst dec.simps) (simp add: k)
  qed
qed

end
