(* ===== verification/Agent_Loop.thy ===== *)
theory Agent_Loop
  imports Json Text_Slices F64 "HOL-Library.Sublist"
begin

text \<open>
  The control of an agent's turns: the repetition detector of
  \<^verbatim>\<open>crates/codegen/ccore/src/agent/doom_loop.rs\<close> and the state machine of \<^verbatim>\<open>loop_state.rs\<close>. The order
  in which the detector's hash map yields its keys is an argument of \<open>detect\<close>; instants are
  nanoseconds, counters wrap at their width, and the derived debug printer of \<^verbatim>\<open>DoneReason\<close> is the
  parameter \<open>dbg\<close>.
\<close>

section \<open>The repetition detector\<close>

record tool_call_signature =
  sig_tool_name :: ustr
  args_hash :: nat

datatype escape_action = InjectHint ustr | DisableTool ustr | DegradeModel

record doom_loop_detector =
  history :: "tool_call_signature list"
  dl_window_size :: nat
  repeat_threshold :: nat
  model_degrade_level :: nat

record doom_loop_result =
  detected :: bool
  repeated_tool :: "ustr option"
  repeat_count :: nat
  escape_actions :: "escape_action list"

definition doom_loop_new :: "nat \<Rightarrow> nat \<Rightarrow> doom_loop_detector" where
  "doom_loop_new w t = \<lparr>history = [], dl_window_size = w, repeat_threshold = t, model_degrade_level = 0\<rparr>"

definition set_repeat_threshold :: "nat \<Rightarrow> doom_loop_detector \<Rightarrow> doom_loop_detector" where
  "set_repeat_threshold t d = d\<lparr>repeat_threshold := t\<rparr>"

definition dl_record :: "ustr \<Rightarrow> nat \<Rightarrow> doom_loop_detector \<Rightarrow> doom_loop_detector" where
  "dl_record name h d =
     (let hist = history d @ [\<lparr>sig_tool_name = name, args_hash = h\<rparr>]
      in d\<lparr>history := if dl_window_size d < length hist then tl hist else hist\<rparr>)"

definition not_detected :: doom_loop_result where
  "not_detected = \<lparr>detected = False, repeated_tool = None, repeat_count = 0, escape_actions = []\<rparr>"

text \<open>\<^verbatim>\<open>Iterator::max_by_key\<close>: the last of the elements with the largest key.\<close>

fun max_by_key :: "('a \<Rightarrow> nat) \<Rightarrow> 'a list \<Rightarrow> 'a option" where
  "max_by_key f [] = None"
| "max_by_key f (x # xs) =
     (case max_by_key f xs of None \<Rightarrow> Some x | Some y \<Rightarrow> if f y < f x then Some x else Some y)"

text \<open>
  The hint, in Chinese: "doom loop detected: tool \<open>name\<close> was called \<open>n\<close> times; try another way and do
  not repeat the same operation".
\<close>

definition doom_hint :: "ustr \<Rightarrow> nat \<Rightarrow> ustr" where
  "doom_hint name n =
     [26816, 27979, 21040] @ u '' Doom Loop'' @ [65306, 24037, 20855] @ u '' '' @ name @ u '' '' @
     [37325, 22797, 35843, 29992] @ u '' '' @ dec n @ u '' '' @
     [27425, 12290, 35831, 25442, 19968, 31181, 26041, 27861, 65292, 36991, 20813, 37325, 22797, 30456,
      21516, 30340, 25805, 20316, 12290]"

definition detect :: "tool_call_signature list \<Rightarrow> doom_loop_detector
    \<Rightarrow> doom_loop_detector \<times> doom_loop_result" where
  "detect keys d =
     (if length (history d) < repeat_threshold d then (d, not_detected)
      else case max_by_key (count_list (history d)) keys of
        None \<Rightarrow> (d, not_detected)
      | Some sig \<Rightarrow>
          (let n = count_list (history d) sig
           in if repeat_threshold d \<le> n then
                (let d' = (if model_degrade_level d < 3
                           then d\<lparr>model_degrade_level := model_degrade_level d + 1\<rparr> else d);
                     name = sig_tool_name sig
                 in (d', \<lparr>detected = True, repeated_tool = Some name, repeat_count = n,
                          escape_actions = [InjectHint (doom_hint name n), DisableTool name] @
                            (if model_degrade_level d' < 3 then [DegradeModel] else [])\<rparr>))
              else (d, not_detected)))"

text \<open>Reasoning effort in tenths.\<close>

definition current_reasoning_effort :: "doom_loop_detector \<Rightarrow> nat option" where
  "current_reasoning_effort d =
     (if model_degrade_level d = 0 then None else if model_degrade_level d = 1 then Some 5 else Some 2)"

definition dl_reset :: "doom_loop_detector \<Rightarrow> doom_loop_detector" where
  "dl_reset d = d\<lparr>history := []\<rparr>"

definition reset_degrade_level :: "doom_loop_detector \<Rightarrow> doom_loop_detector" where
  "reset_degrade_level d = d\<lparr>model_degrade_level := 0\<rparr>"

section \<open>The state machine\<close>

datatype agent_state = Idle | Thinking | ToolCalling | AwaitingApproval | Outputting | Done | Error

datatype done_reason =
    ModelEndTurn
  | DUserCancelled
  | DBudgetExhausted
  | ToolBudgetExhausted
  | DLoopDetected ustr nat
  | DConsecutiveFailures nat
  | PermissionDenied ustr
  | ModelRefusal
  | DMaxTurnsReached

datatype budget_kind = Token | ToolCall

datatype tool_execution_outcome = Success | Failure ustr

datatype loop_event =
    LLMResponse (stop_reason: ustr) (token_used: nat) (tool_calls: "(ustr \<times> ustr \<times> json) list")
  | ToolExecutionCompleted ustr ustr (outcome: tool_execution_outcome)
  | PermissionDecision ustr ustr bool
  | UserCancelled
  | BudgetExhausted budget_kind
  | LoopDetected ustr nat
  | ConsecutiveFailures nat
  | MaxTurnsReached

datatype loop_action =
    CallLLM
  | ExecuteTool ustr ustr
  | WaitForPermission ustr ustr
  | EndTurn done_reason
  | ContinueLoop

definition from_doom_loop :: "doom_loop_result \<Rightarrow> loop_event option" where
  "from_doom_loop r =
     (if detected r
      then Some (LoopDetected (case repeated_tool r of Some n \<Rightarrow> n | None \<Rightarrow> []) (repeat_count r)) else None)"

record trajectory_step =
  step_type :: ustr
  content :: ustr

record task_trajectory =
  task :: ustr
  steps :: "trajectory_step list"
  success :: bool
  failure_reason :: "ustr option"

record loop_state_machine =
  lsm_state :: agent_state
  lsm_done_reason :: "done_reason option"
  turn_count :: nat
  tokens_used :: nat
  consecutive_failures :: nat
  created_at :: nat
  collected_steps :: "trajectory_step list"
  task_description :: "ustr option"

record loop_state_snapshot =
  snap_state :: agent_state
  snap_turn_count :: nat
  snap_tokens_used :: nat
  snap_consecutive_failures :: nat
  elapsed_secs :: nat
  snap_done_reason :: "done_reason option"

definition loop_state_new :: "nat \<Rightarrow> loop_state_machine" where
  "loop_state_new now = \<lparr>lsm_state = Idle, lsm_done_reason = None, turn_count = 0, tokens_used = 0,
     consecutive_failures = 0, created_at = now, collected_steps = [], task_description = None\<rparr>"

definition to_snapshot :: "nat \<Rightarrow> loop_state_machine \<Rightarrow> loop_state_snapshot" where
  "to_snapshot now m = \<lparr>snap_state = lsm_state m, snap_turn_count = turn_count m,
     snap_tokens_used = tokens_used m, snap_consecutive_failures = consecutive_failures m mod 2 ^ 32,
     elapsed_secs = (now - created_at m) div 1000000000, snap_done_reason = lsm_done_reason m\<rparr>"

definition restore_from_snapshot :: "nat \<Rightarrow> loop_state_snapshot \<Rightarrow> loop_state_machine \<Rightarrow> loop_state_machine" where
  "restore_from_snapshot now s m = m\<lparr>lsm_state := snap_state s, turn_count := snap_turn_count s,
     tokens_used := snap_tokens_used s, consecutive_failures := snap_consecutive_failures s,
     lsm_done_reason := snap_done_reason s, created_at := now\<rparr>"

definition set_task_description :: "ustr \<Rightarrow> loop_state_machine \<Rightarrow> loop_state_machine" where
  "set_task_description desc m = m\<lparr>task_description := Some desc\<rparr>"

definition record_step :: "ustr \<Rightarrow> ustr \<Rightarrow> loop_state_machine \<Rightarrow> loop_state_machine" where
  "record_step ty c m = m\<lparr>collected_steps := collected_steps m @ [\<lparr>step_type = ty, content = c\<rparr>]\<rparr>"

definition extract_trajectory :: "(done_reason \<Rightarrow> ustr) \<Rightarrow> loop_state_machine \<Rightarrow> task_trajectory" where
  "extract_trajectory dbg m =
     (let ok = (lsm_done_reason m = Some ModelEndTurn)
      in \<lparr>task = (case task_description m of Some d \<Rightarrow> d | None \<Rightarrow> []), steps = collected_steps m, success = ok,
          failure_reason = (if ok then None else map_option dbg (lsm_done_reason m))\<rparr>)"

text \<open>The float 0.8 is $3602879701896397 / 2^{52}$.\<close>

definition AUTO_COMPACT_THRESHOLD_RATIO :: rat where
  "AUTO_COMPACT_THRESHOLD_RATIO = 3602879701896397 / 4503599627370496"

definition should_auto_compact :: "nat \<Rightarrow> nat \<Rightarrow> bool" where
  "should_auto_compact total_tokens context_window \<longleftrightarrow>
     context_window \<noteq> 0 \<and> AUTO_COMPACT_THRESHOLD_RATIO \<le> f64_div total_tokens context_window"

definition end_with :: "agent_state \<Rightarrow> done_reason \<Rightarrow> loop_state_machine \<Rightarrow> loop_state_machine \<times> loop_action" where
  "end_with s r m = (m\<lparr>lsm_state := s, lsm_done_reason := Some r\<rparr>, EndTurn r)"

definition on_response :: "ustr \<Rightarrow> (ustr \<times> ustr \<times> json) list \<Rightarrow> loop_state_machine
    \<Rightarrow> loop_state_machine \<times> loop_action" where
  "on_response stop calls m =
     (if stop = u ''end_turn'' \<or> stop = u ''stop'' then end_with Done ModelEndTurn m
      else if stop = u ''tool_use'' then
        (case calls of
           (i, name, inp) # _ \<Rightarrow> (m\<lparr>lsm_state := AwaitingApproval\<rparr>, WaitForPermission name i)
         | [] \<Rightarrow> end_with Done ModelEndTurn m)
      else if stop = u ''max_tokens'' then
        (case calls of
           (i, name, inp) # _ \<Rightarrow> (m\<lparr>lsm_state := AwaitingApproval\<rparr>, WaitForPermission name i)
         | [] \<Rightarrow> (m\<lparr>lsm_state := Thinking\<rparr>, CallLLM))
      else (m\<lparr>lsm_state := Thinking\<rparr>, CallLLM))"

fun transition :: "loop_state_machine \<Rightarrow> loop_event \<Rightarrow> loop_state_machine \<times> loop_action" where
  "transition m (LLMResponse stop used calls) =
     on_response stop calls
       (m\<lparr>tokens_used := (tokens_used m + used) mod 2 ^ 64, turn_count := (turn_count m + 1) mod 2 ^ 32\<rparr>)"
| "transition m (ToolExecutionCompleted i name r) =
     (m\<lparr>consecutive_failures := (case r of Success \<Rightarrow> 0 | Failure e \<Rightarrow> (consecutive_failures m + 1) mod 2 ^ 64),
        lsm_state := Thinking\<rparr>, CallLLM)"
| "transition m (PermissionDecision name i allowed) =
     (if allowed then (m\<lparr>lsm_state := ToolCalling\<rparr>, ExecuteTool name i)
      else end_with Done (PermissionDenied name) m)"
| "transition m UserCancelled = end_with Done DUserCancelled m"
| "transition m (BudgetExhausted kind) =
     end_with Done (case kind of Token \<Rightarrow> DBudgetExhausted | ToolCall \<Rightarrow> ToolBudgetExhausted) m"
| "transition m (LoopDetected name n) = end_with Done (DLoopDetected name n) m"
| "transition m (ConsecutiveFailures n) = end_with Error (DConsecutiveFailures n) m"
| "transition m MaxTurnsReached = end_with Done DMaxTurnsReached m"

definition lsm_reset :: "nat \<Rightarrow> loop_state_machine \<Rightarrow> loop_state_machine" where
  "lsm_reset now m = \<lparr>lsm_state = Idle, lsm_done_reason = None, turn_count = 0, tokens_used = 0,
     consecutive_failures = 0, created_at = now, collected_steps = [], task_description = None\<rparr>"

section \<open>What the detector detects\<close>

definition calls_recorded :: "(ustr \<times> nat) list \<Rightarrow> doom_loop_detector \<Rightarrow> doom_loop_detector" where
  "calls_recorded cs d = foldl (\<lambda>d (name, h). dl_record name h d) d cs"

definition sig_of :: "ustr \<times> nat \<Rightarrow> tool_call_signature" where
  "sig_of c = \<lparr>sig_tool_name = fst c, args_hash = snd c\<rparr>"

definition last_n :: "nat \<Rightarrow> 'a list \<Rightarrow> 'a list" where
  "last_n n xs = drop (length xs - n) xs"

lemma last_n_snoc: "(if w < length (last_n w xs @ [x]) then tl (last_n w xs @ [x]) else last_n w xs @ [x]) = last_n w (xs @ [x])"
proof (cases "w \<le> length xs")
  case True
  have "last_n w xs @ [x] = drop (length xs - w) (xs @ [x])" using True by (simp add: last_n_def)
  then have "tl (last_n w xs @ [x]) = drop (length (xs @ [x]) - w) (xs @ [x])"
    using True by (simp add: drop_Suc tl_drop Suc_diff_le del: drop_append)
  then show ?thesis using True by (simp add: last_n_def)
qed (simp add: last_n_def)

lemma calls_recorded_snoc: "calls_recorded (cs @ [c]) d = dl_record (fst c) (snd c) (calls_recorded cs d)"
  by (simp add: calls_recorded_def case_prod_unfold)

lemma dl_record_simps:
  "history (dl_record (fst c) (snd c) d) =
     (if dl_window_size d < length (history d @ [sig_of c]) then tl (history d @ [sig_of c]) else history d @ [sig_of c])"
  "dl_window_size (dl_record n h d) = dl_window_size d" "repeat_threshold (dl_record n h d) = repeat_threshold d"
  by (simp_all add: dl_record_def sig_of_def Let_def)

lemma calls_recorded_facts:
  "history (calls_recorded cs (doom_loop_new w t)) = last_n w (map sig_of cs) \<and>
   dl_window_size (calls_recorded cs (doom_loop_new w t)) = w \<and>
   repeat_threshold (calls_recorded cs (doom_loop_new w t)) = t"
proof (induction cs rule: rev_induct)
  case Nil
  then show ?case by (simp add: calls_recorded_def doom_loop_new_def last_n_def)
next
  case (snoc c cs)
  then show ?case
    using last_n_snoc [of w "map sig_of cs" "sig_of c"]
    by (auto simp: calls_recorded_snoc dl_record_simps split: if_splits)
qed

lemma max_by_key_None: "max_by_key f xs = None \<longleftrightarrow> xs = []"
  by (cases xs) (auto split: option.split)

lemma max_by_key_max:
  "max_by_key f xs = Some x \<Longrightarrow> x \<in> set xs \<and> (\<forall>y \<in> set xs. f y \<le> f x)"
proof (induction xs arbitrary: x)
  case (Cons a xs)
  then show ?case
    by (cases "max_by_key f xs") (auto simp: max_by_key_None split: if_splits)
qed simp

lemma max_by_key_counts:
  assumes "set keys = set hist" "max_by_key (count_list hist) keys = Some s"
  shows "count_list hist s' \<le> count_list hist s"
  using max_by_key_max [OF assms(2)] assms(1) by (cases "s' \<in> set hist") (auto simp: count_list_0_iff)

lemma detect_detected:
  assumes "set keys = set (history d)" "0 < repeat_threshold d"
  shows "detected (snd (detect keys d)) \<longleftrightarrow> (\<exists>s. repeat_threshold d \<le> count_list (history d) s)"
proof (cases "length (history d) < repeat_threshold d \<or> keys = []")
  case True
  have "count_list (history d) s < repeat_threshold d" for s
  proof (cases "keys = []")
    case True
    then show ?thesis using assms by simp
  next
    case False
    then show ?thesis using True count_le_length [of "history d" s] by simp
  qed
  moreover have "\<not> detected (snd (detect keys d))"
    using True by (auto simp: detect_def not_detected_def)
  ultimately show ?thesis by (simp add: not_le)
next
  case False
  then obtain s where s: "max_by_key (count_list (history d)) keys = Some s"
    using max_by_key_None [of _ keys] by fastforce
  have "detected (snd (detect keys d)) \<longleftrightarrow> repeat_threshold d \<le> count_list (history d) s"
    using False s by (simp add: detect_def not_detected_def Let_def)
  then show ?thesis using max_by_key_counts [OF assms(1) s] le_trans by blast
qed

lemma detect_reported:
  assumes "set keys = set (history d)" "detected (snd (detect keys d))"
  shows "\<exists>s. repeated_tool (snd (detect keys d)) = Some (sig_tool_name s) \<and>
    repeat_count (snd (detect keys d)) = count_list (history d) s \<and>
    (\<forall>s'. count_list (history d) s' \<le> count_list (history d) s)"
proof -
  obtain s where s: "max_by_key (count_list (history d)) keys = Some s"
    "repeat_threshold d \<le> count_list (history d) s" "\<not> length (history d) < repeat_threshold d"
    using assms(2) by (auto simp: detect_def not_detected_def Let_def split: if_splits option.splits)
  then show ?thesis using max_by_key_counts [OF assms(1) s(1)] by (intro exI [of _ s]) (simp add: detect_def Let_def)
qed

text \<open>
  C32. The repetition detector is exact. After any calls, whatever order its hash map is read in, it
  reports a loop exactly when some call, name and arguments together, occurs at least the threshold
  number of times among the last calls that fit the window, and it names the tool of a most frequent one
  with the number of its occurrences.
\<close>

theorem doom_loop_detects_iff:
  assumes "0 < t" and "set keys = set (last_n w (map sig_of cs))"
    and "r = snd (detect keys (calls_recorded cs (doom_loop_new w t)))"
  shows "(detected r \<longleftrightarrow> (\<exists>s. t \<le> count_list (last_n w (map sig_of cs)) s)) \<and>
    (detected r \<longrightarrow> (\<exists>s. repeated_tool r = Some (sig_tool_name s) \<and>
       repeat_count r = count_list (last_n w (map sig_of cs)) s \<and>
       (\<forall>s'. count_list (last_n w (map sig_of cs)) s' \<le> count_list (last_n w (map sig_of cs)) s)))"
  using detect_detected [of keys "calls_recorded cs (doom_loop_new w t)"]
    detect_reported [of keys "calls_recorded cs (doom_loop_new w t)"] assms
  by (simp add: calls_recorded_facts)

theorem doom_loop_detects_iff_witness:
  "detected (snd (detect [sig_of (u ''read'', 7)]
     (calls_recorded [(u ''read'', 7), (u ''read'', 7), (u ''read'', 7)] (doom_loop_new 10 3))))"
proof -
  let ?cs = "[(u ''read'', 7), (u ''read'', 7), (u ''read'', 7)]"
  have "3 \<le> count_list (last_n 10 (map sig_of ?cs)) (sig_of (u ''read'', 7))" by (simp add: last_n_def)
  then show ?thesis
    using doom_loop_detects_iff [of 3 "[sig_of (u ''read'', 7)]" 10 ?cs, OF _ _ refl]
    by (auto simp: last_n_def)
qed

section \<open>Runs of the state machine\<close>

fun loop_run :: "loop_state_machine \<Rightarrow> loop_event list \<Rightarrow> loop_state_machine \<times> loop_action list" where
  "loop_run m [] = (m, [])"
| "loop_run m (e # es) =
     (let (m1, a) = transition m e; (m2, as) = loop_run m1 es in (m2, a # as))"

fun ends :: "loop_action \<Rightarrow> done_reason option" where
  "ends (EndTurn r) = Some r"
| "ends _ = None"

definition responses :: "loop_event list \<Rightarrow> nat" where
  "responses es = length (filter is_LLMResponse es)"

definition tokens_of :: "loop_event list \<Rightarrow> nat" where
  "tokens_of es = sum_list (map token_used (filter is_LLMResponse es))"

definition failures_in_a_row :: "loop_event list \<Rightarrow> nat" where
  "failures_in_a_row es =
     length (takeWhile (\<lambda>e. outcome e \<noteq> Success) (filter is_ToolExecutionCompleted (rev es)))"

definition last_end :: "loop_action list \<Rightarrow> done_reason option" where
  "last_end as = (case List.map_filter ends as of [] \<Rightarrow> None | rs \<Rightarrow> Some (last rs))"

lemma loop_run_snoc:
  "loop_run m (es @ [e]) =
     (let (m1, as) = loop_run m es; (m2, a) = transition m1 e in (m2, as @ [a]))"
  by (induction es arbitrary: m) (simp_all add: case_prod_unfold Let_def)

lemma last_end_snoc: "last_end (as @ [a]) = (case ends a of Some r \<Rightarrow> Some r | None \<Rightarrow> last_end as)"
proof (cases "ends a")
  case (Some r)
  then obtain y ys where "List.map_filter ends (as @ [a]) = y # ys" "last (y # ys) = r"
    by (cases "List.map_filter ends as @ [r]") (auto simp: List.map_filter_def dest: arg_cong [where f = last])
  with Some show ?thesis by (simp add: last_end_def)
qed (simp add: last_end_def List.map_filter_def)

lemma transition_end:
  "(ends (snd (transition m e)) = None \<longleftrightarrow> lsm_state (fst (transition m e)) \<notin> {Done, Error}) \<and>
   lsm_done_reason (fst (transition m e)) =
     (case ends (snd (transition m e)) of Some r \<Rightarrow> Some r | None \<Rightarrow> lsm_done_reason m)"
  by (cases e) (simp_all add: on_response_def end_with_def del: u_Cons split: list.split)

lemma on_response_counters:
  "turn_count (fst (on_response s c m)) = turn_count m" "tokens_used (fst (on_response s c m)) = tokens_used m"
  "consecutive_failures (fst (on_response s c m)) = consecutive_failures m"
  by (simp_all add: on_response_def end_with_def del: u_Cons split: list.split)

lemma transition_counters:
  "turn_count (fst (transition m e)) = (if is_LLMResponse e then (turn_count m + 1) mod 2 ^ 32 else turn_count m)"
  "tokens_used (fst (transition m e)) =
     (if is_LLMResponse e then (tokens_used m + token_used e) mod 2 ^ 64 else tokens_used m)"
  "consecutive_failures (fst (transition m e)) =
     (if is_ToolExecutionCompleted e
      then (if outcome e = Success then 0 else (consecutive_failures m + 1) mod 2 ^ 64) else consecutive_failures m)"
  by (cases e; simp add: on_response_counters end_with_def split: tool_execution_outcome.split)+

lemma loop_run_last:
  "loop_run m (es @ [e]) =
     (fst (transition (fst (loop_run m es)) e), snd (loop_run m es) @ [snd (transition (fst (loop_run m es)) e)])"
  by (simp add: loop_run_snoc case_prod_unfold Let_def)

lemma counts_snoc:
  "responses (es @ [e]) = (if is_LLMResponse e then responses es + 1 else responses es)"
  "tokens_of (es @ [e]) = (if is_LLMResponse e then tokens_of es + token_used e else tokens_of es)"
  "failures_in_a_row (es @ [e]) =
     (if is_ToolExecutionCompleted e then if outcome e = Success then 0 else failures_in_a_row es + 1
      else failures_in_a_row es)"
  by (simp_all add: responses_def tokens_of_def failures_in_a_row_def)

lemma loop_run_counters:
  "turn_count (fst (loop_run (loop_state_new now) es)) = responses es mod 2 ^ 32"
  "tokens_used (fst (loop_run (loop_state_new now) es)) = tokens_of es mod 2 ^ 64"
  "consecutive_failures (fst (loop_run (loop_state_new now) es)) = failures_in_a_row es mod 2 ^ 64"
  "lsm_done_reason (fst (loop_run (loop_state_new now) es)) = last_end (snd (loop_run (loop_state_new now) es))"
proof (induction es rule: rev_induct)
  case Nil
  show "turn_count (fst (loop_run (loop_state_new now) [])) = responses [] mod 2 ^ 32"
    "tokens_used (fst (loop_run (loop_state_new now) [])) = tokens_of [] mod 2 ^ 64"
    "consecutive_failures (fst (loop_run (loop_state_new now) [])) = failures_in_a_row [] mod 2 ^ 64"
    "lsm_done_reason (fst (loop_run (loop_state_new now) [])) = last_end (snd (loop_run (loop_state_new now) []))"
    by (simp_all add: loop_state_new_def responses_def tokens_of_def failures_in_a_row_def last_end_def List.map_filter_def)
next
  case (snoc e es)
  show "turn_count (fst (loop_run (loop_state_new now) (es @ [e]))) = responses (es @ [e]) mod 2 ^ 32"
    unfolding loop_run_last fst_conv transition_counters counts_snoc snoc
    by (simp only: mod_add_left_eq if_distrib [where f = "\<lambda>x. x mod _"])
  show "tokens_used (fst (loop_run (loop_state_new now) (es @ [e]))) = tokens_of (es @ [e]) mod 2 ^ 64"
    unfolding loop_run_last fst_conv transition_counters counts_snoc snoc
    by (simp only: mod_add_left_eq if_distrib [where f = "\<lambda>x. x mod _"])
  show "consecutive_failures (fst (loop_run (loop_state_new now) (es @ [e]))) = failures_in_a_row (es @ [e]) mod 2 ^ 64"
    unfolding loop_run_last fst_conv transition_counters counts_snoc snoc
    by (simp only: mod_add_left_eq mod_0 if_distrib [where f = "\<lambda>x. x mod _"])
  show "lsm_done_reason (fst (loop_run (loop_state_new now) (es @ [e]))) = last_end (snd (loop_run (loop_state_new now) (es @ [e])))"
    unfolding loop_run_last fst_conv snd_conv last_end_snoc transition_end [THEN conjunct2] snoc(4) ..
qed

text \<open>
  C33. What the state machine knows after any events since its creation. Its turn counter is the
  number of model responses, its token counter their total, its failure counter the length of the
  last unbroken run of failed tools, each at the width of its type; the last action ended the turn
  exactly when the state is done or error; and the recorded reason is that of the most recent end.
\<close>

theorem loop_machine_bookkeeping:
  "turn_count (fst (loop_run (loop_state_new now) es)) = responses es mod 2 ^ 32 \<and>
   tokens_used (fst (loop_run (loop_state_new now) es)) = tokens_of es mod 2 ^ 64 \<and>
   consecutive_failures (fst (loop_run (loop_state_new now) es)) = failures_in_a_row es mod 2 ^ 64 \<and>
   lsm_done_reason (fst (loop_run (loop_state_new now) es)) = last_end (snd (loop_run (loop_state_new now) es)) \<and>
   (lsm_state (fst (loop_run (loop_state_new now) (es @ [e]))) \<in> {Done, Error} \<longleftrightarrow>
     ends (last (snd (loop_run (loop_state_new now) (es @ [e])))) \<noteq> None)"
  using loop_run_counters [of now es] transition_end [of "fst (loop_run (loop_state_new now) es)" e]
  by (auto simp: loop_run_last)

text \<open>
  A finished machine does not stay finished, and then its reason outlives its state: after the user
  cancelled, a late tool result takes the machine back to thinking and asks for another model call,
  while the reason still says cancelled and the trajectory still reports that failure.
\<close>

theorem reason_outlives_done:
  "let (m, as) = loop_run (loop_state_new now) [UserCancelled, ToolExecutionCompleted i name Success]
   in lsm_state m = Thinking \<and> last as = CallLLM \<and> lsm_done_reason m = Some DUserCancelled \<and>
      failure_reason (extract_trajectory dbg m) = Some (dbg DUserCancelled)"
  by (simp add: loop_state_new_def end_with_def extract_trajectory_def)

section \<open>Permission before execution\<close>

lemma execute_needs_permission:
  "snd (transition m e) = ExecuteTool name i \<longleftrightarrow> e = PermissionDecision name i True"
  by (cases e) (auto simp: on_response_def end_with_def simp del: u_Cons split: list.split)

section \<open>Snapshots\<close>

text \<open>
  A snapshot carries the turn across a restart: restoring it into any machine gives back the state,
  the counters and the reason, with the failure counter cut to 32 bits, and taking a snapshot again
  at once gives the same one but for the elapsed time, which starts at zero.
\<close>

theorem snapshot_roundtrip:
  "to_snapshot t2 (restore_from_snapshot t2 (to_snapshot t1 m) m') = (to_snapshot t1 m)\<lparr>elapsed_secs := 0\<rparr> \<and>
   lsm_state (restore_from_snapshot t2 (to_snapshot t1 m) m') = lsm_state m \<and>
   turn_count (restore_from_snapshot t2 (to_snapshot t1 m) m') = turn_count m \<and>
   tokens_used (restore_from_snapshot t2 (to_snapshot t1 m) m') = tokens_used m \<and>
   lsm_done_reason (restore_from_snapshot t2 (to_snapshot t1 m) m') = lsm_done_reason m \<and>
   consecutive_failures (restore_from_snapshot t2 (to_snapshot t1 m) m') = consecutive_failures m mod 2 ^ 32"
  by (simp add: to_snapshot_def restore_from_snapshot_def)

section \<open>The compaction threshold\<close>

lemma rne_nearest:
  assumes "of_int m - 1 / 2 < x" "x < of_int m + 1 / 2"
  shows "rne x = m"
proof (cases "of_int m \<le> x")
  case True
  then have "\<lfloor>x\<rfloor> = m" using assms by (intro floor_unique) auto
  then show ?thesis using assms by (simp add: rne_def Let_def)
next
  case False
  then have "\<lfloor>x\<rfloor> = m - 1" using assms by (intro floor_unique) auto
  then show ?thesis using assms by (simp add: rne_def Let_def)
qed

lemma f64_div_four_fifths:
  assumes "0 < b" "5 * a = 4 * b"
  shows "f64_div a b = AUTO_COMPACT_THRESHOLD_RATIO"
proof -
  have a: "0 < a" using assms by simp
  have "of_nat (5 * a) = (of_nat (4 * b) :: rat)" using assms(2) by simp
  then have q: "of_nat a = 4 / 5 * (of_nat b :: rat)" by simp
  have b: "0 < (of_nat b :: rat)" using assms(1) by simp
  have "2 powi (f64_exp a b) \<le> (4 / 5 :: rat)" "(4 / 5 :: rat) < 2 powi (f64_exp a b + 1)"
    using f64_exp_bounds [OF a assms(1)] b unfolding q by simp_all
  then have "(2::rat) powi (f64_exp a b) < 2 powi 0" "(2::rat) powi (- 1) < 2 powi (f64_exp a b + 1)" by simp_all
  then have "f64_exp a b < 0" "- 1 < f64_exp a b + 1" using powi2_less_imp_less by blast+
  then have e: "f64_exp a b = - 1" by linarith
  have "rne (36028797018963968 / 5) = 7205759403792794" by (rule rne_nearest) simp_all
  then have "rne (4 / 5 * 2 powi (52 - - 1)) = 7205759403792794" by simp
  moreover have "of_nat a / of_nat b = (4 / 5 :: rat)" using q b by simp
  ultimately have "f64_div a b = of_int 7205759403792794 * 2 powi (- 1 - 52)"
    using a by (simp only: f64_div_def e Let_def) simp
  then show ?thesis by (simp add: power_int_minus AUTO_COMPACT_THRESHOLD_RATIO_def)
qed

text \<open>
  The compaction test decides exactly. For context windows of up to $2^{51}$ tokens, compaction is
  due exactly when at least four fifths of the window are used: although 0.8 has no exact binary
  form and the quotient is rounded, no window is compacted a token too early or too late.
\<close>

theorem should_auto_compact_iff:
  assumes "context_window \<le> 2 ^ 51"
  shows "should_auto_compact used context_window \<longleftrightarrow> 0 < context_window \<and> 4 * context_window \<le> 5 * used"
proof (cases "context_window = 0")
  case False
  let ?b = "of_nat context_window :: rat" and ?a = "of_nat used :: rat"
  have b: "0 < context_window" "?b \<le> 2 ^ 51"
    using False assms of_nat_mono [OF assms, where 'a = rat] by simp_all
  have T: "f64_repr AUTO_COMPACT_THRESHOLD_RATIO"
    using f64_repr_nat_power [of 3602879701896397 "- 52"] by (simp add: AUTO_COMPACT_THRESHOLD_RATIO_def power_int_minus)
  show ?thesis
  proof (cases "4 * context_window < 5 * used")
    case True
    then have "4 * ?b + 1 \<le> 5 * ?a" using of_nat_mono [of "4 * context_window + 1" "5 * used", where 'a = rat] by simp
    then have "AUTO_COMPACT_THRESHOLD_RATIO * ?b \<le> ?a" using b(2) by (simp add: AUTO_COMPACT_THRESHOLD_RATIO_def)
    from f64_div_ge [OF b(1) T this] show ?thesis using True b(1) by (simp add: should_auto_compact_def)
  next
    case le: False
    show ?thesis
    proof (cases "4 * context_window = 5 * used")
      case True
      then show ?thesis using f64_div_four_fifths [of context_window used] b(1) by (simp add: should_auto_compact_def)
    next
      case False
      with le have "5 * ?a + 1 \<le> 4 * ?b" using of_nat_mono [of "5 * used + 1" "4 * context_window", where 'a = rat] by simp
      define p :: rat where "p = of_nat 7205759403792793 * 2 powi (- 53)"
      have p: "p = 7205759403792793 / 9007199254740992" by (simp add: p_def power_int_minus)
      have "?a \<le> p * ?b" using \<open>5 * ?a + 1 \<le> 4 * ?b\<close> b(2) by (simp add: p)
      moreover have "f64_repr p" unfolding p_def by (rule f64_repr_nat_power) simp
      ultimately have "f64_div used context_window \<le> p" using b(1) by (intro f64_div_le) (auto simp: p)
      moreover have "p < AUTO_COMPACT_THRESHOLD_RATIO" by (simp add: p AUTO_COMPACT_THRESHOLD_RATIO_def)
      ultimately show ?thesis using False le by (simp add: should_auto_compact_def)
    qed
  qed
qed (simp add: should_auto_compact_def)

theorem should_auto_compact_iff_witness:
  "should_auto_compact 160000 200000 \<and> \<not> should_auto_compact 159999 200000"
  using should_auto_compact_iff [of 200000 160000] should_auto_compact_iff [of 200000 159999] by simp

end
