(* ===== verification/Compact_Text.thy ===== *)
theory Compact_Text
  imports Text_Slices Prelude "HOL-Library.AList"
begin

text \<open>
  Cutting of long tool outputs before they enter the conversation: the white list
  (\<^verbatim>\<open>compactable.rs\<close>), the structural cut (\<^verbatim>\<open>snip.rs\<close>) and the token budget (\<^verbatim>\<open>budget.rs\<close>) of
  \<^verbatim>\<open>crates/common/ccode-compaction/src\<close>, and their composition in
  \<^verbatim>\<open>crates/codegen/ccode-shell/src/session/micro_compact_gate.rs\<close>. The code slices strings by bytes; a
  slice inside a character panics and is \<^const>\<open>None\<close> here.
\<close>

section \<open>Substrings\<close>

text \<open>\<^verbatim>\<open>str::split\<close> by a string, and \<^verbatim>\<open>str::replace\<close>.\<close>

function split_str :: "ustr \<Rightarrow> ustr \<Rightarrow> ustr list" where
  "split_str p [] = [[]]"
| "split_str p (c # s) =
     (if p \<noteq> [] \<and> starts_with (c # s) p then [] # split_str p (drop (length p) (c # s))
      else case split_str p s of [] \<Rightarrow> [[c]] | w # ws \<Rightarrow> (c # w) # ws)"
  by pat_completeness auto
termination by (relation "measure (length \<circ> snd)") auto

definition str_replace :: "ustr \<Rightarrow> ustr \<Rightarrow> ustr \<Rightarrow> ustr" where
  "str_replace s p t = join_with t (split_str p s)"

lemma split_str_not_Nil [simp]: "split_str p s \<noteq> []"
  by (induction p s rule: split_str.induct) (auto split: list.splits)

lemma join_with_Cons_ne: "ws \<noteq> [] \<Longrightarrow> join_with p (w # ws) = w @ p @ join_with p ws"
  by (cases ws) auto

lemma join_split_str: "join_with p (split_str p s) = s"
proof (induction p s rule: split_str.induct)
  case (2 p c s)
  show ?case
  proof (cases "p \<noteq> [] \<and> starts_with (c # s) p")
    case True
    then obtain r where r: "c # s = p @ r" by (auto simp: starts_with_iff)
    have d: "drop (length p) (c # s) = r" by (simp add: r)
    have "split_str p (c # s) = [] # split_str p r" unfolding split_str.simps(2) if_P [OF True] d ..
    moreover have "join_with p (split_str p r) = r" using 2(1) [OF True] unfolding d .
    ultimately show ?thesis using r by (simp add: join_with_Cons_ne)
  next
    case False
    obtain w ws where w: "split_str p s = w # ws" by (cases "split_str p s") auto
    have "split_str p (c # s) = (c # w) # ws" unfolding split_str.simps(2) if_not_P [OF False] w by simp
    then show ?thesis using 2(2) [OF False] w by (cases ws) simp_all
  qed
qed simp

section \<open>The white list\<close>

definition COMPACTABLE_TOOLS :: "ustr list" where
  "COMPACTABLE_TOOLS = [u ''FileRead'', u ''Bash'', u ''Grep'', u ''Glob'', u ''WebSearch'', u ''WebFetch'',
     u ''FileEdit'', u ''FileWrite'', u ''ListDir'', u ''ReadFile'']"

definition eq_ignore_ascii_case :: "ustr \<Rightarrow> ustr \<Rightarrow> bool" where
  "eq_ignore_ascii_case s t \<longleftrightarrow> map ascii_lower s = map ascii_lower t"

definition is_compactable :: "ustr \<Rightarrow> bool" where
  "is_compactable tool_name \<longleftrightarrow> list_ex (\<lambda>t. eq_ignore_ascii_case t tool_name) COMPACTABLE_TOOLS"

definition estimate_tokens :: "ustr \<Rightarrow> nat" where
  "estimate_tokens s = length s div 4"

section \<open>The structural cut\<close>

record snip_config =
  file_read_max_lines :: nat
  bash_max_chars :: nat
  grep_max_matches :: nat
  glob_max_entries :: nat
  list_dir_max_entries :: nat
  web_max_chars :: nat

definition snip_config_default :: snip_config where
  "snip_config_default = \<lparr>file_read_max_lines = 2000, bash_max_chars = 10000, grep_max_matches = 500,
     glob_max_entries = 1000, list_dir_max_entries = 1000, web_max_chars = 10000\<rparr>"

text \<open>\<^verbatim>\<open>SnipResult\<close> and \<^verbatim>\<open>BudgetTruncateResult\<close> have the same fields.\<close>

record cut_result =
  cut_output :: ustr
  original_tokens :: nat
  saved_tokens :: nat
  truncated :: bool

definition unchanged :: "ustr \<Rightarrow> cut_result" where
  "unchanged s = \<lparr>cut_output = s, original_tokens = estimate_tokens s, saved_tokens = 0, truncated = False\<rparr>"

definition truncated_result :: "ustr \<Rightarrow> ustr \<Rightarrow> cut_result" where
  "truncated_result original out =
     \<lparr>cut_output = out, original_tokens = estimate_tokens original,
      saved_tokens = estimate_tokens original - estimate_tokens out, truncated = True\<rparr>"

definition omitted_note :: "nat \<Rightarrow> ustr \<Rightarrow> ustr" where
  "omitted_note omitted unit = u ''[... '' @ dec omitted @ [32] @ unit @ u '' omitted ...]''"

definition snip_lines :: "ustr \<Rightarrow> nat \<Rightarrow> ustr \<Rightarrow> cut_result" where
  "snip_lines s max_n unit =
     (if max_n = 0 then unchanged s
      else let ls = lines s in
        if length ls \<le> max_n then unchanged s
        else
          let keep = max_n div 2;
              head = take (min keep (length ls)) ls;
              tail_start = length ls - keep;
              tail = drop (max tail_start keep) ls;
              omitted = length ls - length head - length tail
          in truncated_result s
               (join_with [10] head @ [10] @ omitted_note omitted unit @ [10] @ join_with [10] tail))"

definition snip_chars :: "ustr \<Rightarrow> nat \<Rightarrow> ustr \<Rightarrow> cut_result option" where
  "snip_chars s max_n unit =
     (if max_n = 0 \<or> byte_len s \<le> max_n then Some (unchanged s)
      else
        let keep = max_n div 2; tail_start = byte_len s - keep
        in case (slice_to (min keep (byte_len s)) s, slice_from (max tail_start keep) s) of
             (Some head, Some tail) \<Rightarrow>
               (let omitted = byte_len s - byte_len head - byte_len tail
                in Some (truncated_result s (head @ [10] @ omitted_note omitted unit @ [10] @ tail)))
           | _ \<Rightarrow> None)"

definition snip_blocks :: "ustr \<Rightarrow> nat \<Rightarrow> ustr \<Rightarrow> cut_result" where
  "snip_blocks s max_n unit =
     (if max_n = 0 then unchanged s
      else let blocks = split_str [10, 10] s in
        if length blocks \<le> max_n then unchanged s
        else
          let keep = max_n div 2;
              head = take (min keep (length blocks)) blocks;
              tail_start = length blocks - keep;
              tail = drop (max tail_start keep) blocks;
              omitted = length blocks - length head - length tail
          in truncated_result s
               (join_with [10, 10] head @ [10] @ omitted_note omitted unit @ [10] @ join_with [10, 10] tail))"

definition snip :: "ustr \<Rightarrow> ustr \<Rightarrow> snip_config \<Rightarrow> cut_result option" where
  "snip tool s config =
     (if \<not> is_compactable tool \<or> s = [] then Some (unchanged s)
      else let lower = map ascii_lower tool in
        if contains lower (u ''bash'') then snip_chars s (bash_max_chars config) (u ''chars'')
        else if contains lower (u ''grep'') then Some (snip_blocks s (grep_max_matches config) (u ''matches''))
        else if contains lower (u ''glob'') \<or> contains lower (u ''list'') then
          Some (snip_lines s (max (glob_max_entries config) (list_dir_max_entries config)) (u ''entries''))
        else if contains lower (u ''web'') then snip_chars s (web_max_chars config) (u ''chars'')
        else Some (snip_lines s (file_read_max_lines config) (u ''lines'')))"

section \<open>The token budget\<close>

definition DEFAULT_BUDGETS :: "(ustr \<times> nat) list" where
  "DEFAULT_BUDGETS = [(u ''FileRead'', 4000), (u ''ReadFile'', 4000), (u ''Bash'', 8000), (u ''Grep'', 4000),
     (u ''Glob'', 2000), (u ''ListDir'', 2000), (u ''WebSearch'', 2000), (u ''WebFetch'', 4000),
     (u ''FileEdit'', 4000), (u ''FileWrite'', 4000)]"

definition TRUNCATED_NOTE :: ustr where
  "TRUNCATED_NOTE = u ''[truncated, {n} tokens saved]''"

type_synonym tool_budget = "(ustr \<times> nat) list"

definition from_defaults :: tool_budget where
  "from_defaults = foldl (\<lambda>limits (name, cap). AList.update name cap limits) [] DEFAULT_BUDGETS"

definition set_limit :: "tool_budget \<Rightarrow> ustr \<Rightarrow> nat \<Rightarrow> tool_budget" where
  "set_limit b tool cap = AList.update tool cap b"

definition limit :: "tool_budget \<Rightarrow> ustr \<Rightarrow> nat option" where
  "limit b tool = map_of b tool"

datatype budget_result = Within | Over nat nat | NotApplicable

definition budget_check :: "tool_budget \<Rightarrow> ustr \<Rightarrow> nat \<Rightarrow> budget_result" where
  "budget_check b tool output_tokens =
     (if \<not> is_compactable tool then NotApplicable
      else case limit b tool of
             Some cap \<Rightarrow> if cap < output_tokens then Over cap (output_tokens - cap) else Within
           | None \<Rightarrow> Within)"

definition truncate :: "tool_budget \<Rightarrow> ustr \<Rightarrow> ustr \<Rightarrow> cut_result option" where
  "truncate b tool s =
     (let est_tokens = estimate_tokens s in
      case budget_check b tool est_tokens of
        Over cap _ \<Rightarrow>
          (let keep_tokens = cap div 2; keep_chars = keep_tokens * 4 in
           if byte_len s \<le> keep_chars * 2 then Some (unchanged s)
           else
             let tail_start = byte_len s - keep_chars
             in case (slice_to (min keep_chars (byte_len s)) s, slice_from (max tail_start keep_chars) s) of
                  (Some head, Some tail) \<Rightarrow>
                    (let saved = est_tokens - cap;
                         note = str_replace TRUNCATED_NOTE (u ''{n}'') (dec saved)
                     in Some \<lparr>cut_output = head @ [10] @ note @ [10] @ tail, original_tokens = est_tokens,
                              saved_tokens = saved, truncated = True\<rparr>)
                | _ \<Rightarrow> None)
      | _ \<Rightarrow> Some (unchanged s))"

section \<open>The gate in front of the conversation\<close>

text \<open>The content of the tool result after the gate; other conversation items pass unchanged.\<close>

definition snip_and_budget_tool_result :: "ustr \<Rightarrow> ustr \<Rightarrow> ustr option" where
  "snip_and_budget_tool_result content tool_name =
     (case snip tool_name content snip_config_default of
        None \<Rightarrow> None
      | Some snip_result \<Rightarrow>
          (case truncate from_defaults tool_name (cut_output snip_result) of
             None \<Rightarrow> None
           | Some budget_result \<Rightarrow>
               Some (if \<not> truncated snip_result \<and> \<not> truncated budget_result then content
                     else cut_output budget_result)))"

section \<open>Sizes\<close>

lemma length_join: "length (join_with d ws) = sum_list (map length ws) + (length ws - 1) * length d"
  by (induction d ws rule: join_with.induct) (auto simp: algebra_simps)

lemma length_join_sub:
  "length (join_with d (take n ws)) \<le> length (join_with d ws)"
  "length (join_with d (drop n ws)) \<le> length (join_with d ws)"
proof -
  have s: "sum_list (map length ws) = sum_list (map length (take n ws)) + sum_list (map length (drop n ws))"
    unfolding sum_list_append [symmetric] map_append [symmetric] append_take_drop_id ..
  show "length (join_with d (take n ws)) \<le> length (join_with d ws)" unfolding length_join using s
    by (intro add_mono mult_right_mono) auto
  show "length (join_with d (drop n ws)) \<le> length (join_with d ws)" unfolding length_join using s
    by (intro add_mono mult_right_mono) auto
qed

lemma length_join_lines: "length (join_with [10] (lines s)) \<le> length s"
proof -
  let ?ps = "split_on 10 s"
  have "length (strip_cr w) \<le> length w" for w by (simp add: strip_cr_def)
  then have "sum_list (map length (map strip_cr (butlast ?ps))) \<le> sum_list (map length (butlast ?ps))"
    by (auto intro: sum_list_mono simp: o_def)
  moreover have "sum_list (map length ?ps) = sum_list (map length (butlast ?ps)) + length (last ?ps)"
    by (subst append_butlast_last_id [of ?ps, symmetric]) (simp_all del: append_butlast_last_id)
  moreover have "length s = sum_list (map length ?ps) + (length ?ps - 1)"
    using length_join [of "[10]" ?ps] by (simp add: join_split_on)
  ultimately show ?thesis by (auto simp: length_join lines_def Let_def)
qed

lemma ascii_simps [simp]:
  "ascii []" "ascii (c # s) \<longleftrightarrow> c < 128 \<and> ascii s" "ascii (s @ t) \<longleftrightarrow> ascii s \<and> ascii t"
  by (auto simp: ascii_def)

lemma ascii_join: "ascii d \<Longrightarrow> \<forall>w \<in> set ws. ascii w \<Longrightarrow> ascii (join_with d ws)"
  by (induction d ws rule: join_with.induct) auto

lemma ascii_pieces: "ascii (join_with d ws) \<Longrightarrow> w \<in> set ws \<Longrightarrow> ascii w"
  by (induction d ws rule: join_with.induct) auto

lemma ascii_lines: "ascii s \<Longrightarrow> w \<in> set (lines s) \<Longrightarrow> ascii w"
proof -
  assume s: "ascii s" and w: "w \<in> set (lines s)"
  have ps: "ascii v" if "v \<in> set (split_on 10 s)" for v
    using s that ascii_pieces [of "[10]" "split_on 10 s"] by (simp add: join_split_on)
  from w consider v where "v \<in> set (butlast (split_on 10 s))" "w = strip_cr v" | "w = last (split_on 10 s)"
    by (auto simp: lines_def Let_def split: if_splits)
  then show "ascii w"
  proof cases
    case 1
    then have "ascii v" using ps in_set_butlastD by metis
    then show ?thesis using 1(2) by (auto simp: strip_cr_def ascii_def dest: in_set_butlastD)
  next
    case 2
    then show ?thesis using ps by simp
  qed
qed

lemma ascii_omitted_note: "ascii unit \<Longrightarrow> ascii (omitted_note n unit)"
  by (simp add: omitted_note_def ascii_dec)

lemma truncated_note:
  "str_replace TRUNCATED_NOTE (u ''{n}'') t = u ''[truncated, '' @ t @ u '' tokens saved]''"
  by (simp add: str_replace_def TRUNCATED_NOTE_def)

section \<open>What the cuts return\<close>

lemma cut_fields [simp]:
  "cut_output (unchanged s) = s" "\<not> truncated (unchanged s)"
  "cut_output (truncated_result s t) = t" "truncated (truncated_result s t)"
  by (simp_all add: unchanged_def truncated_result_def)

lemma snip_lines_cases: "\<not> truncated (snip_lines s m unit) \<Longrightarrow> snip_lines s m unit = unchanged s"
  by (simp add: snip_lines_def Let_def split: if_splits)

lemma snip_blocks_cases: "\<not> truncated (snip_blocks s m unit) \<Longrightarrow> snip_blocks s m unit = unchanged s"
  by (simp add: snip_blocks_def Let_def split: if_splits)

lemma snip_chars_cases: "snip_chars s m unit = Some r \<Longrightarrow> r = unchanged s \<or> truncated r"
  by (auto simp: snip_chars_def Let_def split: if_splits option.splits)

lemma snip_cases: "snip tool s c = Some r \<Longrightarrow> r = unchanged s \<or> truncated r"
  by (auto simp: snip_def snip_lines_cases snip_blocks_cases Let_def simp del: u_Cons split: if_splits dest: snip_chars_cases)

lemma truncate_cases: "truncate b tool s = Some r \<Longrightarrow> r = unchanged s \<or> truncated r"
  by (auto simp: truncate_def Let_def simp del: u_Cons split: if_splits option.splits budget_result.splits)

lemma gate_composes:
  "snip_and_budget_tool_result content tool =
     Option.bind (snip tool content snip_config_default)
       (\<lambda>r. map_option cut_output (truncate from_defaults tool (cut_output r)))"
proof (cases "snip tool content snip_config_default")
  case (Some r)
  show ?thesis
  proof (cases "truncate from_defaults tool (cut_output r)")
    case (Some b)
    then show ?thesis using \<open>snip _ _ _ = Some r\<close> snip_cases [OF \<open>snip _ _ _ = Some r\<close>] truncate_cases [OF Some]
      by (auto simp: snip_and_budget_tool_result_def)
  qed (simp add: \<open>snip _ _ _ = Some r\<close> snip_and_budget_tool_result_def)
qed (simp add: snip_and_budget_tool_result_def)

text \<open>The two slices of a cut exist exactly when both positions are character boundaries.\<close>

lemma two_slices:
  "(case (slice_to a s, slice_from b s) of (Some h, Some t) \<Rightarrow> Some (f h t) | _ \<Rightarrow> None) = None \<longleftrightarrow>
     \<not> is_char_boundary s a \<or> \<not> is_char_boundary s b"
  unfolding slice_None_iff(1) [of a s, symmetric] slice_None_iff(2) [of b s, symmetric]
  by (auto split: option.splits)

lemma snip_chars_panics_iff:
  "snip_chars s m unit = None \<longleftrightarrow> 0 < m \<and> m < byte_len s \<and>
     (\<not> is_char_boundary s (m div 2) \<or> \<not> is_char_boundary s (byte_len s - m div 2))"
proof (cases "m = 0 \<or> byte_len s \<le> m")
  case False
  then have "min (m div 2) (byte_len s) = m div 2" "max (byte_len s - m div 2) (m div 2) = byte_len s - m div 2"
    by auto
  with False show ?thesis unfolding snip_chars_def Let_def by (simp only: two_slices if_False) auto
qed (auto simp: snip_chars_def)

lemma truncate_panics_iff:
  "truncate b tool s = None \<longleftrightarrow>
     (\<exists>cap. is_compactable tool \<and> limit b tool = Some cap \<and> cap < estimate_tokens s \<and>
        cap div 2 * 8 < byte_len s \<and>
        (\<not> is_char_boundary s (cap div 2 * 4) \<or> \<not> is_char_boundary s (byte_len s - cap div 2 * 4)))"
proof -
  have "truncate b tool s = None \<longleftrightarrow>
     cap div 2 * 8 < byte_len s \<and>
        (\<not> is_char_boundary s (cap div 2 * 4) \<or> \<not> is_char_boundary s (byte_len s - cap div 2 * 4))"
    if b: "budget_check b tool (estimate_tokens s) = Over cap d" for cap d
  proof (cases "byte_len s \<le> cap div 2 * 8")
    case False
    then have "min (cap div 2 * 4) (byte_len s) = cap div 2 * 4"
        "max (byte_len s - cap div 2 * 4) (cap div 2 * 4) = byte_len s - cap div 2 * 4"
        "\<not> byte_len s \<le> cap div 2 * 4 * 2" by auto
    with False b show ?thesis unfolding truncate_def Let_def
      by (simp only: budget_result.case two_slices if_False) auto
  qed (simp add: truncate_def b)
  moreover have "truncate b tool s \<noteq> None" if "\<forall>cap d. budget_check b tool (estimate_tokens s) \<noteq> Over cap d"
    using that by (cases "budget_check b tool (estimate_tokens s)") (auto simp: truncate_def)
  moreover have "budget_check b tool (estimate_tokens s) = Over cap d \<longleftrightarrow>
     is_compactable tool \<and> limit b tool = Some cap \<and> cap < estimate_tokens s \<and> d = estimate_tokens s - cap" for cap d
    by (auto simp: budget_check_def split: option.splits)
  ultimately show ?thesis by metis
qed

section \<open>Texts of wide characters\<close>

lemma Bash_facts:
  "is_compactable (u ''Bash'')" "contains (map ascii_lower (u ''Bash'')) (u ''bash'')"
  "limit from_defaults (u ''Bash'') = Some 8000"
  by (simp_all add: is_compactable_def COMPACTABLE_TOOLS_def eq_ignore_ascii_case_def ascii_lower_def
      limit_def from_defaults_def DEFAULT_BUDGETS_def)

lemma snip_Bash:
  "s \<noteq> [] \<Longrightarrow> snip (u ''Bash'') s c = snip_chars s (bash_max_chars c) (u ''chars'')"
  by (simp add: snip_def Bash_facts Let_def del: u_Cons)

text \<open>
  Long shell output in a script whose characters take three bytes, such as Chinese, always
  panics the gate: the cut keeps 5000 bytes, which is not a whole number of characters.
\<close>

theorem wide_output_panics:
  assumes "\<forall>c \<in> set s. utf8_len c = 3" and "10000 < byte_len s"
  shows "snip_and_budget_tool_result s (u ''Bash'') = None"
proof -
  have "\<not> is_char_boundary s 5000" using uniform_boundary [OF assms(1), of 5000] by auto
  then have "snip_chars s 10000 (u ''chars'') = None" using assms(2) by (simp add: snip_chars_panics_iff)
  moreover have "s \<noteq> []" using assms(2) by auto
  ultimately show ?thesis
    by (simp add: gate_composes snip_Bash snip_config_default_def del: u_Cons)
qed

theorem wide_output_panics_witness:
  "snip_and_budget_tool_result (replicate 3334 20013) (u ''Bash'') = None"
proof -
  have w: "\<forall>c \<in> set (replicate 3334 20013). utf8_len c = 3" by (simp add: utf8_len_def)
  show ?thesis using wide_output_panics [OF w] byte_len_uniform [OF w] by (simp del: u_Cons)
qed

section \<open>Plain text\<close>

lemma byte_split_ascii: "ascii s \<Longrightarrow> n \<le> length s \<Longrightarrow> byte_split n s = Some (take n s, drop n s)"
  using byte_len_ascii [of "take n s"] unfolding byte_split_Some_iff by (auto simp: ascii_def dest: in_set_takeD)

lemma snip_chars_ascii:
  assumes "ascii s" "0 < m" "m < length s"
  shows "snip_chars s m unit = Some (truncated_result s (take (m div 2) s @ [10] @
     omitted_note (length s - (m div 2 + m div 2)) unit @ [10] @ drop (length s - m div 2) s))"
proof -
  have b: "byte_len s = length s" "min (m div 2) (length s) = m div 2"
      "max (length s - m div 2) (m div 2) = length s - m div 2"
    using assms by (auto simp: byte_len_ascii)
  have "ascii (take (m div 2) s)" "ascii (drop (length s - m div 2) s)"
    using assms(1) by (auto simp: ascii_def dest: in_set_takeD in_set_dropD)
  then have "byte_len (take (m div 2) s) = m div 2" "byte_len (drop (length s - m div 2) s) = m div 2"
    using assms(2,3) by (auto simp: byte_len_ascii)
  moreover have "slice_to (m div 2) s = Some (take (m div 2) s)"
      "slice_from (length s - m div 2) s = Some (drop (length s - m div 2) s)"
    using assms byte_split_ascii by (auto simp: slice_to_def slice_from_def)
  ultimately show ?thesis using assms(2,3) by (simp add: snip_chars_def Let_def b)
qed

lemma truncate_within: "estimate_tokens s \<le> cap \<Longrightarrow> limit b tool = Some cap \<Longrightarrow> truncate b tool s = Some (unchanged s)"
  by (simp add: truncate_def budget_check_def Let_def)

lemma length_dec20: "n < 10 ^ 20 \<Longrightarrow> length (dec n) \<le> 20"
  by (rule length_dec) simp_all

text \<open>
  What the model sees of plain shell output: all of it up to 10000 characters, and beyond that
  exactly the first and the last 5000 around a note with the number of characters left out. The token
  budget never adds a second cut.
\<close>

theorem bash_gate_exact:
  assumes "ascii s" and "length s < 10 ^ 20"
  shows "snip_and_budget_tool_result s (u ''Bash'') =
    Some (if length s \<le> 10000 then s
          else take 5000 s @ [10] @ u ''[... '' @ dec (length s - 10000) @ u '' chars omitted ...]'' @ [10] @
            drop (length s - 5000) s)"
proof (cases "length s \<le> 10000")
  case True
  then have "snip (u ''Bash'') s snip_config_default = Some (unchanged s)"
    using assms(1) snip_Bash [of s]
    by (cases "s = []") (simp_all add: snip_def snip_chars_def snip_config_default_def byte_len_ascii del: u_Cons)
  with True show ?thesis
    by (simp add: gate_composes truncate_within [OF _ Bash_facts(3)] estimate_tokens_def del: u_Cons)
next
  case False
  let ?t = "take 5000 s @ [10] @ omitted_note (length s - 10000) (u ''chars'') @ [10] @ drop (length s - 5000) s"
  have "snip (u ''Bash'') s snip_config_default = Some (truncated_result s ?t)"
    using False snip_Bash [of s] snip_chars_ascii [OF assms(1), of 10000]
    by (cases "s = []") (simp_all add: snip_config_default_def del: u_Cons)
  moreover have "length (dec (length s - 10000)) \<le> 20" using assms(2) by (intro length_dec20) simp
  then have "estimate_tokens ?t \<le> 8000"
    using False by (simp add: estimate_tokens_def omitted_note_def)
  ultimately show ?thesis
    using False by (simp add: gate_composes truncate_within [OF _ Bash_facts(3)] del: u_Cons)
      (simp add: omitted_note_def)
qed

theorem bash_gate_exact_witness:
  "snip_and_budget_tool_result (replicate 10007 97) (u ''Bash'') =
     Some (replicate 5000 97 @ [10] @ u ''[... 7 chars omitted ...]'' @ [10] @ replicate 5000 97)"
proof -
  have "dec 7 = u ''7''" by (subst dec.simps) simp
  then show ?thesis using bash_gate_exact [of "replicate 10007 97"] by (simp add: ascii_def)
qed

section \<open>A bound for every tool\<close>

lemma ascii_take_drop [simp]: "ascii s \<Longrightarrow> ascii (take n s)" "ascii s \<Longrightarrow> ascii (drop n s)"
  by (auto simp: ascii_def dest: in_set_takeD in_set_dropD)

lemma length_omitted_note:
  "n < 10 ^ 20 \<Longrightarrow> length unit \<le> 7 \<Longrightarrow> length (omitted_note n unit) \<le> 46"
  using length_dec20 [of n] by (simp add: omitted_note_def)

definition modest :: "ustr \<Rightarrow> ustr \<Rightarrow> bool" where
  "modest s t \<longleftrightarrow> ascii t \<and> length t \<le> 2 * length s + 48"

lemma keep_ends_modest:
  assumes "length (join_with d ws) \<le> length s" "\<forall>w \<in> set ws. ascii w" "ascii d" "d \<noteq> []" "n \<le> length ws"
    and "length s < 10 ^ 19" "ascii unit" "length unit \<le> 7"
  shows "modest s (join_with d (take a ws) @ [10] @ omitted_note n unit @ [10] @ join_with d (drop b ws))"
proof -
  have "length ws - 1 \<le> (length ws - 1) * length d" using assms(4) by (cases d) auto
  moreover have "(length ws - 1) * length d \<le> length s" using assms(1) by (simp add: length_join)
  ultimately have "length ws \<le> length s + 1" by linarith
  then have "length (omitted_note n unit) \<le> 46" using assms by (intro length_omitted_note) auto
  moreover have "length (join_with d (take a ws)) \<le> length s" "length (join_with d (drop b ws)) \<le> length s"
    using assms(1) length_join_sub [of d _ ws] order_trans by blast+
  moreover have "ascii (join_with d (take a ws))" "ascii (join_with d (drop b ws))"
    using assms(2,3) by (auto intro!: ascii_join dest: in_set_takeD in_set_dropD)
  ultimately show ?thesis using assms(7) by (simp add: modest_def ascii_omitted_note)
qed

lemma snip_lines_modest:
  assumes "ascii s" "length s < 10 ^ 19" "ascii unit" "length unit \<le> 7"
  shows "modest s (cut_output (snip_lines s m unit))"
  using assms keep_ends_modest [OF length_join_lines, of s] ascii_lines [OF assms(1)]
  by (auto simp: snip_lines_def Let_def modest_def [of s s])

lemma snip_blocks_modest:
  assumes "ascii s" "length s < 10 ^ 19" "ascii unit" "length unit \<le> 7"
  shows "modest s (cut_output (snip_blocks s m unit))"
proof -
  have "\<forall>w \<in> set (split_str [10, 10] s). ascii w"
    using ascii_pieces [of "[10, 10]" "split_str [10, 10] s"] assms(1) by (simp add: join_split_str)
  then show ?thesis
    using assms keep_ends_modest [of "[10, 10]" "split_str [10, 10] s" s]
    by (auto simp: snip_blocks_def Let_def modest_def [of s s] join_split_str)
qed

lemma snip_chars_modest:
  assumes "ascii s" "length s < 10 ^ 19" "ascii unit" "length unit \<le> 7"
  shows "\<exists>r. snip_chars s m unit = Some r \<and> modest s (cut_output r)"
proof (cases "m = 0 \<or> length s \<le> m")
  case False
  have "length (omitted_note (length s - (m div 2 + m div 2)) unit) \<le> 46"
    using assms(2,4) by (intro length_omitted_note) auto
  then show ?thesis using False assms(1,3) snip_chars_ascii [of s m unit]
    by (auto simp: modest_def ascii_omitted_note)
qed (use assms in \<open>auto simp: snip_chars_def modest_def byte_len_ascii\<close>)

lemma snip_modest:
  assumes "ascii s" "length s < 10 ^ 19"
  shows "\<exists>r. snip tool s c = Some r \<and> modest s (cut_output r)"
proof -
  have un: "ascii (u ''chars'')" "ascii (u ''matches'')" "ascii (u ''entries'')" "ascii (u ''lines'')"
      "length (u ''chars'') \<le> 7" "length (u ''matches'') \<le> 7" "length (u ''entries'') \<le> 7" "length (u ''lines'') \<le> 7"
    by simp_all
  have "modest s (cut_output (unchanged s))" using assms(1) by (simp add: modest_def)
  then show ?thesis
    using snip_chars_modest [OF assms un(1,5)] snip_blocks_modest [OF assms un(2,6)]
      snip_lines_modest [OF assms un(3,7)] snip_lines_modest [OF assms un(4,8)]
    by (simp add: snip_def Let_def del: u_Cons)
qed

lemma truncate_bound:
  assumes "ascii s" "length s < 10 ^ 20" "is_compactable tool" "limit b tool = Some cap"
  shows "\<exists>r. truncate b tool s = Some r \<and> ascii (cut_output r) \<and> length (cut_output r) \<le> 4 * cap + 48"
proof (cases "estimate_tokens s \<le> cap")
  case True
  then have "length s \<le> 4 * cap + 48" by (simp add: estimate_tokens_def)
  then show ?thesis using truncate_within [OF True assms(4)] assms(1) by simp
next
  case False
  let ?k = "cap div 2 * 4" and ?n = "estimate_tokens s - cap"
  have k: "?k + ?k < length s" "?k \<le> 2 * cap" using False by (auto simp: estimate_tokens_def)
  then have m: "min ?k (length s) = ?k" "max (length s - ?k) ?k = length s - ?k" by auto
  have sl: "slice_to ?k s = Some (take ?k s)" "slice_from (length s - ?k) s = Some (drop (length s - ?k) s)"
    using k assms(1) by (simp_all add: slice_to_def slice_from_def byte_split_ascii)
  have "truncate b tool s = Some \<lparr>cut_output = take ?k s @ [10] @ (u ''[truncated, '' @ dec ?n @ u '' tokens saved]'') @ [10] @
      drop (length s - ?k) s, original_tokens = estimate_tokens s, saved_tokens = ?n, truncated = True\<rparr>"
    unfolding truncate_def Let_def budget_check_def truncated_note
    using False k(1) assms by (simp add: byte_len_ascii m sl del: u_Cons)
  moreover have "length (dec ?n) \<le> 20"
    using assms(2) by (intro length_dec20) (simp add: estimate_tokens_def)
  then have "length (u ''[truncated, '' @ dec ?n @ u '' tokens saved]'') \<le> 46" by simp
  moreover have "length (take ?k s) = ?k" "length (drop (length s - ?k) s) = ?k" using k(1) by auto
  ultimately show ?thesis using k(2) assms(1) by (simp add: ascii_dec)
qed

lemma from_defaults_eq: "from_defaults = DEFAULT_BUDGETS"
  by (simp add: from_defaults_def DEFAULT_BUDGETS_def)

lemma limit_defaults:
  assumes "(tool, cap) \<in> set DEFAULT_BUDGETS"
  shows "is_compactable tool" "limit from_defaults tool = Some cap"
proof -
  have "tool \<in> set COMPACTABLE_TOOLS" using assms by (auto simp: DEFAULT_BUDGETS_def COMPACTABLE_TOOLS_def simp del: u_Cons)
  then show "is_compactable tool" by (auto simp: is_compactable_def list_ex_iff eq_ignore_ascii_case_def)
  have "distinct (map fst DEFAULT_BUDGETS)" by (simp add: DEFAULT_BUDGETS_def)
  then show "limit from_defaults tool = Some cap" using assms by (simp add: limit_def from_defaults_eq)
qed

text \<open>
  C31. One tool result never takes more of the context than its budget: for every tool with a default
  budget the gate returns on plain text, and what it returns has at most four characters for each
  token of the budget and 48 for the note.
\<close>

theorem gate_bounds_result:
  assumes "ascii s" and "length s < 10 ^ 19" and "(tool, cap) \<in> set DEFAULT_BUDGETS"
  shows "\<exists>r. snip_and_budget_tool_result s tool = Some r \<and> length r \<le> 4 * cap + 48"
proof -
  obtain r where r: "snip tool s snip_config_default = Some r" "modest s (cut_output r)"
    using snip_modest [OF assms(1,2)] by blast
  have "ascii (cut_output r)" "length (cut_output r) < 10 ^ 20" using r(2) assms(2) by (simp_all add: modest_def)
  then show ?thesis
    using truncate_bound limit_defaults [OF assms(3)] r(1) by (fastforce simp: gate_composes)
qed

theorem gate_bounds_result_witness:
  "\<exists>r. snip_and_budget_tool_result (replicate 100000 97) (u ''Grep'') = Some r \<and> length r \<le> 16048"
  using gate_bounds_result [of "replicate 100000 97" "u ''Grep''" 4000]
  by (simp add: ascii_def DEFAULT_BUDGETS_def)

section \<open>Spelling\<close>

text \<open>
  The white list ignores the case of a tool's name, the budget table does not: a tool spelled
  without capitals passes the white list but its output is never cut to a budget.
\<close>

theorem lower_case_tool_has_no_budget:
  assumes "map ascii_lower tool = tool"
  shows "truncate from_defaults tool s = Some (unchanged s)"
proof -
  have "map ascii_lower t \<noteq> t" if "(t, cap) \<in> set DEFAULT_BUDGETS" for t cap
    using that by (auto simp: DEFAULT_BUDGETS_def ascii_lower_def)
  then have "limit from_defaults tool = None"
    using assms unfolding limit_def from_defaults_eq map_of_eq_None_iff by fastforce
  then show ?thesis by (simp add: truncate_def budget_check_def Let_def)
qed

theorem lower_case_tool_has_no_budget_witness:
  "is_compactable (u ''bash'') \<and> truncate from_defaults (u ''bash'') (replicate 1000000 97) = Some (unchanged (replicate 1000000 97))"
  using lower_case_tool_has_no_budget [of "u ''bash''"]
  by (simp add: ascii_lower_def is_compactable_def COMPACTABLE_TOOLS_def eq_ignore_ascii_case_def)

end
