(* ===== verification/Micro_Compact.thy ===== *)
theory Micro_Compact
  imports Compact_Text Frame "HOL-Library.Word"
begin

text \<open>
  Clearing of aged tool results: \<^verbatim>\<open>micro_compact.rs\<close> and \<^verbatim>\<open>cache_aware.rs\<close> of
  \<^verbatim>\<open>crates/common/ccode-compaction/src\<close>. The trait \<^verbatim>\<open>MicroCompactable\<close> is the record \<open>micro_ops\<close> of its
  methods; what the algorithm needs of an implementation is the locale \<open>micro_compactable\<close>, which
  \<open>Working_Memory\<close> interprets. Instants are nanoseconds, and \<^verbatim>\<open>duration_since\<close> saturates at zero.
\<close>

unbundle bit_operations_syntax

section \<open>The trait\<close>

record 'm micro_ops =
  mc_created_at :: "'m \<Rightarrow> nat"
  mc_is_tool_result :: "'m \<Rightarrow> bool"
  mc_tool_name :: "'m \<Rightarrow> ustr option"
  mc_content :: "'m \<Rightarrow> ustr"
  mc_with_content :: "'m \<Rightarrow> ustr \<Rightarrow> 'm"

record micro_compact_config =
  max_age :: nat
  summary_max_chars :: nat

definition micro_compact_config_default :: micro_compact_config where
  "micro_compact_config_default = \<lparr>max_age = 300 * 1000000000, summary_max_chars = 200\<rparr>"

definition CLEARED_MESSAGE :: ustr where
  "CLEARED_MESSAGE = u ''[Old tool result content cleared]''"

section \<open>Clearing\<close>

text \<open>The closure over one message; \<^const>\<open>None\<close> is the panic of the slice.\<close>

definition micro_compact_one :: "'m micro_ops \<Rightarrow> micro_compact_config \<Rightarrow> nat \<Rightarrow> 'm \<Rightarrow> 'm option" where
  "micro_compact_one ops config now msg =
     (if \<not> mc_is_tool_result ops msg then Some msg
      else case mc_tool_name ops msg of
        None \<Rightarrow> Some msg
      | Some tool_name \<Rightarrow>
          if \<not> is_compactable tool_name then Some msg
          else
            let age = now - mc_created_at ops msg in
            if age \<le> max_age config then Some msg
            else
              let content = mc_content ops msg in
              if byte_len content \<le> summary_max_chars config
              then Some (mc_with_content ops msg CLEARED_MESSAGE)
              else map_option (\<lambda>head. mc_with_content ops msg (head @ [10] @ CLEARED_MESSAGE))
                     (slice_to (summary_max_chars config) content))"

definition micro_compact_messages :: "'m micro_ops \<Rightarrow> 'm list \<Rightarrow> micro_compact_config \<Rightarrow> nat \<Rightarrow> 'm list option" where
  "micro_compact_messages ops messages config now = those (map (micro_compact_one ops config now) messages)"

section \<open>With a memory of what was cleared\<close>

type_synonym cache_aware_state = "ustr list"

definition ca_record :: "cache_aware_state \<Rightarrow> ustr \<Rightarrow> cache_aware_state" where
  "ca_record seen fp = List.insert fp seen"

definition ca_contains :: "cache_aware_state \<Rightarrow> ustr \<Rightarrow> bool" where
  "ca_contains seen fp \<longleftrightarrow> fp \<in> set seen"

definition ca_len :: "cache_aware_state \<Rightarrow> nat" where
  "ca_len seen = length seen"

record 'm cached_result =
  cr_items :: "'m list"
  cr_cache_edits :: "ustr list"
  cr_skipped :: nat

text \<open>The loop: the messages to compact, the new fingerprints, the number skipped, the state.\<close>

fun cached_loop :: "('m \<Rightarrow> ustr option) \<Rightarrow> 'm list \<Rightarrow> 'm list \<times> ustr list \<times> nat \<times> cache_aware_state
    \<Rightarrow> 'm list \<times> ustr list \<times> nat \<times> cache_aware_state" where
  "cached_loop fingerprint [] acc = acc"
| "cached_loop fingerprint (msg # ms) (to_compact, cache_edits, skipped, st) =
     (case fingerprint msg of
        Some fp \<Rightarrow>
          if ca_contains st fp then cached_loop fingerprint ms (to_compact @ [msg], cache_edits, skipped + 1, st)
          else cached_loop fingerprint ms (to_compact @ [msg], cache_edits @ [fp], skipped, ca_record st fp)
      | None \<Rightarrow> cached_loop fingerprint ms (to_compact @ [msg], cache_edits, skipped, st))"

definition cached_micro_compact :: "'m micro_ops \<Rightarrow> 'm list \<Rightarrow> micro_compact_config \<Rightarrow> nat \<Rightarrow> cache_aware_state
    \<Rightarrow> ('m \<Rightarrow> ustr option) \<Rightarrow> ('m cached_result \<times> cache_aware_state) option" where
  "cached_micro_compact ops messages config now st fingerprint =
     (case cached_loop fingerprint messages ([], [], 0, st) of
        (to_compact, cache_edits, skipped, st') \<Rightarrow>
          map_option (\<lambda>items. (\<lparr>cr_items = items, cr_cache_edits = cache_edits, cr_skipped = skipped\<rparr>, st'))
            (micro_compact_messages ops to_compact config now))"

section \<open>The default fingerprint\<close>

fun fnv1a :: "64 word \<Rightarrow> byte list \<Rightarrow> 64 word" where
  "fnv1a h [] = h"
| "fnv1a h (b # bs) = fnv1a ((h XOR of_nat b) * 0x100000001b3) bs"

definition hex_digit :: "nat \<Rightarrow> nat" where
  "hex_digit d = (if d < 10 then 48 + d else 87 + d)"

text \<open>\<^verbatim>\<open>{h:016x}\<close>: sixteen hexadecimal digits, most significant first.\<close>

definition hex16 :: "64 word \<Rightarrow> ustr" where
  "hex16 h = map (\<lambda>i. hex_digit (unat (drop_bit (4 * i) h AND 15))) (rev [0..<16])"

definition fold_hash :: "ustr \<Rightarrow> ustr" where
  "fold_hash s = hex16 (fnv1a 0xcbf29ce484222325 (as_bytes s))"

definition default_fingerprint :: "'m micro_ops \<Rightarrow> 'm \<Rightarrow> ustr option" where
  "default_fingerprint ops msg =
     (if \<not> mc_is_tool_result ops msg then None
      else case mc_tool_name ops msg of
        None \<Rightarrow> None
      | Some tool \<Rightarrow> Some (tool @ u '':'' @ fold_hash (take 64 (mc_content ops msg))))"

section \<open>What an implementation promises\<close>

text \<open>Replacing the content changes nothing else the algorithm looks at, and replacing it twice by
  the same text is replacing it once.\<close>

locale micro_compactable =
  fixes ops :: "'m micro_ops"
  assumes content_with: "mc_is_tool_result ops m \<Longrightarrow> mc_content ops (mc_with_content ops m c) = c"
    and tool_result_with: "mc_is_tool_result ops m \<Longrightarrow> mc_is_tool_result ops (mc_with_content ops m c)"
    and tool_name_with: "mc_is_tool_result ops m \<Longrightarrow> mc_tool_name ops (mc_with_content ops m c) = mc_tool_name ops m"
    and created_with: "mc_is_tool_result ops m \<Longrightarrow> mc_created_at ops (mc_with_content ops m c) = mc_created_at ops m"
    and with_twice: "mc_is_tool_result ops m \<Longrightarrow> mc_with_content ops (mc_with_content ops m c) c = mc_with_content ops m c"
begin

lemmas with_simps = content_with tool_result_with tool_name_with created_with with_twice

lemma one_again:
  assumes "micro_compact_one ops config now m = Some m'" and "byte_len CLEARED_MESSAGE \<le> summary_max_chars config"
  shows "micro_compact_one ops config now m' = Some m'"
proof (cases "m' = m")
  case False
  let ?n = "summary_max_chars config"
  from assms(1) False have m: "mc_is_tool_result ops m"
    by (auto simp: micro_compact_one_def split: if_splits)
  obtain name where name: "mc_tool_name ops m = Some name" "is_compactable name"
      "\<not> now - mc_created_at ops m \<le> max_age config"
    using assms(1) False m by (auto simp: micro_compact_one_def Let_def split: if_splits option.splits)
  consider "m' = mc_with_content ops m CLEARED_MESSAGE"
    | head where "slice_to ?n (mc_content ops m) = Some head" "m' = mc_with_content ops m (head @ [10] @ CLEARED_MESSAGE)"
    using assms(1) m name by (auto simp: micro_compact_one_def Let_def split: if_splits)
  then show ?thesis
  proof cases
    case 1
    then show ?thesis using m name assms(2) by (simp add: micro_compact_one_def with_simps)
  next
    case 2
    have "byte_len head = ?n" using 2(1) by (simp add: slice_to_Some)
    then have "slice_to ?n (head @ [10] @ CLEARED_MESSAGE) = Some head" "\<not> byte_len (head @ [10] @ CLEARED_MESSAGE) \<le> ?n"
      by (auto simp: slice_to_Some byte_len_def)
    then show ?thesis using 2(2) m name by (simp add: micro_compact_one_def Let_def with_simps)
  qed
qed (use assms in simp)

lemma messages_again:
  assumes "micro_compact_messages ops ms config now = Some ms'" and "byte_len CLEARED_MESSAGE \<le> summary_max_chars config"
  shows "micro_compact_messages ops ms' config now = Some ms'"
  using assms(1) one_again [OF _ assms(2)] unfolding micro_compact_messages_def
  by (induction ms arbitrary: ms') (fastforce split: option.splits)+

end

section \<open>The bookkeeping of the cache\<close>

text \<open>The fingerprints that are new, each at its first occurrence.\<close>

fun fresh :: "ustr set \<Rightarrow> ustr list \<Rightarrow> ustr list" where
  "fresh seen [] = []"
| "fresh seen (x # xs) = (if x \<in> seen then fresh seen xs else x # fresh (insert x seen) xs)"

lemma set_fresh: "set (fresh seen xs) = set xs - seen"
  by (induction xs arbitrary: seen) auto

lemma distinct_fresh: "distinct (fresh seen xs)"
  by (induction xs arbitrary: seen) (simp_all add: set_fresh)

lemma length_fresh: "length (fresh seen xs) \<le> length xs"
  by (induction xs arbitrary: seen) (simp_all add: le_SucI)

lemma ca_simps: "ca_contains st fp \<longleftrightarrow> fp \<in> set st" "set (ca_record st fp) = insert fp (set st)"
    "fp \<in> set st \<Longrightarrow> ca_record st fp = st"
  by (simp_all add: ca_contains_def ca_record_def)

lemma cached_loop_eq:
  "cached_loop f ms (tc, ed, sk, st) =
     (tc @ ms, ed @ fresh (set st) (List.map_filter f ms),
      sk + (length (List.map_filter f ms) - length (fresh (set st) (List.map_filter f ms))),
      foldl ca_record st (List.map_filter f ms))"
proof (induction ms arbitrary: tc ed sk st)
  case (Cons m ms)
  show ?case
  proof (cases "f m")
    case (Some fp)
    then have mf: "List.map_filter f (m # ms) = fp # List.map_filter f ms" by (simp add: map_filter_simps)
    show ?thesis
    proof (cases "fp \<in> set st")
      case True
      then show ?thesis using Some Suc_diff_le [OF length_fresh [of "set st" "List.map_filter f ms"]]
        by (simp add: Cons.IH mf ca_simps)
    next
      case False
      then show ?thesis using Some by (simp add: Cons.IH mf ca_simps)
    qed
  qed (simp add: Cons map_filter_simps)
qed (simp add: map_filter_simps)

text \<open>
  What the cache-aware pass does: every message is compacted exactly as without the cache,
  whatever is recorded as seen; the recorded fingerprints only decide the report, which lists the
  new ones once each in order of appearance and counts the others as skipped.
\<close>

theorem cache_only_reports:
  "cached_micro_compact ops ms config now st f =
     map_option (\<lambda>items.
       (\<lparr>cr_items = items, cr_cache_edits = fresh (set st) (List.map_filter f ms),
         cr_skipped = length (List.map_filter f ms) - length (fresh (set st) (List.map_filter f ms))\<rparr>,
        foldl ca_record st (List.map_filter f ms)))
     (micro_compact_messages ops ms config now)"
  by (simp add: cached_micro_compact_def cached_loop_eq)

lemma fold_hash_length: "length (fold_hash s) = 16"
  by (simp add: fold_hash_def hex16_def)

end
