(* ===== verification/Working_Memory.thy ===== *)
theory Working_Memory
  imports Micro_Compact F64
begin

text \<open>
  The working memory of an agent, \<^verbatim>\<open>crates/codegen/ccore/src/memory/working.rs\<close>: the messages of the
  context window, the incremental token counter and the levels of compaction. Token counts are
  32-bit and wrap; the clock is an input of the operations that read it; a panic is \<^const>\<open>None\<close>. The
  embedding index and the model that writes summaries are not used by the operations here and are left
  out.
\<close>

section \<open>Entries and policy\<close>

datatype message_role = System | User | Assistant

fun role_display :: "message_role \<Rightarrow> ustr" where
  "role_display System = u ''system''"
| "role_display User = u ''user''"
| "role_display Assistant = u ''assistant''"

definition role_try_from :: "(ustr \<Rightarrow> nat \<Rightarrow> ustr) \<Rightarrow> ustr \<Rightarrow> message_role option" where
  "role_try_from lc s =
     (let l = to_lowercase lc s in
      if l = u ''system'' then Some System else if l = u ''user'' then Some User
      else if l = u ''assistant'' then Some Assistant else None)"

datatype working_entry =
    Hot message_role ustr nat nat
  | Warm ustr nat "nat \<times> nat"
  | Cold ustr "nat \<times> nat" nat

fun token_count :: "working_entry \<Rightarrow> nat" where
  "token_count (Hot role content n t) = n"
| "token_count (Warm summary n src) = n"
| "token_count (Cold placeholder src n) = n"

fun is_cold :: "working_entry \<Rightarrow> bool" where
  "is_cold (Cold _ _ _) = True"
| "is_cold _ = False"

datatype compaction_level = Snip | MicroCompact | AutoCompact | ReactiveCompact

record compaction_policy =
  auto_compact_threshold_percent :: nat
  compact_model :: "ustr option"
  memory_flush_enabled :: bool
  wall_clock_budget_secs :: nat
  keep_recent_turns :: nat
  fallback_on_failure :: bool
  stable_prefix_enabled :: bool
  tool_output_snip_threshold :: nat
  micro_compact_retain_ratio :: rat

definition compaction_policy_default :: compaction_policy where
  "compaction_policy_default =
     \<lparr>auto_compact_threshold_percent = 85, compact_model = None, memory_flush_enabled = False,
      wall_clock_budget_secs = 300, keep_recent_turns = 4, fallback_on_failure = True,
      stable_prefix_enabled = True, tool_output_snip_threshold = 2000, micro_compact_retain_ratio = 1 / 2\<rparr>"

text \<open>The doubles 0.99, 0.95 and 0.90.\<close>

definition select_level :: "rat \<Rightarrow> compaction_level" where
  "select_level ratio =
     (if 4458563631096791 / 4503599627370496 \<le> ratio then ReactiveCompact
      else if 4278419646001971 / 4503599627370496 \<le> ratio then AutoCompact
      else if 8106479329266893 / 9007199254740992 \<le> ratio then MicroCompact
      else Snip)"

record compaction_result =
  tokens_before :: nat
  tokens_after :: nat
  entries_compacted :: nat
  compacted_range :: "nat \<times> nat"

section \<open>Entries as messages of the clearing pass\<close>

fun we_created_at :: "nat \<Rightarrow> working_entry \<Rightarrow> nat" where
  "we_created_at now (Hot role content n t) = t"
| "we_created_at now _ = now"

fun we_is_tool_result :: "working_entry \<Rightarrow> bool" where
  "we_is_tool_result (Hot User _ _ _) = True"
| "we_is_tool_result _ = False"

definition we_tool_name :: "working_entry \<Rightarrow> ustr option" where
  "we_tool_name e = (if we_is_tool_result e then Some (u ''FileRead'') else None)"

fun we_content :: "working_entry \<Rightarrow> ustr" where
  "we_content (Hot role content n t) = content"
| "we_content (Warm summary n src) = summary"
| "we_content (Cold placeholder src n) = placeholder"

fun we_with_content :: "working_entry \<Rightarrow> ustr \<Rightarrow> working_entry" where
  "we_with_content (Hot role content n t) new_content =
     (let new_tokens = max (byte_len new_content mod 2 ^ 32 div 4) 1
      in Hot role new_content (min new_tokens n) t)"
| "we_with_content e _ = e"

definition working_ops :: "nat \<Rightarrow> working_entry micro_ops" where
  "working_ops now = \<lparr>mc_created_at = we_created_at now, mc_is_tool_result = we_is_tool_result,
     mc_tool_name = we_tool_name, mc_content = we_content, mc_with_content = we_with_content\<rparr>"

section \<open>The memory\<close>

record working_memory =
  entries :: "working_entry list"
  max_tokens :: nat
  used_tokens_cached :: nat
  policy :: compaction_policy
  stable_prefix_len :: nat

definition working_memory_new :: "nat \<Rightarrow> working_memory" where
  "working_memory_new n = \<lparr>entries = [], max_tokens = n, used_tokens_cached = 0,
     policy = compaction_policy_default, stable_prefix_len = 0\<rparr>"

definition lock_stable_prefix :: "working_memory \<Rightarrow> working_memory" where
  "lock_stable_prefix m = m\<lparr>stable_prefix_len := length (entries m)\<rparr>"

definition recalc_used_tokens :: "working_memory \<Rightarrow> working_memory" where
  "recalc_used_tokens m = m\<lparr>used_tokens_cached := sum_list (map token_count (entries m)) mod 2 ^ 32\<rparr>"

definition available_tokens :: "working_memory \<Rightarrow> nat" where
  "available_tokens m = max_tokens m - used_tokens_cached m"

definition push_hot :: "nat \<Rightarrow> working_memory \<Rightarrow> message_role \<Rightarrow> ustr \<Rightarrow> nat \<Rightarrow> working_memory" where
  "push_hot now m role content n =
     m\<lparr>used_tokens_cached := (used_tokens_cached m + n) mod 2 ^ 32,
       entries := entries m @ [Hot role content n now]\<rparr>"

definition replace_entries :: "working_memory \<Rightarrow> working_entry list \<Rightarrow> working_memory" where
  "replace_entries m es = recalc_used_tokens (m\<lparr>entries := es\<rparr>)"

definition set_compaction_policy :: "working_memory \<Rightarrow> compaction_policy \<Rightarrow> working_memory" where
  "set_compaction_policy m p = m\<lparr>policy := p\<rparr>"

text \<open>The prefix of a summary sent to the model, and the placeholder prefixes, are Chinese.\<close>

definition context_summary :: ustr where
  "context_summary = [91, 19978, 19979, 25991, 25688, 35201, 93, 32]"

fun chat_message :: "working_entry \<Rightarrow> ustr \<times> ustr" where
  "chat_message (Hot role content n t) = (role_display role, content)"
| "chat_message (Warm summary n src) = (u ''system'', context_summary @ summary)"
| "chat_message (Cold placeholder src n) = (u ''system'', placeholder)"

definition to_chat_messages :: "working_memory \<Rightarrow> (ustr \<times> ustr) list" where
  "to_chat_messages m = map chat_message (entries m)"

definition should_compact :: "working_memory \<Rightarrow> bool" where
  "should_compact m \<longleftrightarrow> max_tokens m \<noteq> 0 \<and>
     auto_compact_threshold_percent (policy m) \<le> used_tokens_cached m * 100 div max_tokens m"

section \<open>Level 1: cutting long tool results\<close>

definition cut_left :: ustr where
  "cut_left = [10, 91, 46, 46, 46, 24050, 30465, 30053, 32]"

definition cut_right :: ustr where
  "cut_right = [32, 23383, 31526, 46, 46, 46, 93, 10]"

text \<open>The entry and whether it was cut.\<close>

fun snip_entry :: "nat \<Rightarrow> working_entry \<Rightarrow> (working_entry \<times> bool) option" where
  "snip_entry threshold (Hot User content n t) =
     (if threshold < n then
        let head_len = min (byte_len content) 500; tail_start = byte_len content - 500
        in case (slice_to head_len content, slice_from tail_start content) of
             (Some head, Some tail) \<Rightarrow>
               Some (Hot User
                 (if head_len < tail_start
                  then head @ cut_left @ dec (tail_start - head_len) @ cut_right @ tail else content)
                 (max (n div 3) 1) t, True)
           | _ \<Rightarrow> None
      else Some (Hot User content n t, False))"
| "snip_entry threshold e = Some (e, False)"

definition compact_snip :: "working_memory \<Rightarrow> compaction_policy \<Rightarrow> nat
    \<Rightarrow> (working_memory \<times> compaction_result) option" where
  "compact_snip m pol prefix_end =
     (case those (map (snip_entry (tool_output_snip_threshold pol)) (drop prefix_end (entries m))) of
        None \<Rightarrow> None
      | Some rs \<Rightarrow>
          (let m' = recalc_used_tokens (m\<lparr>entries := take prefix_end (entries m) @ map fst rs\<rparr>)
           in Some (m', \<lparr>tokens_before = used_tokens_cached m, tokens_after = used_tokens_cached m',
                entries_compacted = length (filter snd rs), compacted_range = (prefix_end, length (entries m'))\<rparr>)))"

section \<open>Level 2: clearing aged tool results\<close>

definition compact_micro :: "nat \<Rightarrow> working_memory \<Rightarrow> nat \<Rightarrow> (working_memory \<times> compaction_result) option" where
  "compact_micro now m prefix_end =
     (let prefix_len = min prefix_end (length (entries m)); rest = drop prefix_len (entries m)
      in case micro_compact_messages (working_ops now) rest micro_compact_config_default now of
           None \<Rightarrow> None
         | Some rest' \<Rightarrow>
             (let m' = recalc_used_tokens (m\<lparr>entries := take prefix_len (entries m) @ rest'\<rparr>)
              in Some (m', \<lparr>tokens_before = used_tokens_cached m, tokens_after = used_tokens_cached m',
                   entries_compacted = length (filter (\<lambda>(old, new). we_content old \<noteq> we_content new) (zip rest rest')),
                   compacted_range = (prefix_end, length (entries m'))\<rparr>)))"

section \<open>Level 3: demoting entries\<close>

definition cold_prefix :: ustr where
  "cold_prefix = [91, 20919, 32531, 23384, 93, 32]"

definition warm_prefix :: ustr where
  "warm_prefix = [91, 24050, 21387, 32553, 93, 32]"

fun warm_to_cold :: "working_entry \<Rightarrow> working_entry" where
  "warm_to_cold (Warm summary n src) = Cold (cold_prefix @ floor_prefix 40 summary) src (max (n div 4) 1)"
| "warm_to_cold e = e"

fun is_hot :: "working_entry \<Rightarrow> bool" where
  "is_hot (Hot _ _ _ _) = True"
| "is_hot _ = False"

fun hot_to_warm :: "nat \<Rightarrow> working_entry \<Rightarrow> working_entry" where
  "hot_to_warm i (Hot role content n t) =
     Warm (warm_prefix @ floor_prefix (max (byte_len content div 2) 1) content @ [46, 46, 46]) (max (n div 2) 1) (i, i)"
| "hot_to_warm i e = e"

definition compact_auto :: "working_memory \<Rightarrow> nat \<Rightarrow> nat \<Rightarrow> working_memory \<times> compaction_result" where
  "compact_auto m prefix_end before =
     (let total_n = length (entries m); keep_hot_recent = 4
      in if total_n \<le> prefix_end + keep_hot_recent then
           (m, \<lparr>tokens_before = before, tokens_after = used_tokens_cached m, entries_compacted = 0,
                compacted_range = (0, 0)\<rparr>)
         else
           let es1 = take prefix_end (entries m) @ map warm_to_cold (drop prefix_end (entries m));
               hot_cutoff = total_n - keep_hot_recent;
               hits = filter (\<lambda>i. is_hot (es1 ! i)) [prefix_end..<hot_cutoff];
               es2 = map (\<lambda>i. if prefix_end \<le> i \<and> i < hot_cutoff then hot_to_warm i (es1 ! i) else es1 ! i) [0..<total_n];
               m' = recalc_used_tokens (m\<lparr>entries := es2\<rparr>)
           in (m', \<lparr>tokens_before = before, tokens_after = used_tokens_cached m', entries_compacted = length hits,
                    compacted_range = (foldl min total_n hits, foldl max 0 hits)\<rparr>))"

section \<open>Compaction\<close>

definition usage_ratio :: "working_memory \<Rightarrow> rat" where
  "usage_ratio m = (if 0 < max_tokens m then f64_div (used_tokens_cached m) (max_tokens m) else 0)"

definition compact_with_policy :: "nat \<Rightarrow> working_memory \<Rightarrow> compaction_policy
    \<Rightarrow> (working_memory \<times> compaction_result) option" where
  "compact_with_policy now m pol =
     (let before = used_tokens_cached m;
          prefix_end = (if stable_prefix_enabled pol then stable_prefix_len m else 0)
      in case select_level (usage_ratio m) of
           Snip \<Rightarrow> compact_snip m pol prefix_end
         | MicroCompact \<Rightarrow>
             (case compact_snip m pol prefix_end of
                None \<Rightarrow> None
              | Some (m1, r1) \<Rightarrow>
                  if 8106479329266893 / 9007199254740992 \<le> f64_div (used_tokens_cached m1) (max (max_tokens m1) 1)
                  then (case compact_micro now m1 prefix_end of
                          None \<Rightarrow> None
                        | Some (m2, r2) \<Rightarrow>
                            Some (m2, \<lparr>tokens_before = before, tokens_after = tokens_after r2,
                              entries_compacted = entries_compacted r1 + entries_compacted r2,
                              compacted_range = (min (fst (compacted_range r1)) (fst (compacted_range r2)),
                                                 max (snd (compacted_range r1)) (snd (compacted_range r2)))\<rparr>))
                  else Some (m1, r1))
         | _ \<Rightarrow>
             (case compact_snip m pol prefix_end of
                None \<Rightarrow> None
              | Some (m1, r1) \<Rightarrow>
                  (case compact_micro now m1 prefix_end of
                     None \<Rightarrow> None
                   | Some (m2, r2) \<Rightarrow> Some (compact_auto m2 prefix_end before))))"

definition wm_compact :: "nat \<Rightarrow> working_memory \<Rightarrow> (working_memory \<times> compaction_result) option" where
  "wm_compact now m = compact_with_policy now m (policy m)"

section \<open>Compaction by turns\<close>

definition arrow_join :: ustr where
  "arrow_join = [32, 8594, 32]"

definition turn_prefix :: ustr where
  "turn_prefix = [91, 23545, 35805, 25688, 35201, 93, 32]"

definition group_by_turns :: "working_entry list \<Rightarrow> nat list" where
  "group_by_turns es = filter (\<lambda>i. we_is_tool_result (es ! i)) [0..<length es]"

definition summarize_turn :: "working_entry list \<Rightarrow> ustr" where
  "summarize_turn turn = turn_prefix @ take 200 (join_with arrow_join (map we_content turn))"

text \<open>\<^verbatim>\<open>drain(a..b)\<close> of the entries and the insertion of their summary at \<open>a\<close>; the slice panics when
  the range is not within the entries.\<close>

definition fold_turn :: "nat \<Rightarrow> nat \<Rightarrow> working_entry list \<Rightarrow> (working_entry list \<times> working_entry list) option" where
  "fold_turn a b es =
     (if a \<le> b \<and> b \<le> length es then
        let turn = take (b - a) (drop a es); summary = summarize_turn turn;
            summary_tokens = max (byte_len summary mod 2 ^ 32 div 4) 1
        in Some (take a es @ [Warm summary summary_tokens (a, a)] @ drop b es, turn)
      else None)"

fun conversation_loop :: "nat list \<Rightarrow> nat list \<Rightarrow> working_entry list \<Rightarrow> working_entry list
    \<Rightarrow> (working_entry list \<times> working_entry list) option" where
  "conversation_loop turns [] es removed = Some (es, removed)"
| "conversation_loop turns (a # as) es removed =
     (let b = (if a + 1 < length turns then turns ! (a + 1) else length es)
      in case fold_turn a b es of
           None \<Rightarrow> None
         | Some (es', turn) \<Rightarrow> conversation_loop turns as es' (removed @ turn))"

definition compact_conversation :: "working_memory \<Rightarrow> nat \<Rightarrow> (working_memory \<times> working_entry list) option" where
  "compact_conversation m keep =
     (let turns = group_by_turns (entries m); total_n = length turns
      in if total_n \<le> keep then Some (m, [])
         else map_option (\<lambda>(es, removed). (m\<lparr>entries := es\<rparr>, removed))
                (conversation_loop turns (rev [0..<total_n - keep]) (entries m) []))"

fun warm_to_cold_slice :: "working_entry \<Rightarrow> working_entry option" where
  "warm_to_cold_slice (Warm summary n src) =
     map_option (\<lambda>p. Cold (cold_prefix @ p) src (max (n div 4) 1)) (slice_to (min (byte_len summary) 40) summary)"
| "warm_to_cold_slice e = Some e"

record partial_state =
  ps_entries :: "working_entry list"
  ps_compacted :: nat
  ps_start :: nat
  ps_end :: nat

definition partial_turn :: "nat list \<Rightarrow> nat \<Rightarrow> partial_state \<Rightarrow> partial_state option" where
  "partial_turn turns a s =
     (let es = ps_entries s; b = (case find (\<lambda>t. a < t) turns of Some t \<Rightarrow> t | None \<Rightarrow> length es)
      in if b \<le> a then Some s
         else case fold_turn a b es of
                None \<Rightarrow> None
              | Some (es', turn) \<Rightarrow>
                  Some \<lparr>ps_entries = es', ps_compacted = ps_compacted s + length turn,
                    ps_start = min (ps_start s) a, ps_end = max (ps_end s) (min b (length es))\<rparr>)"

fun partial_loop :: "nat list \<Rightarrow> nat list \<Rightarrow> partial_state \<Rightarrow> partial_state option" where
  "partial_loop turns [] s = Some s"
| "partial_loop turns (a # as) s =
     (case partial_turn turns a s of None \<Rightarrow> None | Some s' \<Rightarrow> partial_loop turns as s')"

definition partial_compact :: "working_memory \<Rightarrow> nat \<Rightarrow> (working_memory \<times> compaction_result) option" where
  "partial_compact m keep =
     (let turns = group_by_turns (entries m); total_turns = length turns
      in if total_turns \<le> keep then
           Some (m, \<lparr>tokens_before = used_tokens_cached m, tokens_after = used_tokens_cached m,
                     entries_compacted = 0, compacted_range = (0, 0)\<rparr>)
         else
           case those (map warm_to_cold_slice (entries m)) of
             None \<Rightarrow> None
           | Some es \<Rightarrow>
               (case partial_loop turns (rev (take (total_turns - keep) turns))
                       \<lparr>ps_entries = es, ps_compacted = 0, ps_start = length (entries m), ps_end = 0\<rparr> of
                  None \<Rightarrow> None
                | Some s \<Rightarrow>
                    (let m' = recalc_used_tokens (m\<lparr>entries := ps_entries s\<rparr>)
                     in Some (m', \<lparr>tokens_before = used_tokens_cached m, tokens_after = used_tokens_cached m',
                          entries_compacted = ps_compacted s, compacted_range = (ps_start s, ps_end s)\<rparr>))))"

section \<open>The summary for the system prompt\<close>

fun hot_preview :: "working_entry \<Rightarrow> ustr option" where
  "hot_preview (Hot role content n t) =
     map_option (\<lambda>preview. u ''['' @ role_display role @ u ''] '' @ preview @ [10])
       (if 100 < byte_len content then map_option (\<lambda>p. p @ u ''...'') (slice_to 100 content) else Some content)"
| "hot_preview e = Some []"

definition hot_entries_summary :: "working_memory \<Rightarrow> ustr option" where
  "hot_entries_summary m = map_option (trim_end \<circ> concat) (those (map hot_preview (entries m)))"

section \<open>The clearing pass on entries\<close>

interpretation wm: micro_compactable "working_ops now" for now
proof
  fix m c
  assume "mc_is_tool_result (working_ops now) m"
  then obtain content n t where m: "m = Hot User content n t"
    by (cases m rule: we_is_tool_result.cases) (auto simp: working_ops_def)
  show "mc_content (working_ops now) (mc_with_content (working_ops now) m c) = c"
    "mc_is_tool_result (working_ops now) (mc_with_content (working_ops now) m c)"
    "mc_tool_name (working_ops now) (mc_with_content (working_ops now) m c) = mc_tool_name (working_ops now) m"
    "mc_created_at (working_ops now) (mc_with_content (working_ops now) m c) = mc_created_at (working_ops now) m"
    "mc_with_content (working_ops now) (mc_with_content (working_ops now) m c) c = mc_with_content (working_ops now) m c"
    by (simp_all add: m working_ops_def we_tool_name_def)
qed

lemma FileRead_compactable: "is_compactable (u ''FileRead'')"
  by (simp add: is_compactable_def COMPACTABLE_TOOLS_def eq_ignore_ascii_case_def del: u_Cons)

section \<open>What every compaction keeps\<close>

lemma those_map_Some: "those (map f xs) = Some ys \<longleftrightarrow> list_all2 (\<lambda>x y. f x = Some y) xs ys"
proof (induction xs arbitrary: ys)
  case (Cons x xs)
  then show ?case by (cases ys) (auto split: option.splits)
qed auto

lemma those_map_None: "those (map f xs) = None \<longleftrightarrow> (\<exists>x \<in> set xs. f x = None)"
  by (induction xs) (auto split: option.splits)

text \<open>A positive count stays positive and does not grow.\<close>

definition shrinks :: "working_entry \<Rightarrow> working_entry \<Rightarrow> bool" where
  "shrinks e e' \<longleftrightarrow> (0 < token_count e \<longrightarrow> 0 < token_count e' \<and> token_count e' \<le> token_count e)"

text \<open>
  A message in full form keeps that form with its role and time; only a user message, in which tool results
  come, may lose text.
\<close>

definition keeps_form :: "working_entry \<Rightarrow> working_entry \<Rightarrow> bool" where
  "keeps_form e e' \<longleftrightarrow> (\<forall>role content n t. e = Hot role content n t \<longrightarrow>
     (\<exists>content' n'. e' = Hot role content' n' t \<and> (role \<noteq> User \<longrightarrow> content' = content \<and> n' = n)))"

definition compacted :: "nat \<Rightarrow> working_entry list \<Rightarrow> working_entry list \<Rightarrow> bool" where
  "compacted p es es' \<longleftrightarrow> length es' = length es \<and> take p es' = take p es \<and> list_all2 shrinks es es' \<and>
     (\<forall>i < length es. length es \<le> i + 4 \<longrightarrow> keeps_form (es ! i) (es' ! i))"

lemma shrinks_refl: "shrinks e e" by (simp add: shrinks_def)

lemma shrinks_trans: "shrinks a b \<Longrightarrow> shrinks b c \<Longrightarrow> shrinks a c" by (auto simp: shrinks_def)

lemma keeps_form_refl [simp]: "keeps_form e e" by (auto simp: keeps_form_def)

lemma keeps_form_trans: "keeps_form a b \<Longrightarrow> keeps_form b c \<Longrightarrow> keeps_form a c"
  unfolding keeps_form_def by metis

lemma compacted_refl: "compacted p es es"
  by (simp add: compacted_def list_all2_refl shrinks_refl)

lemma compacted_trans: "compacted p es es' \<Longrightarrow> compacted p es' es'' \<Longrightarrow> compacted p es es''"
  unfolding compacted_def using list_all2_trans [of shrinks shrinks shrinks es es' es''] shrinks_trans keeps_form_trans by auto

lemma compacted_parts:
  assumes "list_all2 (\<lambda>e e'. shrinks e e' \<and> keeps_form e e') (drop p es) xs"
  shows "compacted p es (take p es @ xs)"
proof -
  have l: "length xs = length es - p" using list_all2_lengthD [OF assms] by simp
  have "list_all2 (\<lambda>e e'. shrinks e e' \<and> keeps_form e e') (take p es @ drop p es) (take p es @ xs)"
    using assms by (intro list_all2_appendI list_all2_refl) (auto simp: shrinks_refl)
  moreover have "take p (take p es @ xs) = take p es" using l by (cases "p \<le> length es") auto
  ultimately show ?thesis using l by (auto simp: compacted_def list_all2_conv_all_nth)
qed

lemma snip_entry_shrinks:
  assumes "snip_entry th e = Some (e', b)"
  shows "shrinks e e' \<and> keeps_form e e'"
  using assms
  by (cases "(th, e)" rule: snip_entry.cases) (auto simp: shrinks_def keeps_form_def Let_def split: if_splits option.splits)

lemma recalc_simps [simp]:
  "entries (recalc_used_tokens m) = entries m" "max_tokens (recalc_used_tokens m) = max_tokens m"
  "policy (recalc_used_tokens m) = policy m" "stable_prefix_len (recalc_used_tokens m) = stable_prefix_len m"
  "used_tokens_cached (recalc_used_tokens m) = sum_list (map token_count (entries m)) mod 2 ^ 32"
  by (simp_all add: recalc_used_tokens_def)

definition same_frame :: "working_memory \<Rightarrow> working_memory \<Rightarrow> bool" where
  "same_frame m m' \<longleftrightarrow> max_tokens m' = max_tokens m \<and> policy m' = policy m \<and> stable_prefix_len m' = stable_prefix_len m"

lemma same_frame_recalc: "same_frame m (recalc_used_tokens (m\<lparr>entries := es\<rparr>))"
  by (simp add: same_frame_def)

lemma same_frame_trans: "same_frame m m1 \<Longrightarrow> same_frame m1 m2 \<Longrightarrow> same_frame m m2"
  by (simp add: same_frame_def)

definition counted :: "working_memory \<Rightarrow> bool" where
  "counted m \<longleftrightarrow> used_tokens_cached m = sum_list (map token_count (entries m)) mod 2 ^ 32"

lemma compact_snip_facts:
  assumes "compact_snip m pol p = Some (m', r)"
  shows "compacted p (entries m) (entries m')" "counted m'" "same_frame m m'"
proof -
  obtain rs where rs: "those (map (snip_entry (tool_output_snip_threshold pol)) (drop p (entries m))) = Some rs"
      "m' = recalc_used_tokens (m\<lparr>entries := take p (entries m) @ map fst rs\<rparr>)"
    using assms by (auto simp: compact_snip_def Let_def split: option.splits)
  have "list_all2 (\<lambda>e e'. shrinks e e' \<and> keeps_form e e') (drop p (entries m)) (map fst rs)"
    unfolding list_all2_map2 using rs(1) unfolding those_map_Some
    by (rule list_all2_mono) (metis snip_entry_shrinks surjective_pairing)
  then show "compacted p (entries m) (entries m')" "counted m'" "same_frame m m'"
    by (simp_all add: rs(2) compacted_parts same_frame_recalc counted_def)
qed

lemma we_with_content_shrinks:
  "shrinks e (we_with_content e c)" "we_is_tool_result e \<Longrightarrow> keeps_form e (we_with_content e c)"
proof -
  show "shrinks e (we_with_content e c)" by (cases e) (auto simp: shrinks_def Let_def)
  show "we_is_tool_result e \<Longrightarrow> keeps_form e (we_with_content e c)"
    by (cases e rule: we_is_tool_result.cases) (auto simp: keeps_form_def Let_def)
qed

lemma micro_one_shrinks:
  "micro_compact_one (working_ops now) c t e = Some e' \<Longrightarrow> shrinks e e' \<and> keeps_form e e'"
  using we_with_content_shrinks
  by (auto simp: micro_compact_one_def Let_def working_ops_def shrinks_refl split: if_splits option.splits)

lemma compact_micro_facts:
  assumes "compact_micro now m p = Some (m', r)"
  shows "compacted p (entries m) (entries m')" "counted m'" "same_frame m m'"
proof -
  let ?p = "min p (length (entries m))"
  obtain rest where rest: "micro_compact_messages (working_ops now) (drop ?p (entries m)) micro_compact_config_default now = Some rest"
      "m' = recalc_used_tokens (m\<lparr>entries := take ?p (entries m) @ rest\<rparr>)"
    using assms by (auto simp: compact_micro_def Let_def split: option.splits)
  have p: "drop ?p (entries m) = drop p (entries m)" "take ?p (entries m) = take p (entries m)"
    by (auto simp: min_def)
  have "list_all2 (\<lambda>e e'. shrinks e e' \<and> keeps_form e e') (drop p (entries m)) rest"
    using rest(1) unfolding micro_compact_messages_def those_map_Some p
    by (rule list_all2_mono) (rule micro_one_shrinks)
  then show "compacted p (entries m) (entries m')" "counted m'" "same_frame m m'"
    by (simp_all add: rest(2) p compacted_parts same_frame_recalc counted_def)
qed

lemma warm_to_cold_shrinks: "shrinks e (warm_to_cold e)"
  by (cases e) (auto simp: shrinks_def)

lemma hot_to_warm_shrinks: "shrinks e (hot_to_warm i e)"
  by (cases e) (auto simp: shrinks_def)

lemma keeps_form_warm_to_cold [simp]: "keeps_form e (warm_to_cold e)"
  by (cases e) (simp_all add: keeps_form_def)

lemma compact_auto_entries:
  assumes "p + 4 < length (entries m)" "i < length (entries m)"
  shows "entries (fst (compact_auto m p b)) ! i =
    (if i < p then entries m ! i
     else if i + 4 < length (entries m) then hot_to_warm i (warm_to_cold (entries m ! i))
     else warm_to_cold (entries m ! i))"
  using assms by (auto simp: compact_auto_def Let_def nth_append)

lemma compact_auto_facts:
  assumes "counted m"
  shows "compacted p (entries m) (entries (fst (compact_auto m p b)))"
    "counted (fst (compact_auto m p b))" "same_frame m (fst (compact_auto m p b))"
proof -
  let ?es = "entries m" and ?es' = "entries (fst (compact_auto m p b))"
  show "counted (fst (compact_auto m p b))" "same_frame m (fst (compact_auto m p b))"
    using assms by (simp_all add: compact_auto_def Let_def counted_def same_frame_def)
  show "compacted p ?es ?es'"
  proof (cases "p + 4 < length ?es")
    case True
    have l: "length ?es' = length ?es" by (simp add: compact_auto_def Let_def)
    have s: "shrinks (?es ! i) (?es' ! i)" if "i < length ?es" for i
      unfolding compact_auto_entries [OF True that]
      by (simp add: shrinks_refl warm_to_cold_shrinks shrinks_trans [OF warm_to_cold_shrinks hot_to_warm_shrinks])
    have t: "take p ?es' = take p ?es"
      by (rule nth_equalityI) (use True l compact_auto_entries [OF True] in auto)
    show ?thesis
      unfolding compacted_def list_all2_conv_all_nth
      using l s t compact_auto_entries [OF True] by auto
  qed (simp add: compact_auto_def Let_def compacted_refl)
qed

definition prefix_of :: "working_memory \<Rightarrow> compaction_policy \<Rightarrow> nat" where
  "prefix_of m pol = (if stable_prefix_enabled pol then stable_prefix_len m else 0)"

text \<open>Every compaction is a cut, possibly followed by a clearing, possibly followed by a demotion.\<close>

lemma compact_levels:
  assumes "compact_with_policy now m pol = Some (m', r)"
  obtains m1 r1 where "compact_snip m pol (prefix_of m pol) = Some (m1, r1)" "m' = m1"
    | m1 r1 r2 where "compact_snip m pol (prefix_of m pol) = Some (m1, r1)"
        "compact_micro now m1 (prefix_of m pol) = Some (m', r2)"
    | m1 r1 m2 r2 b where "compact_snip m pol (prefix_of m pol) = Some (m1, r1)"
        "compact_micro now m1 (prefix_of m pol) = Some (m2, r2)" "m' = fst (compact_auto m2 (prefix_of m pol) b)"
proof -
  define p where "p = prefix_of m pol"
  obtain m1 r1 where 1: "compact_snip m pol p = Some (m1, r1)"
    using assms unfolding compact_with_policy_def Let_def prefix_of_def [symmetric] p_def [symmetric]
    by (auto split: compaction_level.splits option.splits)
  have "m' = m1 \<or> (\<exists>r2. compact_micro now m1 p = Some (m', r2)) \<or>
      (\<exists>m2 r2. compact_micro now m1 p = Some (m2, r2) \<and> compact_auto m2 p (used_tokens_cached m) = (m', r))"
    using assms 1 unfolding compact_with_policy_def Let_def prefix_of_def [symmetric] p_def [symmetric]
    by (auto split: compaction_level.splits option.splits if_splits prod.splits)
  then show ?thesis using 1 that unfolding p_def by (metis fst_conv)
qed

lemma compact_facts:
  assumes "compact_with_policy now m pol = Some (m', r)"
  shows "compacted (prefix_of m pol) (entries m) (entries m')" "counted m'" "same_frame m m'"
proof -
  have "compacted (prefix_of m pol) (entries m) (entries m') \<and> counted m' \<and> same_frame m m'"
  proof (rule compact_levels [OF assms])
    fix m1 r1
    assume 1: "compact_snip m pol (prefix_of m pol) = Some (m1, r1)"
    note s = compact_snip_facts [OF 1]
    then show "m' = m1 \<Longrightarrow> ?thesis" by simp
    show ?thesis if "compact_micro now m1 (prefix_of m pol) = Some (m', r2)" for r2
      using compact_micro_facts [OF that] s compacted_trans same_frame_trans by blast
    show ?thesis if "compact_micro now m1 (prefix_of m pol) = Some (m2, r2)" "m' = fst (compact_auto m2 (prefix_of m pol) b)" for m2 r2 b
      using compact_micro_facts [OF that(1)] compact_auto_facts [of m2 "prefix_of m pol" b] s compacted_trans same_frame_trans
      unfolding that(2) by blast
  qed
  then show "compacted (prefix_of m pol) (entries m) (entries m')" "counted m'" "same_frame m m'" by simp_all
qed

text \<open>The memory used as an example: a locked system prompt and six user messages fill it.\<close>

definition sample_memory :: working_memory where
  "sample_memory = foldl (\<lambda>m i. push_hot i m User (u ''hello'') 10)
     (lock_stable_prefix (push_hot 0 (working_memory_new 70) System (u ''Be brief.'') 10)) [1..<7]"

lemma sample_memory_eq:
  "sample_memory = \<lparr>entries = Hot System (u ''Be brief.'') 10 0 # map (Hot User (u ''hello'') 10) [1..<7],
     max_tokens = 70, used_tokens_cached = 70, policy = compaction_policy_default, stable_prefix_len = 1\<rparr>"
  by (simp add: sample_memory_def push_hot_def lock_stable_prefix_def working_memory_new_def upt_conv_Cons)

lemma sample_compacts:
  "\<exists>r. compact_with_policy 0 sample_memory compaction_policy_default = Some r"
proof -
  have "compact_snip sample_memory compaction_policy_default 1 \<noteq> None"
    by (simp add: compact_snip_def sample_memory_eq compaction_policy_default_def upt_conv_Cons Let_def del: u_Cons)
  then obtain m1 r1 where 1: "compact_snip sample_memory compaction_policy_default 1 = Some (m1, r1)" by auto
  have "entries m1 = entries sample_memory"
    using 1 by (auto simp: compact_snip_def sample_memory_eq compaction_policy_default_def upt_conv_Cons Let_def simp del: u_Cons)
  then have "compact_micro 0 m1 1 \<noteq> None"
    by (simp add: compact_micro_def sample_memory_eq Let_def micro_compact_messages_def micro_compact_one_def
        working_ops_def we_tool_name_def upt_conv_Cons FileRead_compactable del: u_Cons)
  moreover have "usage_ratio sample_memory = 1" by (simp add: usage_ratio_def sample_memory_eq f64_div_self)
  ultimately show ?thesis
    using 1 by (auto simp: compact_with_policy_def select_level_def compaction_policy_default_def sample_memory_eq)
qed

text \<open>
  C11. What compaction leaves alone, at every level, under a policy that protects the prefix: the number of
  messages, the locked prefix word for word, and of the last four messages those in full form, which stay in
  full form at their place with role and time, system and assistant messages word for word. A user message, in
  which tool results come, may be cut or cleared, and a summary among the last four may be shortened to a
  placeholder.
\<close>

theorem compaction_keeps_prefix_and_recent:
  assumes "compact_with_policy now m pol = Some (m', r)" and "stable_prefix_enabled pol"
  shows "length (entries m') = length (entries m) \<and>
    take (stable_prefix_len m) (entries m') = take (stable_prefix_len m) (entries m) \<and>
    (\<forall>i role content n t. i < length (entries m) \<and> length (entries m) \<le> i + 4 \<and> entries m ! i = Hot role content n t \<longrightarrow>
       (\<exists>content' n'. entries m' ! i = Hot role content' n' t \<and> (role \<noteq> User \<longrightarrow> content' = content \<and> n' = n)))"
proof -
  have "compacted (prefix_of m pol) (entries m) (entries m')" using assms(1) by (rule compact_facts(1))
  then show ?thesis using assms(2) unfolding compacted_def prefix_of_def keeps_form_def by simp
qed

theorem compaction_keeps_prefix_and_recent_witness:
  "\<exists>m' r. compact_with_policy 0 sample_memory compaction_policy_default = Some (m', r) \<and>
     hd (entries m') = Hot System (u ''Be brief.'') 10 0"
proof -
  obtain m' r where r: "compact_with_policy 0 sample_memory compaction_policy_default = Some (m', r)"
    using sample_compacts by auto
  have "take 1 (entries m') = take 1 (entries sample_memory)"
    using compaction_keeps_prefix_and_recent [OF r]
    by (simp add: compaction_policy_default_def sample_memory_eq)
  then have "hd (entries m') = Hot System (u ''Be brief.'') 10 0"
    by (cases "entries m'") (simp_all add: sample_memory_eq del: u_Cons)
  with r show ?thesis by blast
qed

lemma sum_shrinks: "list_all2 shrinks es es' \<Longrightarrow> \<forall>e \<in> set es. 0 < token_count e \<Longrightarrow>
    sum_list (map token_count es') \<le> sum_list (map token_count es)"
  by (induction rule: list_all2_induct) (auto simp: shrinks_def)

text \<open>
  Compaction never raises the token count: when every message counts at least one token and the
  counter is exact, the count afterwards is exact again and not larger.
\<close>

theorem compaction_never_grows:
  assumes "compact_with_policy now m pol = Some (m', r)"
    and "\<forall>e \<in> set (entries m). 0 < token_count e"
    and "used_tokens_cached m = sum_list (map token_count (entries m))" and "used_tokens_cached m < 2 ^ 32"
  shows "used_tokens_cached m' = sum_list (map token_count (entries m')) \<and> used_tokens_cached m' \<le> used_tokens_cached m"
proof -
  have "sum_list (map token_count (entries m')) \<le> sum_list (map token_count (entries m))"
    using compact_facts(1) [OF assms(1)] assms(2) by (intro sum_shrinks) (auto simp: compacted_def)
  then show ?thesis using compact_facts(2) [OF assms(1)] assms(3,4) by (simp add: counted_def)
qed

theorem compaction_never_grows_witness:
  "\<exists>m' r. compact_with_policy 0 sample_memory compaction_policy_default = Some (m', r) \<and> used_tokens_cached m' \<le> 70"
proof -
  obtain m' r where r: "compact_with_policy 0 sample_memory compaction_policy_default = Some (m', r)"
    using sample_compacts by auto
  show ?thesis using compaction_never_grows [OF r] r by (auto simp: sample_memory_eq upt_conv_Cons)
qed

section \<open>The token counter\<close>

text \<open>
  The memories that the operations reach from a new one with budget \<open>n\<close>, and whether the counter was kept or
  recomputed since the last compaction by \<^verbatim>\<open>compact_conversation\<close>, which changes the messages and leaves the counter.
  Counts that are passed in are 32-bit.
\<close>

inductive wm_reach :: "nat \<Rightarrow> bool \<Rightarrow> working_memory \<Rightarrow> bool" for n where
  new: "wm_reach n True (working_memory_new n)"
| push: "wm_reach n b m \<Longrightarrow> k < 2 ^ 32 \<Longrightarrow> wm_reach n b (push_hot now m role content k)"
| lock: "wm_reach n b m \<Longrightarrow> wm_reach n b (lock_stable_prefix m)"
| set_policy: "wm_reach n b m \<Longrightarrow> wm_reach n b (set_compaction_policy m pol)"
| replace: "wm_reach n b m \<Longrightarrow> \<forall>e \<in> set es. token_count e < 2 ^ 32 \<Longrightarrow> wm_reach n True (replace_entries m es)"
| compact: "wm_reach n b m \<Longrightarrow> compact_with_policy now m pol = Some (m', r) \<Longrightarrow> wm_reach n True m'"
| partial: "wm_reach n b m \<Longrightarrow> partial_compact m keep = Some (m', r) \<Longrightarrow>
    wm_reach n (b \<or> keep < length (group_by_turns (entries m))) m'"
| conversation: "wm_reach n b m \<Longrightarrow> compact_conversation m keep = Some (m', removed) \<Longrightarrow>
    wm_reach n (b \<and> length (group_by_turns (entries m)) \<le> keep) m'"

lemma partial_compact_counted:
  assumes "partial_compact m keep = Some (m', r)"
  shows "max_tokens m' = max_tokens m" "keep < length (group_by_turns (entries m)) \<Longrightarrow> counted m'"
    "length (group_by_turns (entries m)) \<le> keep \<Longrightarrow> m' = m"
  using assms by (auto simp: partial_compact_def Let_def counted_def split: if_splits option.splits)

lemma compact_conversation_frame:
  assumes "compact_conversation m keep = Some (m', removed)"
  shows "max_tokens m' = max_tokens m" "used_tokens_cached m' = used_tokens_cached m"
    "length (group_by_turns (entries m)) \<le> keep \<Longrightarrow> m' = m"
  using assms by (auto simp: compact_conversation_def Let_def split: if_splits)

lemma push_hot_counted: "counted m \<Longrightarrow> counted (push_hot now m role content k)"
proof -
  have "used_tokens_cached (push_hot now m role content k) = (used_tokens_cached m + k) mod 2 ^ 32"
    "entries (push_hot now m role content k) = entries m @ [Hot role content k now]"
    by (simp_all add: push_hot_def)
  then show "counted m \<Longrightarrow> counted (push_hot now m role content k)" unfolding counted_def
    by (simp only: map_append sum_list_append list.map sum_list_simps token_count.simps mod_add_left_eq add_0_right)
qed

text \<open>
  C12. When the incremental token counter is exact. Over all operations that change a memory, the budget stays the
  one given at creation, and the counter is the sum of the counts of the messages, modulo its width, whenever no
  \<^verbatim>\<open>compact_conversation\<close> has removed messages since the memory was new or was last compacted otherwise or replaced; that
  operation itself leaves the counter as it was, whatever it removes.
\<close>

theorem counter_is_exact:
  assumes "wm_reach n b m"
  shows "max_tokens m = n \<and>
    (b \<longrightarrow> used_tokens_cached m = sum_list (map token_count (entries m)) mod 2 ^ 32) \<and>
    (\<forall>keep m' removed. compact_conversation m keep = Some (m', removed) \<longrightarrow> used_tokens_cached m' = used_tokens_cached m)"
proof -
  have "max_tokens m = n \<and> (b \<longrightarrow> counted m)"
    using assms
  proof induction
    case (push b m k now role content)
    have "max_tokens (push_hot now m role content k) = max_tokens m" by (simp add: push_hot_def)
    then show ?case using push.IH push_hot_counted by simp
  next
    case (compact b m now pol m' r)
    then show ?case using compact_facts [OF compact.hyps(2)] by (simp add: same_frame_def)
  next
    case (partial b m keep m' r)
    then show ?case using partial_compact_counted [OF partial.hyps(2)] by (cases "keep < length (group_by_turns (entries m))") auto
  next
    case (conversation b m keep m' removed)
    then show ?case using compact_conversation_frame [OF conversation.hyps(2)] by auto
  qed (simp_all add: counted_def working_memory_new_def lock_stable_prefix_def set_compaction_policy_def replace_entries_def)
  then show ?thesis using compact_conversation_frame(2) by (simp add: counted_def)
qed

theorem counter_is_exact_witness:
  "used_tokens_cached (push_hot 5 (push_hot 3 (working_memory_new 100) User (u ''a'') 4294967295) User (u ''b'') 3) =
     sum_list [4294967295, 3] mod 2 ^ 32"
proof -
  have "wm_reach 100 True (push_hot 5 (push_hot 3 (working_memory_new 100) User (u ''a'') 4294967295) User (u ''b'') 3)"
    by (intro wm_reach.intros) simp_all
  from counter_is_exact [OF this] show ?thesis by (simp add: push_hot_def working_memory_new_def)
qed

text \<open>
  Clearing aged tool results again at the same time changes nothing more.
\<close>

theorem micro_compaction_idempotent:
  assumes "micro_compact_messages (working_ops now) es micro_compact_config_default now = Some es'"
  shows "micro_compact_messages (working_ops now) es' micro_compact_config_default now = Some es'"
  by (rule wm.messages_again [OF assms])
    (simp add: CLEARED_MESSAGE_def micro_compact_config_default_def utf8_len_def)

section \<open>Wide characters\<close>

lemma those_NoneI: "x \<in> set xs \<Longrightarrow> f x = None \<Longrightarrow> those (map f xs) = None"
  unfolding those_map_None by blast

lemma wide_not_boundary:
  "\<forall>c \<in> set s. utf8_len c = 3 \<Longrightarrow> \<not> 3 dvd n \<Longrightarrow> \<not> is_char_boundary s n"
  using uniform_boundary by blast

text \<open>
  Messages in a script of three-byte characters, such as Chinese, panic the memory: cutting a
  long tool result keeps 500 bytes, clearing an aged one keeps 200, and the summary for the prompt keeps
  100, none of which ends a character.
\<close>

theorem wide_messages_panic:
  assumes "\<forall>c \<in> set s. utf8_len c = 3" and "500 \<le> byte_len s" and "Hot User s n t \<in> set (drop p (entries m))"
  shows "(tool_output_snip_threshold pol < n \<longrightarrow> compact_snip m pol p = None) \<and>
    (t + 300000000000 < now \<longrightarrow> compact_micro now m p = None) \<and>
    hot_entries_summary m = None"
proof -
  have nb: "\<not> is_char_boundary s 500" "\<not> is_char_boundary s 200" "\<not> is_char_boundary s 100"
    using wide_not_boundary [OF assms(1)] by (auto simp: dvd_eq_mod_eq_0)
  have "snip_entry th (Hot User s n t) = None" if "th < n" for th
  proof -
    have "min (byte_len s) 500 = 500" "slice_to 500 s = None" using assms(2) nb(1) by (simp_all add: slice_None_iff)
    then show ?thesis using that by (simp add: Let_def)
  qed
  then have 1: "tool_output_snip_threshold pol < n \<Longrightarrow> compact_snip m pol p = None"
    by (simp add: compact_snip_def those_NoneI [OF assms(3)] del: snip_entry.simps)
  have "micro_compact_one (working_ops now) micro_compact_config_default now (Hot User s n t) = None"
    if "t + 300000000000 < now"
    using that nb(2) assms(2)
    by (simp add: micro_compact_one_def working_ops_def we_tool_name_def FileRead_compactable
        micro_compact_config_default_def slice_None_iff del: u_Cons)
  moreover have "drop (min p (length (entries m))) (entries m) = drop p (entries m)" by (auto simp: min_def)
  ultimately have 2: "t + 300000000000 < now \<Longrightarrow> compact_micro now m p = None"
    by (simp add: compact_micro_def micro_compact_messages_def those_NoneI [OF assms(3)])
  have "hot_preview (Hot User s n t) = None" using nb(3) assms(2) by (simp add: slice_None_iff)
  then have 3: "hot_entries_summary m = None"
    using those_NoneI [OF in_set_dropD [OF assms(3)], of hot_preview] by (simp add: hot_entries_summary_def)
  show ?thesis using 1 2 3 by blast
qed

theorem wide_messages_panic_witness:
  "hot_entries_summary (push_hot 0 (working_memory_new 1000) User (replicate 167 20013) 300) = None"
proof -
  let ?s = "replicate 167 20013" and ?m = "push_hot 0 (working_memory_new 1000) User (replicate 167 20013) 300"
  have w: "\<forall>c \<in> set ?s. utf8_len c = 3" by (simp add: utf8_len_def)
  have "500 \<le> byte_len ?s" using byte_len_uniform [OF w] by simp
  moreover have "Hot User ?s 300 0 \<in> set (drop 0 (entries ?m))" by (simp add: push_hot_def working_memory_new_def)
  ultimately show ?thesis using wide_messages_panic [OF w] by blast
qed

section \<open>Counts and contents\<close>

text \<open>
  Cutting a tool result that is short but counted as long leaves its text alone and divides its
  count by three, so the counter then understates what is sent.
\<close>

theorem snip_understates:
  assumes "ascii s" and "length s \<le> 1000" and "tool_output_snip_threshold pol < n"
  shows "snip_entry (tool_output_snip_threshold pol) (Hot User s n t) = Some (Hot User s (max (n div 3) 1) t, True)"
proof -
  have "is_char_boundary s (min (byte_len s) 500)" "is_char_boundary s (byte_len s - 500)"
    using ascii_boundary [OF assms(1)] by auto
  then have "slice_to (min (byte_len s) 500) s \<noteq> None" "slice_from (byte_len s - 500) s \<noteq> None"
    by (simp_all add: slice_None_iff)
  moreover have "\<not> min (byte_len s) 500 < byte_len s - 500" using assms(1,2) by (auto simp: byte_len_ascii)
  ultimately show ?thesis using assms(3) by (auto simp: Let_def)
qed

theorem micro_compaction_idempotent_witness:
  "\<exists>es. micro_compact_messages (working_ops 1000000000000) [Hot User (replicate 300 97) 75 0] micro_compact_config_default 1000000000000 = Some es \<and>
     micro_compact_messages (working_ops 1000000000000) es micro_compact_config_default 1000000000000 = Some es"
proof -
  have "ascii (replicate 300 97)" by (simp add: ascii_def)
  then have "slice_to 200 (replicate 300 97) \<noteq> None" "byte_len (replicate 300 97) = 300"
    using ascii_boundary [of "replicate 300 97" 200] by (simp_all add: slice_None_iff byte_len_ascii)
  then obtain es where "micro_compact_messages (working_ops 1000000000000) [Hot User (replicate 300 97) 75 0] micro_compact_config_default 1000000000000 = Some es"
    by (auto simp: micro_compact_messages_def micro_compact_one_def working_ops_def we_tool_name_def FileRead_compactable
        micro_compact_config_default_def simp del: u_Cons)
  then show ?thesis using micro_compaction_idempotent by blast
qed

theorem snip_understates_witness:
  "snip_entry (tool_output_snip_threshold compaction_policy_default) (Hot User (u ''ok'') 9000 7) =
     Some (Hot User (u ''ok'') 3000 7, True)"
  using snip_understates [of "u ''ok''" compaction_policy_default 9000 7] by (simp add: compaction_policy_default_def)

section \<open>Turns\<close>

text \<open>Turn \<open>i\<close> runs from its user message to the next one or the end.\<close>

definition turn_bound :: "working_entry list \<Rightarrow> nat list \<Rightarrow> nat \<Rightarrow> nat" where
  "turn_bound es turns i = (if i < length turns then turns ! i else length es)"

definition turn_summary :: "working_entry list \<Rightarrow> nat \<Rightarrow> nat \<Rightarrow> working_entry" where
  "turn_summary es a b =
     (let summary = summarize_turn (take (b - a) (drop a es))
      in Warm summary (max (byte_len summary mod 2 ^ 32 div 4) 1) (a, a))"

lemma fold_turn_at:
  assumes "a \<le> b" "b \<le> length es"
  shows "fold_turn a b (take b es @ xs) = Some (take a es @ [turn_summary es a b] @ xs, take (b - a) (drop a es))"
  using assms by (simp add: fold_turn_def turn_summary_def Let_def min_def drop_take)

lemma group_by_turns_props:
  "sorted_wrt (<) (group_by_turns es)" "\<forall>t \<in> set (group_by_turns es). t < length es"
proof -
  have "sorted_wrt (<) [0..<length es]" by simp
  then show "sorted_wrt (<) (group_by_turns es)" unfolding group_by_turns_def by (rule sorted_wrt_filter)
qed (simp add: group_by_turns_def)

lemma find_next_turn:
  assumes "sorted_wrt (<) (turns :: nat list)" "j < length turns"
  shows "find (\<lambda>t. turns ! j < t) turns = (if j + 1 < length turns then Some (turns ! (j + 1)) else None)"
proof -
  have lt: "turns ! j < turns ! i \<longleftrightarrow> j < i" if "i < length turns" for i
  proof (cases i j rule: linorder_cases)
    case less
    then have "turns ! i < turns ! j" using sorted_wrt_nth_less [OF assms(1)] assms(2) by blast
    then show ?thesis using less by simp
  next
    case greater
    then show ?thesis using sorted_wrt_nth_less [OF assms(1) greater that] by simp
  qed simp
  show ?thesis
  proof (cases "j + 1 < length turns")
    case True
    then show ?thesis unfolding find_Some_iff using lt by (auto intro!: exI [of _ "j + 1"] simp: find_Some_iff)
  next
    case False
    then have "\<forall>t \<in> set turns. \<not> turns ! j < t" using lt by (auto simp: in_set_conv_nth)
    then show ?thesis using False by (auto simp: find_None_iff)
  qed
qed

lemma partial_loop_exact:
  assumes "sorted_wrt (<) turns" "\<forall>t \<in> set turns. t < length es" "j \<le> length turns"
    and "ps_entries s = take (turn_bound es turns j) es @ xs"
    and "j = length turns \<Longrightarrow> xs = []"
  shows "\<exists>s'. partial_loop turns (rev (take j turns)) s = Some s' \<and>
    ps_entries s' = take (turn_bound es turns 0) es @
      map (\<lambda>i. turn_summary es (turns ! i) (turn_bound es turns (i + 1))) [0..<j] @ xs"
  using assms(3-)
proof (induction j arbitrary: s xs)
  case (Suc j)
  let ?a = "turns ! j" and ?b = "turn_bound es turns (j + 1)"
  have j: "j < length turns" using Suc.prems by simp
  have ab: "?a < ?b" "?b \<le> length es"
    using assms(1,2) j by (auto simp: turn_bound_def sorted_wrt_nth_less less_imp_le)
  have b: "(case find (\<lambda>t. ?a < t) turns of Some t \<Rightarrow> t | None \<Rightarrow> length (ps_entries s)) = ?b"
    using Suc.prems unfolding find_next_turn [OF assms(1) j] by (auto simp: turn_bound_def)
  obtain s1 where s1: "partial_turn turns ?a s = Some s1" "ps_entries s1 = take ?a es @ turn_summary es ?a ?b # xs"
    using fold_turn_at [of ?a ?b es xs] ab Suc.prems(2) unfolding partial_turn_def Let_def b by auto
  have "rev (take (Suc j) turns) = ?a # rev (take j turns)" using j by (simp add: take_Suc_conv_app_nth)
  moreover have "turn_bound es turns j = ?a" using j by (simp add: turn_bound_def)
  ultimately show ?case
    using Suc.IH [of s1 "turn_summary es ?a ?b # xs"] s1 j by simp
qed simp

lemma demoted_entry:
  "warm_to_cold_slice e = Some e' \<Longrightarrow> e' = (case e of
     Warm summary n src \<Rightarrow> Cold (cold_prefix @ the (slice_to (min (byte_len summary) 40) summary)) src (max (n div 4) 1)
   | e \<Rightarrow> e)"
  by (cases e) auto

text \<open>
  C14. What partial compaction makes of a memory with more than \<open>keep\<close> turns. First every summary of the memory, also
  one in a turn that is kept, is shortened to a placeholder of 40 bytes; when that succeeds, compaction
  returns. Of the messages so obtained, of which those in full form and the placeholders are the old ones, what comes before
  the first turn stays, every turn older than the last \<open>keep\<close> becomes one summary in its place, and
  the last \<open>keep\<close> turns follow.
\<close>

theorem partial_compact_exact:
  assumes "those (map warm_to_cold_slice (entries m)) = Some es" and "keep < length (group_by_turns (entries m))"
  shows "(\<exists>m' r. partial_compact m keep = Some (m', r) \<and> entries m' =
    (let turns = group_by_turns (entries m); k = length turns - keep
     in take (hd turns) es @ map (\<lambda>i. turn_summary es (turns ! i) (turn_bound es turns (i + 1))) [0..<k] @
          drop (turn_bound es turns k) es)) \<and>
    length es = length (entries m) \<and>
    (\<forall>i < length es. es ! i = (case entries m ! i of
       Warm summary n src \<Rightarrow> Cold (cold_prefix @ the (slice_to (min (byte_len summary) 40) summary)) src (max (n div 4) 1)
     | e \<Rightarrow> e))"
proof -
  let ?turns = "group_by_turns (entries m)" let ?k = "length ?turns - keep"
  let ?s = "\<lparr>ps_entries = es, ps_compacted = 0, ps_start = length (entries m), ps_end = 0\<rparr>"
  have l: "length es = length (entries m)" using assms(1) unfolding those_map_Some by (rule list_all2_lengthD [symmetric])
  have "?turns \<noteq> []" using assms(2) by auto
  then have hd: "turn_bound es ?turns 0 = hd ?turns" by (simp add: turn_bound_def hd_conv_nth)
  have x: "?k = length ?turns \<Longrightarrow> drop (turn_bound es ?turns ?k) es = []" by (simp add: turn_bound_def)
  obtain s' where s': "partial_loop ?turns (rev (take ?k ?turns)) ?s = Some s'"
      "ps_entries s' = take (hd ?turns) es @ map (\<lambda>i. turn_summary es (?turns ! i) (turn_bound es ?turns (i + 1))) [0..<?k] @
        drop (turn_bound es ?turns ?k) es"
    using partial_loop_exact [of ?turns es ?k ?s "drop (turn_bound es ?turns ?k) es", OF group_by_turns_props(1) _ _ _ x]
      group_by_turns_props(2) [of "entries m"]
    unfolding hd l [symmetric] by auto
  moreover have "list_all2 (\<lambda>e e'. warm_to_cold_slice e = Some e') (entries m) es"
    using assms(1) unfolding those_map_Some .
  ultimately show ?thesis
    using assms l demoted_entry by (simp add: partial_compact_def Let_def list_all2_conv_all_nth)
qed

text \<open>A conversation of three turns after a system prompt.\<close>

definition sample_talk :: working_memory where
  "sample_talk =
     \<lparr>entries = [Hot System (u ''rules'') 5 0, Hot User (u ''q1'') 5 1, Hot Assistant (u ''a1'') 5 2,
        Hot User (u ''q2'') 5 3, Hot Assistant (u ''a2'') 5 4, Hot User (u ''q3'') 5 5, Hot Assistant (u ''a3'') 5 6],
      max_tokens = 100, used_tokens_cached = 35, policy = compaction_policy_default, stable_prefix_len = 1\<rparr>"

lemma sample_turns: "group_by_turns (entries sample_talk) = [1, 3, 5]"
  by (simp add: group_by_turns_def sample_talk_def upt_conv_Cons del: u_Cons)

theorem partial_compact_exact_witness:
  "\<exists>m' r. partial_compact sample_talk 1 = Some (m', r) \<and> entries m' =
     [Hot System (u ''rules'') 5 0, turn_summary (entries sample_talk) 1 3, turn_summary (entries sample_talk) 3 5,
      Hot User (u ''q3'') 5 5, Hot Assistant (u ''a3'') 5 6]"
proof -
  have e: "those (map warm_to_cold_slice (entries sample_talk)) = Some (entries sample_talk)"
    by (simp add: sample_talk_def del: u_Cons)
  have d: "take 1 (entries sample_talk) = [Hot System (u ''rules'') 5 0]"
      "drop 5 (entries sample_talk) = [Hot User (u ''q3'') 5 5, Hot Assistant (u ''a3'') 5 6]"
    by (simp_all add: sample_talk_def del: u_Cons)
  show ?thesis
    using partial_compact_exact [OF e, of 1]
    by (simp add: sample_turns turn_bound_def Let_def upt_conv_Cons d del: u_Cons One_nat_def)
qed

lemma fold_turn_eq:
  "fold_turn a b es = (if a \<le> b \<and> b \<le> length es
     then Some (take a es @ [turn_summary es a b] @ drop b es, take (b - a) (drop a es)) else None)"
  by (simp add: fold_turn_def turn_summary_def Let_def)

text \<open>
  The other compaction by turns takes the number of a turn for the position of a message: asked to
  keep the last of three turns it removes the system prompt and the last question, and it leaves the
  token counter as it was.
\<close>

theorem compact_conversation_mixes_indices:
  "\<exists>w m'. compact_conversation sample_talk 1 =
       Some (m', [Hot User (u ''q1'') 5 1, Hot Assistant (u ''a1'') 5 2, Hot User (u ''q2'') 5 3, Hot Assistant (u ''a2'') 5 4,
                  Hot System (u ''rules'') 5 0, turn_summary (entries sample_talk) 1 5, Hot User (u ''q3'') 5 5]) \<and>
     entries m' = [w, Hot Assistant (u ''a3'') 5 6] \<and> used_tokens_cached m' = 35"
proof -
  have l: "rev [0..<length [1, 3, 5 :: nat] - 1] = [1, 0]" by (simp add: upt_conv_Cons)
  show ?thesis
    unfolding compact_conversation_def sample_turns Let_def l
    by (simp add: fold_turn_eq sample_talk_def del: u_Cons)
qed

text \<open>
  With longer turns the same confusion panics: the second range ends behind the remaining messages.
\<close>

theorem compact_conversation_panics:
  "compact_conversation
     \<lparr>entries = [Hot User q 5 0, Hot Assistant a 5 0, Hot Assistant a 5 0, Hot Assistant a 5 0, Hot Assistant a 5 0,
        Hot User q 5 0, Hot Assistant a 5 0, Hot Assistant a 5 0, Hot Assistant a 5 0, Hot Assistant a 5 0,
        Hot User q 5 0, Hot Assistant a 5 0],
      max_tokens = 100, used_tokens_cached = 60, policy = compaction_policy_default, stable_prefix_len = 0\<rparr> 1 = None"
  by (simp add: compact_conversation_def group_by_turns_def fold_turn_eq Let_def upt_conv_Cons)

lemma byte_len_append [simp]: "byte_len (s @ t) = byte_len s + byte_len t"
  by (simp add: byte_len_def)

lemma boundary_append: "is_char_boundary (s @ t) n \<Longrightarrow> byte_len s \<le> n \<Longrightarrow> is_char_boundary t (n - byte_len s)"
proof (induction s arbitrary: n)
  case (Cons c s)
  then have "is_char_boundary (s @ t) (n - utf8_len c)" "byte_len s \<le> n - utf8_len c"
    by (auto simp: is_char_boundary_def split: if_splits)
  from Cons.IH [OF this] show ?case by (simp add: add.commute)
qed simp

text \<open>
  The summaries of partial compaction defeat the next one: a summarised turn of nine or more
  three-byte characters cannot be shortened to 40 bytes, and the attempt panics.
\<close>

theorem partial_compact_wide_panics:
  assumes "\<forall>c \<in> set s. utf8_len c = 3" and "9 \<le> length s"
    and "Warm (turn_prefix @ s) n src \<in> set (entries m)" and "keep < length (group_by_turns (entries m))"
  shows "partial_compact m keep = None"
proof -
  have p: "byte_len turn_prefix = 15" by (simp add: turn_prefix_def utf8_len_def)
  have b: "27 \<le> byte_len s" using assms(2) byte_len_uniform [OF assms(1)] by simp
  have "\<not> is_char_boundary s 25" using wide_not_boundary [OF assms(1)] by (auto simp: dvd_eq_mod_eq_0)
  then have "\<not> is_char_boundary (turn_prefix @ s) 40" using boundary_append [of turn_prefix s 40] p by auto
  then have "warm_to_cold_slice (Warm (turn_prefix @ s) n src) = None" using b p by (simp add: slice_None_iff min_def)
  then have "those (map warm_to_cold_slice (entries m)) = None" by (rule those_NoneI [OF assms(3)])
  then show ?thesis using assms(4) by (simp add: partial_compact_def Let_def)
qed

theorem partial_compact_wide_panics_witness:
  "partial_compact \<lparr>entries = [Warm (turn_prefix @ replicate 9 20320) 10 (0, 0), Hot User (u ''x'') 1 0],
     max_tokens = 100, used_tokens_cached = 11, policy = compaction_policy_default, stable_prefix_len = 0\<rparr> 0 = None"
  by (rule partial_compact_wide_panics [of "replicate 9 20320" 10 "(0, 0)"])
    (simp_all add: utf8_len_def group_by_turns_def)

end
