(* ===== verification/Context_Window.thy ===== *)
theory Context_Window
  imports Working_Memory "HOL-Library.Multiset"
begin

text \<open>
  The end of a turn: the sliding window of \<^verbatim>\<open>crates/codegen/ccore/src/memory/window.rs\<close> with the classes
  of \<^verbatim>\<open>heat.rs\<close>, and the two steps of \<^verbatim>\<open>crates/codegen/ccore/src/node/thinker/compaction.rs\<close> that apply it
  and the compaction to the working memory. The score of a message (\<^verbatim>\<open>compute_heat\<close>, which uses the
  exponential and the logarithm of doubles) is the parameter \<open>heat\<close>.
\<close>

section \<open>Classes of messages\<close>

datatype temperature = T_Hot | T_Warm | T_Cold

text \<open>The doubles 0.4 and 0.2.\<close>

record heat_thresholds =
  th_cold :: rat
  th_warm :: rat

definition heat_thresholds_default :: heat_thresholds where
  "heat_thresholds_default = \<lparr>th_cold = 3602879701896397 / 18014398509481984, th_warm = 3602879701896397 / 9007199254740992\<rparr>"

definition classify :: "rat \<Rightarrow> heat_thresholds \<Rightarrow> temperature" where
  "classify h th = (if th_warm th \<le> h then T_Hot else if th_cold th \<le> h then T_Warm else T_Cold)"

record message_meta =
  elapsed_turns :: nat
  relevance :: rat
  recall_count :: nat
  meta_tool_result :: bool
  tool_importance :: rat
  meta_role :: ustr
  meta_content :: ustr
  meta_tokens :: nat
  meta_range :: "nat \<times> nat"

section \<open>The sliding window\<close>

text \<open>The characters that start before byte \<open>n\<close>.\<close>

fun ceil_prefix :: "nat \<Rightarrow> ustr \<Rightarrow> ustr" where
  "ceil_prefix n [] = []"
| "ceil_prefix n (c # s) = (if 0 < n then c # ceil_prefix (n - utf8_len c) s else [])"

definition warm_text :: "ustr \<Rightarrow> ustr" where
  "warm_text content =
     (if 100 < byte_len content then
        let p = ceil_prefix 100 content
        in if 0 < byte_len p \<and> byte_len p \<le> byte_len content then p @ [46, 46, 46] else content
      else content)"

definition cold_memory :: "nat \<times> nat \<Rightarrow> ustr" where
  "cold_memory r = [91, 20919, 35760, 24518, 58, 32, 31532] @ dec (fst r) @ [45] @ dec (snd r)"

definition entry_for :: "(ustr \<Rightarrow> nat \<Rightarrow> ustr) \<Rightarrow> nat \<Rightarrow> temperature \<Rightarrow> message_meta \<Rightarrow> working_entry" where
  "entry_for lc now temp msg =
     (case temp of
        T_Hot \<Rightarrow> Hot (case role_try_from lc (meta_role msg) of Some r \<Rightarrow> r | None \<Rightarrow> User) (meta_content msg) (meta_tokens msg) now
      | T_Warm \<Rightarrow> (let summary = warm_text (meta_content msg) in Warm summary (byte_len summary div 4) (meta_range msg))
      | T_Cold \<Rightarrow> Cold (cold_memory (meta_range msg) @ [36718, 44, 32, 20027, 39064, 27010, 35201, 93]) (meta_range msg) 30)"

text \<open>Filling by falling heat until the budget is used up.\<close>

fun fill :: "(ustr \<Rightarrow> nat \<Rightarrow> ustr) \<Rightarrow> nat \<Rightarrow> nat \<Rightarrow> nat \<Rightarrow> (temperature \<times> message_meta) list \<Rightarrow> working_entry list" where
  "fill lc now max_n used [] = []"
| "fill lc now max_n used ((temp, msg) # scored) =
     (let entry = entry_for lc now temp msg; used' = (used + token_count entry) mod 2 ^ 32
      in if used' \<le> max_n then entry # fill lc now max_n used' scored
         else Cold (cold_memory (meta_range msg) @ [36718, 93]) (meta_range msg) 30 # fill lc now max_n used scored)"

fun window_key :: "working_entry \<Rightarrow> nat" where
  "window_key (Hot _ _ _ _) = 0"
| "window_key (Warm _ _ r) = fst r"
| "window_key (Cold _ r _) = fst r"

definition window_update :: "(ustr \<Rightarrow> nat \<Rightarrow> ustr) \<Rightarrow> (message_meta \<Rightarrow> rat) \<Rightarrow> nat \<Rightarrow> nat \<Rightarrow> message_meta list \<Rightarrow> working_entry list" where
  "window_update lc heat now max_n messages =
     (let scored = sort_key (\<lambda>msg. - heat msg) messages
      in sort_key window_key
           (fill lc now max_n 0 (map (\<lambda>msg. (classify (heat msg) heat_thresholds_default, msg)) scored)))"

section \<open>The end of a turn\<close>

record compaction_config =
  microcompact_threshold :: nat
  cc_auto_percent :: nat
  keep_recent :: nat

definition compaction_config_default :: compaction_config where
  "compaction_config_default = \<lparr>microcompact_threshold = 20, cc_auto_percent = 95, keep_recent = 5\<rparr>"

record thinker =
  working_memory_of :: working_memory
  turns_executed :: nat
  window_tokens :: nat
  compaction_config_of :: compaction_config
  last_microcompact_count :: nat

fun role_debug :: "message_role \<Rightarrow> ustr" where
  "role_debug System = u ''System''"
| "role_debug User = u ''User''"
| "role_debug Assistant = u ''Assistant''"

fun entry_parts :: "working_entry \<Rightarrow> ustr \<times> ustr \<times> nat" where
  "entry_parts (Hot role content n t) = (role_debug role, content, n)"
| "entry_parts (Warm summary n r) = (u ''warm'', summary, n)"
| "entry_parts (Cold placeholder r n) = (u ''cold'', placeholder, n)"

text \<open>The doubles 0.8 and 0.5.\<close>

definition message_meta_of :: "nat \<Rightarrow> nat \<Rightarrow> working_entry \<Rightarrow> message_meta" where
  "message_meta_of turns idx e =
     (case entry_parts e of (role, content, n) \<Rightarrow>
       \<lparr>elapsed_turns = turns - idx mod 2 ^ 32,
        relevance = (if role = u ''User'' \<or> role = u ''Assistant'' then 3602879701896397 / 4503599627370496 else 1 / 2),
        recall_count = 0, meta_tool_result = (role = u ''User'' \<and> starts_with content [91]),
        tool_importance = 1 / 2, meta_role = role, meta_content = content, meta_tokens = n,
        meta_range = (idx, idx + 1)\<rparr>)"

definition update_context_window :: "(ustr \<Rightarrow> nat \<Rightarrow> ustr) \<Rightarrow> (message_meta \<Rightarrow> rat) \<Rightarrow> nat \<Rightarrow> thinker \<Rightarrow> thinker" where
  "update_context_window lc heat now s =
     (let turns = (turns_executed s + 1) mod 2 ^ 32;
          messages = map (\<lambda>(idx, e). message_meta_of turns idx e) (enumerate 0 (entries (working_memory_of s)));
          updated = window_update lc heat now (window_tokens s) messages;
          s1 = s\<lparr>turns_executed := turns\<rparr>
      in if updated \<noteq> [] then s1\<lparr>working_memory_of := replace_entries (working_memory_of s) updated\<rparr> else s1)"

definition pipeline_micro :: "nat \<Rightarrow> thinker \<Rightarrow> thinker option" where
  "pipeline_micro now s =
     (let msg_count = length (entries (working_memory_of s)) in
      if microcompact_threshold (compaction_config_of s) < msg_count \<and> last_microcompact_count s < msg_count
      then (case wm_compact now (working_memory_of s) of
              None \<Rightarrow> None
            | Some (m, r) \<Rightarrow> Some (s\<lparr>working_memory_of := m, last_microcompact_count := length (entries m)\<rparr>))
      else Some s)"

definition pipeline_auto :: "nat \<Rightarrow> thinker \<Rightarrow> thinker option" where
  "pipeline_auto now s =
     (let m = working_memory_of s;
          usage_percent = (if 0 < max_tokens m then (used_tokens_cached m * 100) mod 2 ^ 32 div max_tokens m else 0)
      in if cc_auto_percent (compaction_config_of s) < usage_percent
         then (case wm_compact now m of None \<Rightarrow> None | Some (m', r) \<Rightarrow> Some (s\<lparr>working_memory_of := m'\<rparr>))
         else Some s)"

definition run_compaction_pipeline :: "nat \<Rightarrow> nat \<Rightarrow> thinker \<Rightarrow> thinker option" where
  "run_compaction_pipeline now now' s = Option.bind (pipeline_micro now s) (pipeline_auto now')"

section \<open>Nothing is dropped, nothing is ordered\<close>

lemma length_fill: "length (fill lc now n used xs) = length xs"
  by (induction lc now n used xs rule: fill.induct) (simp_all add: Let_def)

lemma length_window_update: "length (window_update lc heat now n ms) = length ms"
  by (simp add: window_update_def length_fill)

lemma fill_hot:
  assumes "\<forall>x \<in> set xs. fst x = T_Hot" "used + sum_list (map (meta_tokens \<circ> snd) xs) \<le> n" "n < 2 ^ 32"
  shows "fill lc now n used xs = map (entry_for lc now T_Hot \<circ> snd) xs"
  using assms(1,2)
proof (induction xs arbitrary: used)
  case (Cons x xs)
  obtain t m where x: "x = (t, m)" by (cases x)
  have "(used + meta_tokens m) mod 2 ^ 32 = used + meta_tokens m" "used + meta_tokens m \<le> n"
    using Cons.prems(2) assms(3) by (auto simp: x)
  moreover have "token_count (entry_for lc now T_Hot m) = meta_tokens m" by (simp add: entry_for_def)
  ultimately show ?case using Cons.IH [of "used + meta_tokens m"] Cons.prems by (simp add: x Let_def)
qed simp

lemma sort_key_const: "\<forall>x \<in> set xs. f x = (c :: nat) \<Longrightarrow> sort_key f xs = xs"
  by (rule sort_key_id_if_sorted) (induction xs, auto)

lemma sort_key_map: "sort_key f (map g xs) = map g (sort_key (f \<circ> g) xs)"
proof -
  have "insort_key f (g x) (map g ys) = map g (insort_key (f \<circ> g) x ys)" for x ys by (induction ys) auto
  then show ?thesis by (induction xs) simp_all
qed

lemma window_update_all_hot:
  assumes "\<forall>msg \<in> set ms. th_warm heat_thresholds_default \<le> heat msg"
    and "sum_list (map meta_tokens ms) \<le> n" and "n < 2 ^ 32"
  shows "window_update lc heat now n ms = map (entry_for lc now T_Hot) (sort_key (\<lambda>msg. - heat msg) ms)"
proof -
  let ?ms = "sort_key (\<lambda>msg. - heat msg) ms"
  let ?xs = "map (\<lambda>msg. (classify (heat msg) heat_thresholds_default, msg)) ?ms"
  have "mset (map meta_tokens ?ms) = mset (map meta_tokens ms)" by simp
  then have "sum_list (map meta_tokens ?ms) = sum_list (map meta_tokens ms)"
    unfolding sum_mset_sum_list [symmetric] by (rule arg_cong)
  moreover have "\<forall>x \<in> set ?xs. fst x = T_Hot" using assms(1) by (auto simp: classify_def)
  ultimately have "fill lc now n 0 ?xs = map (entry_for lc now T_Hot) ?ms"
    using assms(2,3) fill_hot [of ?xs 0 n lc now] by (simp add: o_def)
  moreover have "sort_key window_key (map (entry_for lc now T_Hot) ?ms) = map (entry_for lc now T_Hot) ?ms"
    by (rule sort_key_const [where c = 0]) (auto simp: entry_for_def)
  ultimately show ?thesis by (simp add: window_update_def Let_def)
qed

lemma role_roundtrip: "role_try_from lc (role_debug r) = Some r"
  by (cases r) (simp_all add: role_try_from_def to_lowercase_ascii ascii_lower_def Let_def)

lemma chat_message_entry_for:
  "is_hot e \<Longrightarrow> chat_message (entry_for lc now T_Hot (message_meta_of turns i e)) = chat_message e"
  by (cases e) (simp_all add: entry_for_def message_meta_of_def role_roundtrip)

text \<open>
  C40. The end of a turn sorts the conversation by heat. When all messages are kept in full, hot and
  within the budget, the model is afterwards sent the same messages, in the order of falling heat
  instead of the order in which they were said.
\<close>

theorem turn_end_sorts_by_heat:
  assumes "\<forall>e \<in> set (entries (working_memory_of s)). is_hot e"
    and "metas = map (\<lambda>(i, e). message_meta_of ((turns_executed s + 1) mod 2 ^ 32) i e) (enumerate 0 (entries (working_memory_of s)))"
    and "\<forall>msg \<in> set metas. th_warm heat_thresholds_default \<le> heat msg"
    and "sum_list (map token_count (entries (working_memory_of s))) \<le> window_tokens s" and "window_tokens s < 2 ^ 32"
  shows "to_chat_messages (working_memory_of (update_context_window lc heat now s)) =
    map (\<lambda>i. to_chat_messages (working_memory_of s) ! i) (sort_key (\<lambda>i. - heat (metas ! i)) [0..<length metas])"
proof -
  let ?es = "entries (working_memory_of s)" let ?t = "(turns_executed s + 1) mod 2 ^ 32"
  have l: "length metas = length ?es" by (simp add: assms(2))
  have nth: "metas ! i = message_meta_of ?t i (?es ! i)" if "i < length ?es" for i
    using that by (simp add: assms(2) nth_enumerate_eq)
  have tok: "meta_tokens (message_meta_of t i e) = token_count e" for t i e
    by (cases e) (simp_all add: message_meta_of_def)
  have "map meta_tokens metas = map token_count ?es"
    by (rule nth_equalityI) (simp_all add: l nth tok)
  then have w: "window_update lc heat now (window_tokens s) metas =
      map (entry_for lc now T_Hot) (sort_key (\<lambda>msg. - heat msg) metas)"
    using assms(3-5) by (intro window_update_all_hot) simp_all
  have m: "metas = map (\<lambda>i. metas ! i) [0..<length metas]" by (simp add: map_nth)
  have srt: "sort_key (\<lambda>msg. - heat msg) metas = map (\<lambda>i. metas ! i) (sort_key (\<lambda>i. - heat (metas ! i)) [0..<length metas])"
    by (subst m) (simp only: sort_key_map o_def)
  show ?thesis
  proof (cases "?es = []")
    case True
    then show ?thesis using l by (simp add: update_context_window_def to_chat_messages_def Let_def window_update_def)
  next
    case False
    then have "window_update lc heat now (window_tokens s) metas \<noteq> []" using l length_window_update [of lc heat now "window_tokens s" metas] by force
    then have "entries (working_memory_of (update_context_window lc heat now s)) = window_update lc heat now (window_tokens s) metas"
      by (simp add: update_context_window_def Let_def assms(2) replace_entries_def)
    then show ?thesis
      using l nth assms(1) by (auto simp: to_chat_messages_def w srt chat_message_entry_for)
  qed
qed

text \<open>An agent after four turns with two messages, and a heat that falls with age.\<close>

definition sample_thinker :: thinker where
  "sample_thinker = \<lparr>working_memory_of = push_hot 1 (lock_stable_prefix (push_hot 0 (working_memory_new 100) System (u ''rules'') 5)) User (u ''why'') 3,
     turns_executed = 4, window_tokens = 100, compaction_config_of = compaction_config_default, last_microcompact_count = 0\<rparr>"

definition sample_heat :: "message_meta \<Rightarrow> rat" where
  "sample_heat msg = 1 - of_nat (elapsed_turns msg) / 10"

lemma sample_thinker_entries:
  "entries (working_memory_of sample_thinker) = [Hot System (u ''rules'') 5 0, Hot User (u ''why'') 3 1]"
  by (simp add: sample_thinker_def push_hot_def lock_stable_prefix_def working_memory_new_def)

theorem turn_end_sorts_by_heat_witness:
  "to_chat_messages (working_memory_of (update_context_window (\<lambda>s i. [s ! i]) sample_heat 9 sample_thinker)) =
     [(u ''user'', u ''why''), (u ''system'', u ''rules'')]"
proof -
  let ?metas = "map (\<lambda>(i, e). message_meta_of ((turns_executed sample_thinker + 1) mod 2 ^ 32) i e)
    (enumerate 0 (entries (working_memory_of sample_thinker)))"
  define a b where "a = message_meta_of 5 0 (Hot System (u ''rules'') 5 0)" and "b = message_meta_of 5 1 (Hot User (u ''why'') 3 1)"
  have m: "?metas = [a, b]"
    unfolding sample_thinker_entries by (simp add: sample_thinker_def a_def b_def del: u_Cons)
  have h: "sample_heat a = 1 / 2" "sample_heat b = 3 / 5"
    by (simp_all add: sample_heat_def message_meta_of_def a_def b_def del: u_Cons)
  then have srt: "sort_key (\<lambda>i. - sample_heat ([a, b] ! i)) [0..<length [a, b]] = [1, 0]"
    by (simp add: upt_conv_Cons)
  have "window_tokens sample_thinker = 100" by (simp add: sample_thinker_def)
  then show ?thesis
    using turn_end_sorts_by_heat [of sample_thinker ?metas sample_heat "\<lambda>s i. [s ! i]" 9] unfolding m srt
    by (simp add: sample_thinker_entries h heat_thresholds_default_def to_chat_messages_def)
qed

section \<open>Budget\<close>

lemma byte_len_warm_text: "byte_len (warm_text c) \<le> byte_len c + 3"
  by (simp add: warm_text_def Let_def utf8_len_def)

lemma entry_for_small:
  assumes "meta_tokens msg < 2 ^ 31" "byte_len (meta_content msg) < 2 ^ 31"
  shows "token_count (entry_for lc now temp msg) < 2 ^ 31"
  using assms byte_len_warm_text [of "meta_content msg"] by (cases temp) (auto simp: entry_for_def Let_def)

lemma fill_budget:
  assumes "used \<le> n" "n < 2 ^ 31"
    "\<forall>x \<in> set xs. meta_tokens (snd x) < 2 ^ 31 \<and> byte_len (meta_content (snd x)) < 2 ^ 31"
  shows "used + sum_list (map token_count (fill lc now n used xs)) \<le> n + 30 * length xs"
  using assms(1,3)
proof (induction xs arbitrary: used)
  case (Cons x xs)
  obtain t m where x: "x = (t, m)" by (cases x)
  let ?c = "token_count (entry_for lc now t m)"
  have "?c < 2 ^ 31" using Cons.prems(2) by (intro entry_for_small) (auto simp: x)
  then have w: "(used + ?c) mod 2 ^ 32 = used + ?c" using Cons.prems(1) assms(2) by simp
  show ?case
  proof (cases "used + ?c \<le> n")
    case True
    then have "fill lc now n used (x # xs) = entry_for lc now t m # fill lc now n (used + ?c) xs"
      unfolding x fill.simps Let_def w by simp
    then show ?thesis using Cons.IH [OF True] Cons.prems(2) by simp
  next
    case False
    then have "fill lc now n used (x # xs) =
        Cold (cold_memory (meta_range m) @ [36718, 93]) (meta_range m) 30 # fill lc now n used xs"
      unfolding x fill.simps Let_def w by simp
    then show ?thesis using Cons.IH [OF Cons.prems(1)] Cons.prems(2) by simp
  qed
qed simp

text \<open>
  How far the sliding window may exceed its budget: by thirty tokens for each message, because
  the placeholders of messages that no longer fit are added without being counted.
\<close>

theorem window_budget:
  assumes "n < 2 ^ 31" and "\<forall>msg \<in> set ms. meta_tokens msg < 2 ^ 31 \<and> byte_len (meta_content msg) < 2 ^ 31"
  shows "sum_list (map token_count (window_update lc heat now n ms)) \<le> n + 30 * length ms"
proof -
  define xs where "xs = map (\<lambda>msg. (classify (heat msg) heat_thresholds_default, msg)) (sort_key (\<lambda>msg. - heat msg) ms)"
  have "mset (map token_count (window_update lc heat now n ms)) = mset (map token_count (fill lc now n 0 xs))"
    by (simp add: window_update_def xs_def)
  then have "sum_list (map token_count (window_update lc heat now n ms)) = sum_list (map token_count (fill lc now n 0 xs))"
    unfolding sum_mset_sum_list [symmetric] by (rule arg_cong)
  moreover have "length xs = length ms" by (simp add: xs_def)
  ultimately show ?thesis using fill_budget [of 0 n xs lc now] assms by (simp add: xs_def)
qed

section \<open>The compaction step\<close>

definition keeps_prefix :: "working_memory \<Rightarrow> working_memory \<Rightarrow> bool" where
  "keeps_prefix m m' \<longleftrightarrow> take (stable_prefix_len m) (entries m') = take (stable_prefix_len m) (entries m) \<and>
     length (entries m') = length (entries m) \<and> same_frame m m'"

lemma keeps_prefix_refl: "keeps_prefix m m" by (simp add: keeps_prefix_def same_frame_def)

lemma keeps_prefix_trans: "keeps_prefix m m1 \<Longrightarrow> keeps_prefix m1 m2 \<Longrightarrow> keeps_prefix m m2"
  by (auto simp: keeps_prefix_def same_frame_def)

lemma compact_keeps:
  "wm_compact now m = Some (m', r) \<Longrightarrow> stable_prefix_enabled (policy m) \<Longrightarrow> keeps_prefix m m'"
  using compact_facts [of now m "policy m" m' r] by (simp add: wm_compact_def compacted_def keeps_prefix_def prefix_of_def)

lemma pipeline_steps_keep:
  assumes "stable_prefix_enabled (policy (working_memory_of s))"
  shows "pipeline_micro now s = Some s' \<Longrightarrow> keeps_prefix (working_memory_of s) (working_memory_of s')"
    "pipeline_auto now s = Some s' \<Longrightarrow> keeps_prefix (working_memory_of s) (working_memory_of s')"
  using compact_keeps [of now "working_memory_of s"] assms keeps_prefix_refl
  by (auto simp: pipeline_micro_def pipeline_auto_def Let_def split: if_splits option.splits)

text \<open>
  The compaction step between model calls, with up to two compactions, keeps the locked prefix
  and the number of messages.
\<close>

theorem pipeline_keeps_prefix:
  assumes "run_compaction_pipeline now now' s = Some s'" and "stable_prefix_enabled (policy (working_memory_of s))"
  shows "take (stable_prefix_len (working_memory_of s)) (entries (working_memory_of s')) =
      take (stable_prefix_len (working_memory_of s)) (entries (working_memory_of s)) \<and>
    length (entries (working_memory_of s')) = length (entries (working_memory_of s))"
proof -
  obtain s1 where s1: "pipeline_micro now s = Some s1" "pipeline_auto now' s1 = Some s'"
    using assms(1) by (auto simp: run_compaction_pipeline_def Option.bind_eq_Some_conv)
  have 1: "keeps_prefix (working_memory_of s) (working_memory_of s1)" by (rule pipeline_steps_keep(1) [OF assms(2) s1(1)])
  then have "stable_prefix_enabled (policy (working_memory_of s1))" using assms(2) by (simp add: keeps_prefix_def same_frame_def)
  from keeps_prefix_trans [OF 1 pipeline_steps_keep(2) [OF this s1(2)]] show ?thesis by (simp add: keeps_prefix_def)
qed

theorem window_budget_witness:
  "sum_list (map token_count (window_update (\<lambda>s i. [s ! i]) sample_heat 0 10
     [message_meta_of 5 0 (Hot User (u ''a'') 10 0), message_meta_of 5 1 (Hot User (u ''b'') 10 0)])) \<le> 70"
  using window_budget [of 10 "[message_meta_of 5 0 (Hot User (u ''a'') 10 0), message_meta_of 5 1 (Hot User (u ''b'') 10 0)]"
      "\<lambda>s i. [s ! i]" sample_heat 0]
  by (simp add: message_meta_of_def utf8_len_def)

theorem pipeline_keeps_prefix_witness:
  "\<exists>s'. run_compaction_pipeline 0 0 (sample_thinker\<lparr>working_memory_of := sample_memory\<rparr>) = Some s' \<and>
     take 1 (entries (working_memory_of s')) = [Hot System (u ''Be brief.'') 10 0]"
proof -
  let ?s = "sample_thinker\<lparr>working_memory_of := sample_memory\<rparr>"
  have p: "policy sample_memory = compaction_policy_default" "stable_prefix_len sample_memory = 1"
      "take 1 (entries sample_memory) = [Hot System (u ''Be brief.'') 10 0]"
    by (simp_all add: sample_memory_eq del: u_Cons)
  obtain m1 r1 where "compact_with_policy 0 sample_memory compaction_policy_default = Some (m1, r1)"
    using sample_compacts by auto
  then obtain s' where s': "run_compaction_pipeline 0 0 ?s = Some s'"
    by (auto simp: run_compaction_pipeline_def pipeline_micro_def pipeline_auto_def sample_thinker_def Let_def
        compaction_config_default_def wm_compact_def p sample_memory_eq)
  have "stable_prefix_enabled (policy (working_memory_of ?s))" by (simp add: p compaction_policy_default_def)
  from pipeline_keeps_prefix [OF s' this] show ?thesis using s' p by simp
qed

end
