(* ===== verification/Compact_Select.thy ===== *)
theory Compact_Select
  imports Prelude UString
begin

text \<open>
  Where a conversation is cut for compaction: \<^verbatim>\<open>select.rs\<close> and \<^verbatim>\<open>context_collapse.rs\<close> of
  \<^verbatim>\<open>crates/common/ccode-compaction/src\<close>. Of an item the algorithms only ask whether it is a tool result
  (the method of the trait \<^verbatim>\<open>CompactionItem\<close>), which is the parameter \<open>tr\<close>. Token counts are 32-bit and
  saturate.
\<close>

section \<open>Choosing the cut\<close>

record split_plan =
  split_idx :: nat
  tokens_to_compact :: nat

text \<open>The loop that walks back from the newest item; \<open>i\<close> items are still to be seen.\<close>

fun split_scan :: "nat list \<Rightarrow> nat \<Rightarrow> nat \<Rightarrow> nat \<Rightarrow> nat \<Rightarrow> nat" where
  "split_scan counts target_tokens 0 kept split = split"
| "split_scan counts target_tokens (Suc i) kept split =
     (let count = counts ! i
      in if target_tokens < sat_add32 kept count then i + 1
         else split_scan counts target_tokens i (sat_add32 kept count) i)"

function past_results :: "('a \<Rightarrow> bool) \<Rightarrow> 'a list \<Rightarrow> nat \<Rightarrow> nat" where
  "past_results tr items idx =
     (if idx < length items \<and> tr (items ! idx) then past_results tr items (idx + 1) else idx)"
  by pat_completeness auto
termination by (relation "measure (\<lambda>(tr, items, idx). length items - idx)") auto

declare past_results.simps [simp del]

definition snap_to_safe_boundary :: "('a \<Rightarrow> bool) \<Rightarrow> 'a list \<Rightarrow> nat \<Rightarrow> nat" where
  "snap_to_safe_boundary tr items candidate =
     (if length items \<le> candidate then length items
      else if \<not> tr (items ! candidate) then candidate
      else past_results tr items candidate)"

definition select_turns_to_compact :: "('a \<Rightarrow> bool) \<Rightarrow> nat list \<Rightarrow> 'a list \<Rightarrow> nat \<Rightarrow> nat \<Rightarrow> split_plan option" where
  "select_turns_to_compact tr counts items target_tokens min_compactable =
     (let total_n = length items in
      if total_n = 0 then None
      else
        let split = split_scan counts target_tokens total_n 0 total_n in
        if split = 0 then None
        else
          let safe = snap_to_safe_boundary tr items split in
          if total_n \<le> safe then None
          else
            let tokens = foldl sat_add32 0 (take safe counts) in
            if tokens < min_compactable then None
            else Some \<lparr>split_idx = safe, tokens_to_compact = tokens\<rparr>)"

section \<open>Collapse by summary\<close>

record context_collapse_config =
  collapse_threshold_percent :: nat
  max_summary_tokens :: nat
  cc_keep_recent :: nat

definition context_collapse_config_default :: context_collapse_config where
  "context_collapse_config_default = \<lparr>collapse_threshold_percent = 85, max_summary_tokens = 2000, cc_keep_recent = 6\<rparr>"

definition should_collapse :: "nat \<Rightarrow> nat \<Rightarrow> context_collapse_config \<Rightarrow> bool" where
  "should_collapse total_tokens context_window config \<longleftrightarrow> context_window \<noteq> 0 \<and>
     collapse_threshold_percent config \<le> (total_tokens * 100) mod 2 ^ 64 div context_window"

datatype collapse_error = Sampler ustr | Degenerate

record 'a collapse_result =
  col_items :: "'a list"
  col_summary :: ustr
  collapsed_count :: nat

definition is_degenerate :: "ustr \<Rightarrow> bool" where
  "is_degenerate summary \<longleftrightarrow>
     (let t = trim summary in byte_len t < 20 \<or> list_all (\<lambda>c. c = 46 \<or> c = 32) t)"

text \<open>The model call, the flattening and the carrier of the summary are supplied by the host.\<close>

definition context_collapse :: "'a list \<Rightarrow> context_collapse_config \<Rightarrow> (ustr \<Rightarrow> nat \<Rightarrow> ustr + ustr) \<Rightarrow> ('a list \<Rightarrow> ustr)
    \<Rightarrow> (ustr \<Rightarrow> 'a) \<Rightarrow> collapse_error + 'a collapse_result" where
  "context_collapse items config summarize flatten carrier =
     (if length items \<le> cc_keep_recent config then
        Inr \<lparr>col_items = items, col_summary = [], collapsed_count = 0\<rparr>
      else
        let split = length items - cc_keep_recent config;
            early = take split items; recent = drop split items;
            to_summarize = flatten early
        in if trim to_summarize = [] then Inr \<lparr>col_items = items, col_summary = [], collapsed_count = 0\<rparr>
           else case summarize to_summarize (max_summary_tokens config) of
                  Inl e \<Rightarrow> Inl (Sampler e)
                | Inr summary \<Rightarrow>
                    if is_degenerate summary then Inl Degenerate
                    else Inr \<lparr>col_items = carrier summary # recent, col_summary = summary, collapsed_count = length early\<rparr>)"

section \<open>The scan\<close>

lemma drop_sum_mono: "i \<le> j \<Longrightarrow> sum_list (drop j xs) \<le> (sum_list (drop i xs) :: nat)"
proof -
  assume "i \<le> j"
  then have "drop i xs = take (j - i) (drop i xs) @ drop j xs"
    by (metis append_take_drop_id drop_drop le_add_diff_inverse2)
  then show ?thesis by (metis le_add2 sum_list_append)
qed

lemma split_scan_least:
  assumes "target < U32_MAX" "i \<le> length counts" "kept = sum_list (drop i counts)" "kept \<le> target" "split = i"
  shows "sum_list (drop (split_scan counts target i kept split) counts) \<le> target \<and>
    split_scan counts target i kept split \<le> i \<and>
    (\<forall>k < split_scan counts target i kept split. target < sum_list (drop k counts))"
  using assms(2-)
proof (induction i arbitrary: kept split)
  case (Suc i)
  have d: "sum_list (drop i counts) = counts ! i + kept"
    using Suc.prems by (metis Cons_nth_drop_Suc Suc_le_lessD sum_list.Cons)
  show ?case
  proof (cases "target < counts ! i + kept")
    case True
    then have "target < sat_add32 kept (counts ! i)" using assms(1) by (auto simp: sat_add32_def)
    moreover have "target < sum_list (drop k counts)" if "k < Suc i" for k
      using True d drop_sum_mono [of k i counts] that by simp
    ultimately show ?thesis using Suc.prems by (simp add: Let_def)
  next
    case False
    then have "sat_add32 kept (counts ! i) = sum_list (drop i counts)" using assms(1) d by (simp add: sat_add32_exact)
    then show ?thesis using Suc.IH [of "sum_list (drop i counts)" i] Suc.prems(1) False d by (simp add: Let_def)
  qed
qed simp

lemma past_results_least:
  assumes "idx \<le> length items"
  shows "idx \<le> past_results tr items idx \<and> past_results tr items idx \<le> length items \<and>
    (\<forall>k. idx \<le> k \<and> k < past_results tr items idx \<longrightarrow> tr (items ! k)) \<and>
    (past_results tr items idx < length items \<longrightarrow> \<not> tr (items ! past_results tr items idx))"
  using assms
proof (induction tr items idx rule: past_results.induct)
  case (1 tr items idx)
  show ?case
  proof (cases "idx < length items \<and> tr (items ! idx)")
    case True
    then have "past_results tr items idx = past_results tr items (idx + 1)" by (simp add: past_results.simps)
    then show ?thesis using 1(1) [OF True] True by (auto simp: Suc_le_eq order.order_iff_strict [of idx])
  next
    case False
    then have "past_results tr items idx = idx" by (subst past_results.simps) (auto simp only: if_False)
    then show ?thesis using 1(2) False by auto
  qed
qed

section \<open>The cut is the best one\<close>

lemma foldl_sat: "foldl sat_add32 a xs = min (a + sum_list xs) U32_MAX" if "a \<le> U32_MAX"
  using that
proof (induction xs arbitrary: a)
  case (Cons x xs)
  have "sat_add32 a x = min (a + x) U32_MAX" using Cons.prems by (auto simp: sat_add32_def min_def)
  then show ?case using Cons.IH [of "sat_add32 a x"] by (auto simp: min_def)
qed simp

text \<open>The first item that is not a tool result and from which on everything fits the target.\<close>

definition best_split :: "('a \<Rightarrow> bool) \<Rightarrow> nat list \<Rightarrow> 'a list \<Rightarrow> nat \<Rightarrow> nat option" where
  "best_split tr counts items target =
     find (\<lambda>i. sum_list (drop i counts) \<le> target \<and> \<not> tr (items ! i)) [0..<length items]"

lemma snap_best:
  assumes "split \<le> length items" "length counts = length items"
    and "sum_list (drop split counts) \<le> target" "\<forall>k < split. target < sum_list (drop k counts)"
  shows "best_split tr counts items target =
    (if length items \<le> snap_to_safe_boundary tr items split then None else Some (snap_to_safe_boundary tr items split))"
proof -
  let ?r = "past_results tr items split"
  note p = past_results_least [OF assms(1), of tr]
  have r: "snap_to_safe_boundary tr items split = ?r"
    using assms(1) by (auto simp: snap_to_safe_boundary_def past_results.simps [of tr items split])
  have no: "\<not> (sum_list (drop k counts) \<le> target \<and> \<not> tr (items ! k))" if "k < ?r" for k
    using that p assms(4) by (cases "k < split") auto
  show ?thesis
  proof (cases "?r < length items")
    case True
    have "sum_list (drop ?r counts) \<le> target" using drop_sum_mono [of split ?r counts] p assms(3) by simp
    then have "find (\<lambda>i. sum_list (drop i counts) \<le> target \<and> \<not> tr (items ! i)) [0..<length items] = Some ?r"
      unfolding find_Some_iff using True p no by (intro exI [of _ ?r]) auto
    then show ?thesis using True by (simp add: best_split_def r)
  next
    case False
    then have "find (\<lambda>i. sum_list (drop i counts) \<le> target \<and> \<not> tr (items ! i)) [0..<length items] = None"
      unfolding find_None_iff using no by auto
    then show ?thesis using False by (simp add: best_split_def r)
  qed
qed

lemma select_eq:
  assumes "length counts = length items" and "target < U32_MAX"
  shows "select_turns_to_compact tr counts items target least =
    (if sum_list counts \<le> target then None
     else case best_split tr counts items target of
            None \<Rightarrow> None
          | Some i \<Rightarrow>
              if min (sum_list (take i counts)) U32_MAX < least then None
              else Some \<lparr>split_idx = i, tokens_to_compact = min (sum_list (take i counts)) U32_MAX\<rparr>)"
proof (cases "items = []")
  case True
  then show ?thesis using assms by (simp add: select_turns_to_compact_def)
next
  case False
  let ?s = "split_scan counts target (length items) 0 (length items)"
  have s: "sum_list (drop ?s counts) \<le> target" "?s \<le> length items" "\<forall>k < ?s. target < sum_list (drop k counts)"
    using split_scan_least [OF assms(2), of "length items" counts 0 "length items"] assms(1) by auto
  have fit: "?s = 0 \<longleftrightarrow> sum_list counts \<le> target" using s(1,3) by (cases "?s = 0") (auto dest: spec [of _ 0])
  show ?thesis
    unfolding select_turns_to_compact_def Let_def snap_best [OF s(2) assms(1) s(1) s(3)] foldl_sat [of 0, simplified]
    using False fit by auto
qed

text \<open>
  C13. The cut is the earliest possible one: the code finds the first item that is no tool result and
  from which on the conversation fits the target, and gives up exactly when the whole conversation
  fits, when there is no such item, or when what lies before it is below the minimum.
\<close>

theorem select_is_best_split:
  assumes "length counts = length items" and "target < U32_MAX"
  shows "select_turns_to_compact tr counts items target least =
    (if sum_list counts \<le> target then None
     else case best_split tr counts items target of
            None \<Rightarrow> None
          | Some i \<Rightarrow>
              if min (sum_list (take i counts)) U32_MAX < least then None
              else Some \<lparr>split_idx = i, tokens_to_compact = min (sum_list (take i counts)) U32_MAX\<rparr>)"
  using assms by (rule select_eq)

theorem select_is_best_split_witness:
  "select_turns_to_compact (\<lambda>b. b) [50, 40, 30, 20, 10] [False, False, True, False, True] 60 10 =
     Some \<lparr>split_idx = 3, tokens_to_compact = 120\<rparr>"
  using select_is_best_split [of "[50, 40, 30, 20, 10]" "[False, False, True, False, True]" 60 "\<lambda>b. b" 10]
  by (simp add: best_split_def upt_conv_Cons)

section \<open>Tool results stay with their request\<close>

text \<open>A tool result belongs to the nearest item before it that is none.\<close>

definition belongs_to :: "('a \<Rightarrow> bool) \<Rightarrow> 'a list \<Rightarrow> nat \<Rightarrow> nat \<Rightarrow> bool" where
  "belongs_to tr items j i \<longleftrightarrow> i < j \<and> \<not> tr (items ! i) \<and> (\<forall>k. i < k \<and> k \<le> j \<longrightarrow> tr (items ! k))"

lemma belongs_after:
  assumes "\<not> tr (items ! s)" "s \<le> j" "tr (items ! j)"
  shows "\<exists>i \<ge> s. belongs_to tr items j i"
  using assms(2,3)
proof (induction "j - s" arbitrary: j)
  case 0
  then show ?case using assms(1) by simp
next
  case (Suc n)
  then obtain j' where j: "j = Suc j'" by (cases j) auto
  show ?case
  proof (cases "tr (items ! j')")
    case False
    then show ?thesis using Suc.prems Suc.hyps(2) by (intro exI [of _ j']) (auto simp: j belongs_to_def le_Suc_eq)
  next
    case True
    have "n = j' - s" "s \<le> j'" using Suc.hyps(2) by (auto simp: j)
    then obtain i where "s \<le> i" "belongs_to tr items j' i" using Suc.hyps(1) True by blast
    then show ?thesis using Suc.prems(2) by (auto simp: j belongs_to_def le_Suc_eq)
  qed
qed

text \<open>
  No tool result is kept without the item it belongs to: for every tool result behind the cut, the
  request before it is behind the cut too.
\<close>

theorem select_keeps_pairs:
  assumes "length counts = length items" and "target < U32_MAX"
    and "select_turns_to_compact tr counts items target least = Some plan"
    and "split_idx plan \<le> j" and "tr (items ! j)"
  shows "\<exists>i \<ge> split_idx plan. belongs_to tr items j i"
proof -
  have "best_split tr counts items target = Some (split_idx plan)"
    using assms(3) unfolding select_eq [OF assms(1,2)] by (auto split: if_splits option.splits)
  then have "\<not> tr (items ! split_idx plan)" unfolding best_split_def find_Some_iff by auto
  then show ?thesis using assms(4,5) by (rule belongs_after)
qed

theorem select_keeps_pairs_witness:
  "\<exists>i \<ge> 3. belongs_to (\<lambda>b. b) [False, False, True, False, True] 4 i"
proof -
  have "select_turns_to_compact (\<lambda>b. b) [50, 40, 30, 20, 10] [False, False, True, False, True] 60 10 =
      Some \<lparr>split_idx = 3, tokens_to_compact = 120\<rparr>"
    by (subst select_eq) (simp_all add: best_split_def upt_conv_Cons)
  from select_keeps_pairs [OF _ _ this, of 4] show ?thesis by simp
qed

text \<open>
  Collapsing by summary has no such care: it cuts at a fixed number of items, and when the first kept
  item is a tool result, the conversation it returns has a result directly behind the summary.
\<close>

theorem collapse_orphans_result:
  assumes "context_collapse items config summarize flatten carrier = Inr r" and "0 < collapsed_count r"
    and "0 < cc_keep_recent config" and "tr (items ! (length items - cc_keep_recent config))"
  shows "hd (col_items r) = carrier (col_summary r) \<and> tr (col_items r ! 1)"
proof -
  have l: "cc_keep_recent config < length items"
      "col_items r = carrier (col_summary r) # drop (length items - cc_keep_recent config) items"
    using assms(1,2) by (auto simp: context_collapse_def Let_def split: if_splits sum.splits)
  have "length items - cc_keep_recent config < length items" using l(1) assms(3) by simp
  then have "drop (length items - cc_keep_recent config) items \<noteq> [] \<and>
      hd (drop (length items - cc_keep_recent config) items) = items ! (length items - cc_keep_recent config)"
    by (simp add: hd_drop_conv_nth)
  then show ?thesis using l(2) assms(4) by (cases "drop (length items - cc_keep_recent config) items") simp_all
qed

theorem collapse_orphans_result_witness:
  "\<exists>r. context_collapse [1, 2, 3 :: nat] \<lparr>collapse_threshold_percent = 85, max_summary_tokens = 2000, cc_keep_recent = 1\<rparr>
       (\<lambda>s n. Inr (u ''They fixed the parser and chose a hash map.'')) (\<lambda>xs. u ''x'') (\<lambda>s. 0) = Inr r \<and>
     col_items r ! 1 = 3"
proof -
  let ?t = "u ''They fixed the parser and chose a hash map.''" and ?c = "\<lparr>collapse_threshold_percent = 85, max_summary_tokens = 2000, cc_keep_recent = 1\<rparr>"
  have t: "trim ?t = ?t" "trim (u ''x'') = u ''x''" by (simp_all add: trim_def trim_start_def trim_end_def is_ws_def)
  have d: "\<not> is_degenerate ?t" unfolding is_degenerate_def t Let_def by (simp add: utf8_len_def)
  have e: "context_collapse [1, 2, 3 :: nat] ?c (\<lambda>s n. Inr ?t) (\<lambda>xs. u ''x'') (\<lambda>s. 0) =
      Inr \<lparr>col_items = [0, 3], col_summary = ?t, collapsed_count = 2\<rparr>"
    using d by (simp add: context_collapse_def Let_def t del: u_Cons) simp
  from collapse_orphans_result [OF this, of "\<lambda>x. x = 3"] show ?thesis unfolding e by simp
qed

end
