(* ===== verification/Reflex.thy ===== *)
theory Reflex
  imports Json Prelude "HOL-Library.AList"
begin

text \<open>
  The reflex router of the kernel, \<^verbatim>\<open>crates/codegen/ccore/src/kernel/reflex.rs\<close>: rules that answer a
  sensory signal without a model call, and their promotion and demotion by results. A regular
  expression is what it matches; compiling one is the parameter \<open>regex_new\<close>. Counters are 32-bit.
\<close>

section \<open>Rules and router\<close>

datatype reflex_level = L0 | L1Trial | L1Formal

record reflex_rule =
  rule_id :: ustr
  rule_pattern :: ustr
  rule_topic :: ustr
  rule_level :: reflex_level
  rule_action :: ustr
  rule_params :: json
  rule_source :: ustr
  use_count :: nat
  success_count :: nat
  consecutive_fails :: nat
  disabled :: bool

datatype reflex_action =
    Direct ustr json
  | Instinct ustr json
  | Trial ustr json

type_synonym regex = "ustr \<Rightarrow> bool"

record reflex_router =
  rules :: "(ustr \<times> reflex_rule list) list"
  compiled_patterns :: "(ustr \<times> regex) list"

definition reflex_router_new :: reflex_router where
  "reflex_router_new = \<lparr>rules = [], compiled_patterns = []\<rparr>"

text \<open>\<^verbatim>\<open>entry(k).or_default().push(v)\<close>.\<close>

definition entry_push :: "'k \<Rightarrow> 'v \<Rightarrow> ('k \<times> 'v list) list \<Rightarrow> ('k \<times> 'v list) list" where
  "entry_push k v al = AList.update k ((case map_of al k of Some vs \<Rightarrow> vs | None \<Rightarrow> []) @ [v]) al"

definition add_rule :: "(ustr \<Rightarrow> regex option) \<Rightarrow> reflex_router \<Rightarrow> reflex_rule \<Rightarrow> reflex_router" where
  "add_rule regex_new router rule =
     (case regex_new (rule_pattern rule) of
        Some re \<Rightarrow> router\<lparr>compiled_patterns := AList.update (rule_id rule) re (compiled_patterns router),
                          rules := entry_push (rule_topic rule) rule (rules router)\<rparr>
      | None \<Rightarrow> router)"

definition with_rules :: "(ustr \<Rightarrow> regex option) \<Rightarrow> reflex_rule list \<Rightarrow> reflex_router" where
  "with_rules regex_new rs = foldl (add_rule regex_new) reflex_router_new rs"

section \<open>Routing a signal\<close>

definition action_of :: "reflex_rule \<Rightarrow> reflex_action" where
  "action_of r =
     (case rule_level r of
        L0 \<Rightarrow> Direct (rule_action r) (rule_params r)
      | L1Formal \<Rightarrow> Instinct (rule_action r) (rule_params r)
      | L1Trial \<Rightarrow> Trial (rule_action r) (rule_params r))"

definition fires :: "(ustr \<times> regex) list \<Rightarrow> ustr \<Rightarrow> reflex_rule \<Rightarrow> bool" where
  "fires compiled payload r \<longleftrightarrow> \<not> disabled r \<and>
     (case map_of compiled (rule_id r) of Some re \<Rightarrow> re payload | None \<Rightarrow> False)"

definition first_firing :: "(ustr \<times> regex) list \<Rightarrow> ustr \<Rightarrow> reflex_rule list \<Rightarrow> reflex_action option" where
  "first_firing compiled payload rs = map_option action_of (find (fires compiled payload) rs)"

text \<open>The exact topic first, then the topics above it, then the topics that end in a star.\<close>

definition route :: "reflex_router \<Rightarrow> ustr \<Rightarrow> ustr \<Rightarrow> reflex_action option" where
  "route router signal_topic signal_payload =
     (let try_rules = first_firing (compiled_patterns router) signal_payload;
          under = (\<lambda>P. concat (map snd (filter (P \<circ> fst) (rules router))))
      in case (case map_of (rules router) signal_topic of Some rs \<Rightarrow> try_rules rs | None \<Rightarrow> None) of
           Some a \<Rightarrow> Some a
         | None \<Rightarrow>
             (case try_rules (under (\<lambda>k. starts_with signal_topic (k @ u ''/''))) of
                Some a \<Rightarrow> Some a
              | None \<Rightarrow> try_rules (under (\<lambda>k. ends_with k (u ''*'') \<and> starts_with signal_topic (butlast k)))))"

section \<open>Results and evolution\<close>

definition is_code_modification :: "ustr \<Rightarrow> bool" where
  "is_code_modification a \<longleftrightarrow>
     starts_with a (u ''hand/'') \<or> starts_with a (u ''limb/'') \<or> starts_with a (u ''mouth/'')"

definition count_result :: "bool \<Rightarrow> reflex_rule \<Rightarrow> reflex_rule" where
  "count_result success r =
     (let r1 = r\<lparr>use_count := inc32 (use_count r)\<rparr>
      in if success then r1\<lparr>success_count := inc32 (success_count r1), consecutive_fails := 0\<rparr>
         else r1\<lparr>consecutive_fails := inc32 (consecutive_fails r1)\<rparr>)"

definition evolve :: "bool \<Rightarrow> reflex_rule \<Rightarrow> reflex_rule \<times> bool" where
  "evolve success r =
     (let r2 = count_result success r;
          down = (2 \<le> consecutive_fails r2 \<and> rule_level r2 \<noteq> L0);
          r3 = (if down then r2\<lparr>disabled := True\<rparr> else r2);
          to_l0 = (rule_level r3 = L1Formal \<and> 20 \<le> use_count r3 \<and> success_count r3 = use_count r3 \<and>
                   \<not> is_code_modification (rule_action r3));
          r4 = (if to_l0 then r3\<lparr>rule_level := L0, rule_source := u ''evolved''\<rparr> else r3);
          to_formal = (rule_level r4 = L1Trial \<and> 10 \<le> use_count r4 \<and> success_count r4 = use_count r4);
          r5 = (if to_formal then r4\<lparr>rule_level := L1Formal\<rparr> else r4)
      in (r5, down \<or> to_l0 \<or> to_formal))"

fun record_in_rules :: "ustr \<Rightarrow> bool \<Rightarrow> reflex_rule list \<Rightarrow> (reflex_rule list \<times> bool) option" where
  "record_in_rules i success [] = None"
| "record_in_rules i success (r # rs) =
     (if rule_id r = i then (let (r', evolved) = evolve success r in Some (r' # rs, evolved))
      else map_option (apfst ((#) r)) (record_in_rules i success rs))"

fun record_in_topics :: "ustr \<Rightarrow> bool \<Rightarrow> (ustr \<times> reflex_rule list) list
    \<Rightarrow> ((ustr \<times> reflex_rule list) list \<times> bool) option" where
  "record_in_topics i success [] = None"
| "record_in_topics i success ((k, rs) # ts) =
     (case record_in_rules i success rs of
        Some (rs', evolved) \<Rightarrow> Some ((k, rs') # ts, evolved)
      | None \<Rightarrow> map_option (apfst ((#) (k, rs))) (record_in_topics i success ts))"

definition record_result :: "reflex_router \<Rightarrow> ustr \<Rightarrow> bool \<Rightarrow> reflex_router \<times> bool" where
  "record_result router i success =
     (case record_in_topics i success (rules router) of
        Some (ts, evolved) \<Rightarrow> (router\<lparr>rules := ts\<rparr>, evolved)
      | None \<Rightarrow> (router, False))"

definition propose_rule :: "(ustr \<Rightarrow> regex option) \<Rightarrow> reflex_router \<Rightarrow> ustr \<Rightarrow> ustr \<Rightarrow> ustr \<Rightarrow> ustr \<Rightarrow> json
    \<Rightarrow> reflex_router" where
  "propose_rule regex_new router i pattern signal_topic act params =
     add_rule regex_new router
       \<lparr>rule_id = i, rule_pattern = pattern, rule_topic = signal_topic, rule_level = L1Trial, rule_action = act,
        rule_params = params, rule_source = u ''learned'', use_count = 0, success_count = 0,
        consecutive_fails = 0, disabled = False\<rparr>"

section \<open>Queries and the rules shipped with the kernel\<close>

definition all_rules :: "reflex_router \<Rightarrow> reflex_rule list" where
  "all_rules router = concat (map snd (rules router))"

record reflex_router_stats =
  total_rules :: nat
  l0_count :: nat
  l1_formal_count :: nat
  l1_trial_count :: nat
  disabled_count :: nat

definition router_stats :: "reflex_router \<Rightarrow> reflex_router_stats" where
  "router_stats router =
     (let all = all_rules router; count = (\<lambda>P. length (filter P all))
      in \<lparr>total_rules = length all, l0_count = count (\<lambda>r. rule_level r = L0),
          l1_formal_count = count (\<lambda>r. rule_level r = L1Formal),
          l1_trial_count = count (\<lambda>r. rule_level r = L1Trial), disabled_count = count disabled\<rparr>)"

definition log_rule :: "ustr \<Rightarrow> ustr \<Rightarrow> ustr \<Rightarrow> reflex_rule" where
  "log_rule i signal_topic lvl =
     \<lparr>rule_id = i, rule_pattern = u ''.*'', rule_topic = signal_topic, rule_level = L0,
      rule_action = u ''kernel/log'', rule_params = JObject [(u ''action'', JString i), (u ''level'', JString lvl)],
      rule_source = u ''manual'', use_count = 0, success_count = 0, consecutive_fails = 0, disabled = False\<rparr>"

definition builtin_reflex_rules :: "reflex_rule list" where
  "builtin_reflex_rules =
     [log_rule (u ''log_file_change'') (u ''sensory/eye'') (u ''debug''),
      log_rule (u ''log_compile_error'') (u ''sensory/nose/compile_error'') (u ''warn'')]"

section \<open>The invariant of the router\<close>

text \<open>Topics are distinct keys, a rule is filed under its topic, and its pattern is compiled.\<close>

definition router_inv :: "reflex_router \<Rightarrow> bool" where
  "router_inv router \<longleftrightarrow> distinct (map fst (rules router)) \<and>
     (\<forall>(k, rs) \<in> set (rules router). \<forall>r \<in> set rs.
        rule_topic r = k \<and> rule_id r \<in> fst ` set (compiled_patterns router))"

lemma router_inv_new: "router_inv reflex_router_new"
  by (simp add: router_inv_def reflex_router_new_def)

lemma distinct_entry_push: "distinct (map fst al) \<Longrightarrow> distinct (map fst (entry_push k v al))"
  by (simp add: entry_push_def distinct_update)

lemma set_entry_push:
  assumes "distinct (map fst al)"
  shows "set (concat (map snd (entry_push k v al))) = insert v (set (concat (map snd al)))"
proof -
  have "\<Union> (set ` snd ` set xs) = (\<Union>p \<in> set xs. set (snd p))" for xs :: "('a \<times> 'b list) list"
    by blast
  moreover have "(\<Union>p \<in> set (AList.update k (vs @ [v]) al). set (snd p)) = insert v (\<Union>p \<in> set al. set (snd p))"
    if "vs = (case map_of al k of Some vs \<Rightarrow> vs | None \<Rightarrow> [])" for vs
    using assms that
  proof (induction al)
    case (Cons p al)
    show ?case
    proof (cases "fst p = k")
      case True
      with Cons.prems show ?thesis by (cases p) auto
    next
      case False
      with Cons show ?thesis by (cases p) auto
    qed
  qed simp
  ultimately show ?thesis by (simp add: entry_push_def)
qed

lemma in_entry_push:
  assumes "distinct (map fst al)" "(k', ws) \<in> set (entry_push k v al)" "w \<in> set ws"
  shows "k' = k \<and> w = v \<or> (\<exists>vs. (k', vs) \<in> set al \<and> w \<in> set vs)"
proof -
  have "map_of (entry_push k v al) k' = Some ws"
    using assms(1,2) by (simp add: distinct_entry_push)
  then show ?thesis
    using assms(1,3) by (auto simp: entry_push_def update_conv' split: if_splits option.splits)
qed

lemma router_inv_add_rule:
  assumes "router_inv router"
  shows "router_inv (add_rule regex_new router rule)"
proof (cases "regex_new (rule_pattern rule)")
  case (Some re)
  have d: "distinct (map fst (rules router))" using assms by (simp add: router_inv_def)
  have "rule_topic r = k \<and> rule_id r \<in> fst ` set (AList.update (rule_id rule) re (compiled_patterns router))"
    if "(k, rs) \<in> set (entry_push (rule_topic rule) rule (rules router))" "r \<in> set rs" for k rs r
  proof -
    have "set (map fst (AList.update (rule_id rule) re (compiled_patterns router)))
      = insert (rule_id rule) (set (map fst (compiled_patterns router)))" by (auto simp: update_keys)
    with in_entry_push [OF d that] assms show ?thesis by (fastforce simp: router_inv_def)
  qed
  then show ?thesis
    using Some d by (auto simp: router_inv_def add_rule_def distinct_entry_push)
qed (simp add: add_rule_def assms)

lemma router_inv_with_rules: "router_inv (with_rules regex_new rs)"
proof -
  have "router_inv router \<Longrightarrow> router_inv (foldl (add_rule regex_new) router rs)" for router
    by (induction rs arbitrary: router) (simp_all add: router_inv_add_rule)
  then show ?thesis by (simp add: with_rules_def router_inv_new)
qed

lemma set_all_rules_add_rule:
  assumes "router_inv router"
  shows "set (all_rules (add_rule regex_new router rule)) =
    (if regex_new (rule_pattern rule) = None then {} else {rule}) \<union> set (all_rules router)"
proof -
  have "distinct (map fst (rules router))" using assms by (simp add: router_inv_def)
  from set_entry_push [OF this] show ?thesis
    by (auto simp: add_rule_def all_rules_def split: option.split)
qed

lemma length_entry_push: "length (concat (map snd (entry_push k v al))) = Suc (length (concat (map snd al)))"
proof -
  have "length (concat (map snd (AList.update k (vs @ [v]) al))) = Suc (length (concat (map snd al)))"
    if "vs = (case map_of al k of Some vs \<Rightarrow> vs | None \<Rightarrow> [])" for vs
    using that by (induction al) (auto split: if_splits)
  then show ?thesis by (simp add: entry_push_def)
qed

lemma length_all_rules_add_rule:
  "length (all_rules (add_rule regex_new router rule)) =
     length (all_rules router) + (if regex_new (rule_pattern rule) = None then 0 else 1)"
  using length_entry_push [of "rule_topic rule" rule "rules router"]
  by (auto simp: add_rule_def all_rules_def split: option.split)

section \<open>Recording a result\<close>

definition rule_of :: "reflex_router \<Rightarrow> ustr \<Rightarrow> reflex_rule option" where
  "rule_of router i = find (\<lambda>r. rule_id r = i) (all_rules router)"

lemma evolve_keeps [simp]:
  "rule_id (fst (evolve s r)) = rule_id r"
  "rule_topic (fst (evolve s r)) = rule_topic r"
  "rule_action (fst (evolve s r)) = rule_action r"
  by (simp_all add: evolve_def count_result_def Let_def)

lemma find_append: "find P (xs @ ys) = (case find P xs of None \<Rightarrow> find P ys | Some x \<Rightarrow> Some x)"
  by (induction xs) auto

lemma record_in_rules_None: "record_in_rules j s rs = None \<longleftrightarrow> find (\<lambda>r. rule_id r = j) rs = None"
  by (induction rs) (auto split: prod.splits)

lemma record_in_rules_Some:
  "record_in_rules j s rs = Some (rs', e) \<Longrightarrow>
     find (\<lambda>r. rule_id r = i) rs' =
       (if i = j then map_option (fst \<circ> evolve s) (find (\<lambda>r. rule_id r = i) rs) else find (\<lambda>r. rule_id r = i) rs)"
proof (induction rs arbitrary: rs')
  case (Cons r rs)
  show ?case
  proof (cases "rule_id r = j")
    case True
    then have "rs' = fst (evolve s r) # rs" using Cons.prems by (simp add: case_prod_unfold Let_def)
    then show ?thesis using True by auto
  next
    case False
    then obtain rs1 where "record_in_rules j s rs = Some (rs1, e)" "rs' = r # rs1"
      using Cons.prems by (auto simp: apfst_def)
    then show ?thesis using False Cons.IH by (auto simp: comp_def)
  qed
qed simp

lemma record_in_topics_None:
  "record_in_topics j s ts = None \<Longrightarrow> find (\<lambda>r. rule_id r = j) (concat (map snd ts)) = None"
  by (induction ts) (auto simp: find_append record_in_rules_None split: option.splits)

lemma record_in_topics_Some:
  "record_in_topics j s ts = Some (ts', e) \<Longrightarrow>
     find (\<lambda>r. rule_id r = i) (concat (map snd ts')) =
       (if i = j then map_option (fst \<circ> evolve s) (find (\<lambda>r. rule_id r = i) (concat (map snd ts)))
        else find (\<lambda>r. rule_id r = i) (concat (map snd ts)))"
proof (induction ts arbitrary: ts')
  case (Cons p ts)
  obtain k rs where p: "p = (k, rs)" by (cases p)
  show ?case
  proof (cases "record_in_rules j s rs")
    case None
    then obtain ts1 where t: "record_in_topics j s ts = Some (ts1, e)" "ts' = p # ts1"
      using Cons.prems by (auto simp: p apfst_def)
    have "i = j \<Longrightarrow> find (\<lambda>r. rule_id r = i) rs = None" using None by (simp add: record_in_rules_None)
    with t Cons.IH [OF t(1)] show ?thesis by (cases "i = j") (simp_all add: p find_append cong: option.case_cong)
  next
    case (Some q)
    then obtain rs' where r: "record_in_rules j s rs = Some (rs', e)" "ts' = (k, rs') # ts"
      using Cons.prems by (cases q) (auto simp: p)
    have "i = j \<Longrightarrow> find (\<lambda>r. rule_id r = i) rs \<noteq> None" using r(1) record_in_rules_None [of j s rs] by auto
    with r record_in_rules_Some [OF r(1), of i] show ?thesis
      by (auto simp: p find_append)
  qed
qed simp

lemma rule_of_record_result:
  "rule_of (fst (record_result router j s)) i =
     (if i = j then map_option (fst \<circ> evolve s) (rule_of router i) else rule_of router i)"
proof (cases "record_in_topics j s (rules router)")
  case None
  with record_in_topics_None [OF this] show ?thesis by (simp add: record_result_def rule_of_def all_rules_def)
next
  case (Some q)
  then obtain ts e where "record_in_topics j s (rules router) = Some (ts, e)" by (cases q) auto
  from record_in_topics_Some [OF this, of i] this show ?thesis
    by (simp add: record_result_def rule_of_def all_rules_def)
qed

lemma rule_of_add_rule:
  assumes "router_inv router" "regex_new (rule_pattern rule) \<noteq> None" "rule_of router (rule_id rule) = None"
  shows "rule_of (add_rule regex_new router rule) (rule_id rule) = Some rule"
proof -
  let ?rs = "all_rules (add_rule regex_new router rule)"
  have s: "set ?rs = insert rule (set (all_rules router))" using assms(2) by (auto simp: set_all_rules_add_rule [OF assms(1)])
  have n: "\<forall>r \<in> set (all_rules router). rule_id r \<noteq> rule_id rule"
    using assms(3) by (simp add: rule_of_def find_None_iff)
  show ?thesis
  proof (cases "find (\<lambda>r. rule_id r = rule_id rule) ?rs")
    case None
    then show ?thesis using s by (auto simp: find_None_iff)
  next
    case (Some r)
    then have "r \<in> set ?rs" "rule_id r = rule_id rule" by (auto simp: find_Some_iff)
    with s n Some show ?thesis by (auto simp: rule_of_def)
  qed
qed

section \<open>Evolution of a rule\<close>

definition after_results :: "reflex_rule \<Rightarrow> bool list \<Rightarrow> reflex_rule" where
  "after_results r h = foldl (\<lambda>r s. fst (evolve s r)) r h"

text \<open>The first \<open>n\<close> results are there and all good; two results in a row are bad.\<close>

definition clean :: "nat \<Rightarrow> bool list \<Rightarrow> bool" where
  "clean n h \<longleftrightarrow> n \<le> length h \<and> list_all (\<lambda>s. s) (take n h)"

definition fails_twice :: "bool list \<Rightarrow> bool" where
  "fails_twice h \<longleftrightarrow> (\<exists>i < length h - 1. \<not> h ! i \<and> \<not> h ! Suc i)"

definition level_after :: "bool \<Rightarrow> bool list \<Rightarrow> reflex_level" where
  "level_after code h = (if clean 20 h \<and> \<not> code then L0 else if clean 10 h then L1Formal else L1Trial)"

definition fresh_trial :: "reflex_rule \<Rightarrow> bool" where
  "fresh_trial r \<longleftrightarrow> rule_level r = L1Trial \<and> use_count r = 0 \<and> success_count r = 0 \<and>
     consecutive_fails r = 0 \<and> \<not> disabled r"

lemma clean_snoc: "clean n (h @ [s]) \<longleftrightarrow> clean n h \<or> (n = Suc (length h) \<and> list_all (\<lambda>s. s) (h @ [s]))"
  by (auto simp: clean_def le_Suc_eq)

lemma clean_step: "\<not> clean n h \<Longrightarrow> clean n (h @ [s]) \<longleftrightarrow> n \<le> length h + 1 \<and> list_all (\<lambda>s. s) (h @ [s])"
  by (auto simp: clean_snoc) (auto simp: clean_def list_all_length le_Suc_eq)

lemma clean_mono: "clean n h \<Longrightarrow> m \<le> n \<Longrightarrow> clean m h"
  unfolding clean_def by (metis list_all_append append_take_drop_id le_trans min.absorb1 take_take)

lemma all_true_count: "length (filter (\<lambda>s. s) h) = length h \<longleftrightarrow> list_all (\<lambda>s. s) h"
  by (simp add: filter_eq_length_iff list_all_iff)

lemma all_good_no_fails: "list_all (\<lambda>s. s) h \<Longrightarrow> \<not> fails_twice h"
  by (auto simp: fails_twice_def list_all_length)

lemma fails_twice_snoc: "fails_twice (h @ [s]) \<longleftrightarrow> fails_twice h \<or> (h \<noteq> [] \<and> \<not> last h \<and> \<not> s)"
proof -
  have "(\<exists>i < length h. \<not> (h @ [s]) ! i \<and> \<not> (h @ [s]) ! Suc i) \<longleftrightarrow>
      (\<exists>i < length h - 1. \<not> h ! i \<and> \<not> h ! Suc i) \<or> (h \<noteq> [] \<and> \<not> h ! (length h - 1) \<and> \<not> s)" (is "?l \<longleftrightarrow> ?r")
  proof
    assume ?l
    then obtain i where i: "i < length h" "\<not> (h @ [s]) ! i" "\<not> (h @ [s]) ! Suc i" by blast
    show ?r
    proof (cases "Suc i < length h")
      case True
      then have "i < length h - 1" "\<not> h ! i" "\<not> h ! Suc i" using i by (simp_all add: nth_append)
      then show ?thesis by blast
    next
      case False
      then have "i = length h - 1" "h \<noteq> []" using i(1) by auto
      then show ?thesis using i False by (simp add: nth_append)
    qed
  next
    assume ?r
    then show ?l
    proof
      assume "\<exists>i < length h - 1. \<not> h ! i \<and> \<not> h ! Suc i"
      then obtain i where i: "i < length h - 1" "\<not> h ! i" "\<not> h ! Suc i" by blast
      then have "Suc i < length h" by linarith
      with i show ?l by (intro exI [of _ i]) (simp add: nth_append)
    next
      assume "h \<noteq> [] \<and> \<not> h ! (length h - 1) \<and> \<not> s"
      then show ?l by (intro exI [of _ "length h - 1"]) (simp add: nth_append)
    qed
  qed
  then show ?thesis by (cases "h = []") (simp_all add: fails_twice_def last_conv_nth)
qed

lemma two_fails_at_end: "2 \<le> length (takeWhile Not (rev (h @ [s]))) \<longleftrightarrow> h \<noteq> [] \<and> \<not> last h \<and> \<not> s"
  by (cases h rule: rev_cases) (auto simp: numeral_2_eq_2 Suc_le_eq)

lemma evolve_step:
  assumes "use_count r + 1 < 2 ^ 32" "success_count r + 1 < 2 ^ 32" "consecutive_fails r + 1 < 2 ^ 32"
  shows "use_count (fst (evolve s r)) = use_count r + 1"
    and "success_count (fst (evolve s r)) = success_count r + (if s then 1 else 0)"
    and "consecutive_fails (fst (evolve s r)) = (if s then 0 else consecutive_fails r + 1)"
    and "disabled (fst (evolve s r)) \<longleftrightarrow>
      disabled r \<or> (\<not> s \<and> 2 \<le> consecutive_fails r + 1 \<and> rule_level r \<noteq> L0)"
    and "rule_level (fst (evolve s r)) =
      (let full = (success_count r + (if s then 1 else 0) = use_count r + 1)
       in if rule_level r = L1Formal \<and> 20 \<le> use_count r + 1 \<and> full \<and> \<not> is_code_modification (rule_action r) then L0
          else if rule_level r = L1Trial \<and> 10 \<le> use_count r + 1 \<and> full then L1Formal
          else rule_level r)"
  using assms by (simp_all add: evolve_def count_result_def inc32_def Let_def) auto

lemma level_step:
  "(let full = list_all (\<lambda>s. s) (h @ [s])
    in if level_after code h = L1Formal \<and> 20 \<le> length h + 1 \<and> full \<and> \<not> code then L0
       else if level_after code h = L1Trial \<and> 10 \<le> length h + 1 \<and> full then L1Formal
       else level_after code h) = level_after code (h @ [s])"
proof (cases "clean 20 h")
  case True
  then have "clean 10 h" "clean 20 (h @ [s])" "clean 10 (h @ [s])" by (auto simp: clean_snoc intro: clean_mono)
  with True show ?thesis by (simp add: level_after_def Let_def)
next
  case False
  note c20 = clean_step [OF this]
  show ?thesis
  proof (cases "clean 10 h")
    case True
    then have "clean 10 (h @ [s])" by (simp add: clean_snoc)
    with True False show ?thesis by (simp add: level_after_def Let_def c20)
  next
    case f10: False
    have "\<not> (20 \<le> length h + 1 \<and> list_all (\<lambda>s. s) (h @ [s]))"
    proof
      assume a: "20 \<le> length h + 1 \<and> list_all (\<lambda>s. s) (h @ [s])"
      then have "\<forall>x \<in> set (take 10 h). x" using in_set_takeD by (fastforce simp: list_all_iff)
      with a have "clean 10 h" by (simp add: clean_def list_all_iff)
      with f10 show False ..
    qed
    with False f10 show ?thesis by (simp only: level_after_def Let_def c20 clean_step [OF f10]) simp
  qed
qed

lemma after_results_fresh:
  assumes "fresh_trial r" "length h < 2 ^ 32"
  shows "use_count (after_results r h) = length h \<and> success_count (after_results r h) = length (filter (\<lambda>s. s) h) \<and>
    consecutive_fails (after_results r h) = length (takeWhile Not (rev h)) \<and>
    rule_action (after_results r h) = rule_action r \<and>
    rule_level (after_results r h) = level_after (is_code_modification (rule_action r)) h \<and>
    (disabled (after_results r h) \<longleftrightarrow>
       fails_twice h \<and> level_after (is_code_modification (rule_action r)) h \<noteq> L0)"
  using assms(2)
proof (induction h rule: rev_induct)
  case Nil
  then show ?case
    using assms(1) by (simp add: after_results_def fresh_trial_def level_after_def clean_def fails_twice_def)
next
  case (snoc s h)
  let ?r = "after_results r h" and ?code = "is_code_modification (rule_action r)"
  have ih: "use_count ?r = length h" "success_count ?r = length (filter (\<lambda>s. s) h)"
    "consecutive_fails ?r = length (takeWhile Not (rev h))" "rule_action ?r = rule_action r"
    "rule_level ?r = level_after ?code h" "disabled ?r \<longleftrightarrow> fails_twice h \<and> level_after ?code h \<noteq> L0"
    using snoc by auto
  have "length (filter (\<lambda>s. s) h) \<le> length h" by (rule length_filter_le)
  moreover have "length (takeWhile Not (rev h)) \<le> length h" using length_takeWhile_le [of Not "rev h"] by simp
  moreover have "length h + 1 < 2 ^ 32" using snoc.prems by simp
  ultimately have small: "use_count ?r + 1 < 2 ^ 32" "success_count ?r + 1 < 2 ^ 32" "consecutive_fails ?r + 1 < 2 ^ 32"
    unfolding ih by linarith+
  have step: "after_results r (h @ [s]) = fst (evolve s ?r)" by (simp add: after_results_def)
  note ev = evolve_step [OF small, of s, folded step, unfolded ih]
  have full: "length (filter (\<lambda>s. s) h) + (if s then 1 else 0) = length h + 1 \<longleftrightarrow> list_all (\<lambda>s. s) (h @ [s])"
    using all_true_count [of "h @ [s]"] by (cases s) simp_all
  have level: "rule_level (after_results r (h @ [s])) = level_after ?code (h @ [s])"
    unfolding ev(5) full by (rule level_step)
  have ends: "\<not> s \<and> 2 \<le> length (takeWhile Not (rev h)) + 1 \<longleftrightarrow> h \<noteq> [] \<and> \<not> last h \<and> \<not> s"
    using two_fails_at_end [of h s] by auto
  have "fails_twice (h @ [s]) \<Longrightarrow> level_after ?code (h @ [s]) = L0 \<Longrightarrow> level_after ?code h = L0"
    using all_good_no_fails [of "h @ [s]"] by (auto simp: level_after_def clean_snoc split: if_splits)
  moreover have "level_after ?code h = L0 \<Longrightarrow> level_after ?code (h @ [s]) = L0"
    by (auto simp: level_after_def clean_snoc split: if_splits)
  ultimately have "disabled (after_results r (h @ [s])) \<longleftrightarrow>
      fails_twice (h @ [s]) \<and> level_after ?code (h @ [s]) \<noteq> L0"
    using ends by (auto simp: ev(4) fails_twice_snoc)
  moreover have "rule_action (after_results r (h @ [s])) = rule_action r" by (simp add: step ih(4))
  ultimately show ?case using level ev(1-3) by (cases s) simp_all
qed

lemma rule_of_results:
  "rule_of (foldl (\<lambda>r (j, s). fst (record_result r j s)) router results) i =
     map_option (\<lambda>r. after_results r (map snd (filter (\<lambda>(j, s). j = i) results))) (rule_of router i)"
proof (induction results arbitrary: router)
  case Nil
  then show ?case by (simp add: after_results_def option.map_ident)
next
  case (Cons p results)
  then show ?case
    by (cases p) (simp add: rule_of_record_result option.map_comp comp_def after_results_def)
qed

section \<open>Which rule answers\<close>

definition covers :: "ustr \<Rightarrow> ustr \<Rightarrow> bool" where
  "covers k t \<longleftrightarrow> k = t \<or> starts_with t (k @ u ''/'') \<or> (ends_with k (u ''*'') \<and> starts_with t (butlast k))"

lemma first_firing_None: "first_firing c p rs = None \<longleftrightarrow> (\<forall>r \<in> set rs. \<not> fires c p r)"
  by (auto simp: first_firing_def find_None_iff)

lemma first_firing_Some: "first_firing c p rs = Some a \<Longrightarrow> \<exists>r \<in> set rs. fires c p r \<and> action_of r = a"
  by (auto simp: first_firing_def find_Some_iff)

lemma in_all_rules: "r \<in> set (all_rules router) \<longleftrightarrow> (\<exists>k rs. (k, rs) \<in> set (rules router) \<and> r \<in> set rs)"
  by (force simp: all_rules_def)

lemma filed: "router_inv router \<Longrightarrow> (k, rs) \<in> set (rules router) \<Longrightarrow> r \<in> set rs \<Longrightarrow> rule_topic r = k"
  by (auto simp: router_inv_def)

lemma rules_under:
  assumes "router_inv router"
  shows "set (concat (map snd (filter (P \<circ> fst) (rules router)))) = {r \<in> set (all_rules router). P (rule_topic r)}"
    (is "?l = ?r")
proof (rule set_eqI)
  fix r
  have "r \<in> ?l \<longleftrightarrow> (\<exists>k rs. (k, rs) \<in> set (rules router) \<and> P k \<and> r \<in> set rs)" by force
  also have "\<dots> \<longleftrightarrow> r \<in> ?r" using filed [OF assms] by (simp add: in_all_rules) blast
  finally show "r \<in> ?l \<longleftrightarrow> r \<in> ?r" .
qed

lemma rules_at:
  assumes "router_inv router"
  shows "set (case map_of (rules router) t of Some rs \<Rightarrow> rs | None \<Rightarrow> []) = {r \<in> set (all_rules router). rule_topic r = t}"
proof -
  have d: "distinct (map fst (rules router))" using assms by (simp add: router_inv_def)
  have in_iff: "r \<in> set (all_rules router) \<and> rule_topic r = t \<longleftrightarrow> (\<exists>rs. (t, rs) \<in> set (rules router) \<and> r \<in> set rs)" for r
    using filed [OF assms] by (simp add: in_all_rules) blast
  show ?thesis
  proof (cases "map_of (rules router) t")
    case None
    then have "\<forall>rs. (t, rs) \<notin> set (rules router)" by (force simp: map_of_eq_None_iff)
    with None show ?thesis using in_iff by auto
  next
    case (Some rs)
    then have m: "(t, rs) \<in> set (rules router)" by (rule map_of_SomeD)
    have "(t, rs') \<in> set (rules router) \<longleftrightarrow> rs' = rs" for rs'
      using m eq_key_imp_eq_value [OF d m, of rs'] by blast
    then have "r \<in> set rs \<longleftrightarrow> r \<in> set (all_rules router) \<and> rule_topic r = t" for r
      unfolding in_iff by simp
    then have "set rs = {r \<in> set (all_rules router). rule_topic r = t}" by (intro set_eqI) simp
    with Some show ?thesis by simp
  qed
qed

lemma route_eq:
  "route router t p =
     (let try_rules = first_firing (compiled_patterns router) p;
          under = (\<lambda>P. concat (map snd (filter (P \<circ> fst) (rules router))))
      in case try_rules (case map_of (rules router) t of Some rs \<Rightarrow> rs | None \<Rightarrow> []) of
           Some a \<Rightarrow> Some a
         | None \<Rightarrow>
             (case try_rules (under (\<lambda>k. starts_with t (k @ u ''/''))) of
                Some a \<Rightarrow> Some a
              | None \<Rightarrow> try_rules (under (\<lambda>k. ends_with k (u ''*'') \<and> starts_with t (butlast k)))))"
  by (auto simp: route_def Let_def first_firing_def simp del: u_Cons split: option.split)

lemma route_characterised:
  assumes "router_inv router"
  shows "(route router t p = None \<longleftrightarrow>
      \<not> (\<exists>r \<in> set (all_rules router). covers (rule_topic r) t \<and> fires (compiled_patterns router) p r)) \<and>
    (route router t p = Some a \<longrightarrow>
      (\<exists>r \<in> set (all_rules router). covers (rule_topic r) t \<and> fires (compiled_patterns router) p r \<and> action_of r = a \<and>
        ((\<exists>r' \<in> set (all_rules router). rule_topic r' = t \<and> fires (compiled_patterns router) p r') \<longrightarrow> rule_topic r = t)))"
proof -
  let ?c = "compiled_patterns router"
  let ?e = "case map_of (rules router) t of Some rs \<Rightarrow> rs | None \<Rightarrow> []"
  let ?u = "concat (map snd (filter ((\<lambda>k. starts_with t (k @ u ''/'')) \<circ> fst) (rules router)))"
  let ?w = "concat (map snd (filter ((\<lambda>k. ends_with k (u ''*'') \<and> starts_with t (butlast k)) \<circ> fst) (rules router)))"
  note sets = rules_at [OF assms, of t] rules_under [OF assms, of "\<lambda>k. starts_with t (k @ u ''/'')"]
    rules_under [OF assms, of "\<lambda>k. ends_with k (u ''*'') \<and> starts_with t (butlast k)"]
  have eq: "route router t p = (case first_firing ?c p ?e of Some a \<Rightarrow> Some a
      | None \<Rightarrow> (case first_firing ?c p ?u of Some a \<Rightarrow> Some a | None \<Rightarrow> first_firing ?c p ?w))"
    by (simp add: route_eq Let_def del: u_Cons)
  show ?thesis
  proof (cases "first_firing ?c p ?e")
    case (Some b)
    from first_firing_Some [OF this] obtain r where "r \<in> set (all_rules router)" "rule_topic r = t" "fires ?c p r" "action_of r = b"
      unfolding sets(1) by blast
    with Some show ?thesis unfolding eq covers_def by auto
  next
    case None
    then have n: "\<forall>r \<in> set (all_rules router). rule_topic r = t \<longrightarrow> \<not> fires ?c p r"
      unfolding first_firing_None sets(1) by blast
    show ?thesis
    proof (cases "first_firing ?c p ?u")
      case (Some b)
      from first_firing_Some [OF this] obtain r where "r \<in> set (all_rules router)" "starts_with t (rule_topic r @ u ''/'')"
        "fires ?c p r" "action_of r = b" unfolding sets(2) by blast
      with Some None n show ?thesis unfolding eq covers_def by auto
    next
      case none_u: None
      then have nu: "\<forall>r \<in> set (all_rules router). starts_with t (rule_topic r @ u ''/'') \<longrightarrow> \<not> fires ?c p r"
        unfolding first_firing_None sets(2) by blast
      show ?thesis
      proof (cases "first_firing ?c p ?w")
        case (Some b)
        from first_firing_Some [OF this] obtain r where "r \<in> set (all_rules router)"
          "ends_with (rule_topic r) (u ''*'') \<and> starts_with t (butlast (rule_topic r))" "fires ?c p r" "action_of r = b"
          unfolding sets(3) by blast
        with Some None none_u n show ?thesis unfolding eq covers_def by auto
      next
        case none_w: None
        then have "\<forall>r \<in> set (all_rules router). ends_with (rule_topic r) (u ''*'') \<and> starts_with t (butlast (rule_topic r))
            \<longrightarrow> \<not> fires ?c p r"
          unfolding first_firing_None sets(3) by blast
        with None none_u none_w n nu show ?thesis unfolding eq covers_def by auto
      qed
    qed
  qed
qed

lemma route_answers:
  assumes "router_inv router" "route router t p = Some a"
  shows "\<exists>r \<in> set (all_rules router). action_of r = a"
  using route_characterised [OF assms(1), of t p a] assms(2) by blast

section \<open>Properties\<close>

text \<open>
  C20. A reflex answers exactly when it should. A signal is answered by a reflex exactly when some enabled
  rule whose pattern matches the payload is filed under the topic, under a topic above it or under a
  starred prefix; the answer is the action of such a rule, and a rule of the exact topic goes first.
\<close>

theorem route_exact:
  assumes "router_inv router"
  shows "(route router t p = None \<longleftrightarrow>
      \<not> (\<exists>r \<in> set (all_rules router). covers (rule_topic r) t \<and> fires (compiled_patterns router) p r)) \<and>
    (route router t p = Some a \<longrightarrow>
      (\<exists>r \<in> set (all_rules router). covers (rule_topic r) t \<and> fires (compiled_patterns router) p r \<and> action_of r = a \<and>
        ((\<exists>r' \<in> set (all_rules router). rule_topic r' = t \<and> fires (compiled_patterns router) p r') \<longrightarrow> rule_topic r = t)))"
  using assms by (rule route_characterised)

definition any_regex :: "ustr \<Rightarrow> regex option" where
  "any_regex pattern = Some (\<lambda>s. True)"

theorem route_exact_witness:
  "route (with_rules any_regex builtin_reflex_rules) (u ''sensory/eye/read'') (u ''x'') \<noteq> None"
proof -
  have "log_rule (u ''log_file_change'') (u ''sensory/eye'') (u ''debug'')
      \<in> set (all_rules (with_rules any_regex builtin_reflex_rules))"
    "covers (u ''sensory/eye'') (u ''sensory/eye/read'')"
    "fires (compiled_patterns (with_rules any_regex builtin_reflex_rules)) (u ''x'')
       (log_rule (u ''log_file_change'') (u ''sensory/eye'') (u ''debug''))"
    by code_simp+
  then show ?thesis
    using route_exact [OF router_inv_with_rules, of any_regex builtin_reflex_rules "u ''sensory/eye/read''" "u ''x''"]
    by (metis log_rule_def reflex_rule.select_convs(3))
qed

text \<open>
  C19. The level of a learned rule is a function of its results. However the results of the rules are
  interleaved, a proposed rule is still on trial unless its first ten results were all good, is formal
  then, and becomes a plain reflex exactly when its first twenty were all good and its action does not
  change code; it is disabled exactly when it failed twice in a row and is no plain reflex.
\<close>

theorem rule_evolution_exact:
  assumes "router_inv router" "rule_of router i = None" "regex_new pattern \<noteq> None"
    and "h = map snd (filter (\<lambda>(j, s). j = i) results)" "length h < 2 ^ 32"
  shows "\<exists>r. rule_of (foldl (\<lambda>r (j, s). fst (record_result r j s))
        (propose_rule regex_new router i pattern t act params) results) i = Some r \<and>
    rule_level r = (if clean 20 h \<and> \<not> is_code_modification act then L0 else if clean 10 h then L1Formal else L1Trial) \<and>
    (disabled r \<longleftrightarrow> fails_twice h \<and> rule_level r \<noteq> L0) \<and> use_count r = length h"
proof -
  let ?new = "\<lparr>rule_id = i, rule_pattern = pattern, rule_topic = t, rule_level = L1Trial, rule_action = act,
        rule_params = params, rule_source = u ''learned'', use_count = 0, success_count = 0,
        consecutive_fails = 0, disabled = False\<rparr>"
  have "rule_of (propose_rule regex_new router i pattern t act params) i = Some ?new"
    using rule_of_add_rule [of router regex_new ?new] assms(1-3) by (simp add: propose_rule_def del: u_Cons)
  then have r: "rule_of (foldl (\<lambda>r (j, s). fst (record_result r j s))
        (propose_rule regex_new router i pattern t act params) results) i = Some (after_results ?new h)"
    by (simp add: rule_of_results assms(4) del: u_Cons)
  have "fresh_trial ?new" by (simp add: fresh_trial_def)
  from after_results_fresh [OF this assms(5)] show ?thesis
    unfolding r by (simp add: level_after_def del: u_Cons)
qed

theorem rule_evolution_exact_witness:
  "\<exists>r. rule_of (foldl (\<lambda>r (j, s). fst (record_result r j s))
       (propose_rule any_regex reflex_router_new (u ''i'') (u ''p'') (u ''t'') (u ''a'') JNull)
       (replicate 12 (u ''i'', True) @ [(u ''k'', False), (u ''i'', False), (u ''i'', False)])) (u ''i'') = Some r \<and>
     rule_level r = L1Formal \<and> disabled r"
proof -
  let ?rs = "replicate 12 (u ''i'', True) @ [(u ''k'', False), (u ''i'', False), (u ''i'', False)]"
  have h: "map snd (filter (\<lambda>(j, s). j = u ''i'') ?rs) = replicate 12 True @ [False, False]"
    by (simp add: numeral_eq_Suc)
  have s: "\<not> clean 20 (replicate 12 True @ [False, False])" "clean 10 (replicate 12 True @ [False, False])"
    "fails_twice (replicate 12 True @ [False, False])"
    by (simp_all add: clean_def list_all_length fails_twice_def nth_append, rule exI [of _ 12], simp)
  have "rule_of reflex_router_new (u ''i'') = None" by (simp add: rule_of_def all_rules_def reflex_router_new_def)
  from rule_evolution_exact [OF router_inv_new this, of any_regex "u ''p''", OF _ refl, of ?rs "u ''t''" "u ''a''" JNull]
  obtain r where r: "rule_of (foldl (\<lambda>r (j, s). fst (record_result r j s))
       (propose_rule any_regex reflex_router_new (u ''i'') (u ''p'') (u ''t'') (u ''a'') JNull) ?rs) (u ''i'') = Some r"
    "rule_level r = L1Formal" "disabled r \<longleftrightarrow> rule_level r \<noteq> L0"
    unfolding h using s by (auto simp: any_regex_def simp del: u_Cons foldl_append)
  from r(2,3) have "disabled r" by simp
  with r show ?thesis by blast
qed

end
