(* ===== verification/Experience.thy ===== *)
theory Experience
  imports Reflex F64 Text_Slices "HOL-Library.Multiset"
begin

text \<open>
  The experience log of the kernel, \<^verbatim>\<open>crates/codegen/ccore/src/kernel/experience.rs\<close>, and the learning
  step of the event loop (\<^verbatim>\<open>experience_timer\<close> in \<^verbatim>\<open>run\<close> of \<^verbatim>\<open>kernel/mod.rs\<close>), which turns what was
  often done with success into reflex rules. The order in which the hash map of groups is walked is
  the parameter \<open>order\<close>; the printer of a double and the escaping of a pattern are parameters.
\<close>

section \<open>The log\<close>

record experience_entry =
  ee_timestamp :: int
  ee_signal :: ustr
  ee_signal_topic :: ustr
  ee_level :: reflex_level
  ee_action :: ustr
  ee_result :: bool
  ee_context :: json

record proposed_rule =
  pr_signal_topic :: ustr
  pattern_hint :: ustr
  pr_action :: ustr
  success_rate :: rat
  sample_count :: nat

record experience_log =
  log_entries :: "experience_entry list"
  log_max_entries :: nat

definition experience_log_new :: experience_log where
  "experience_log_new = \<lparr>log_entries = [], log_max_entries = 1000\<rparr>"

text \<open>The bound is 1000, so the entry that \<^verbatim>\<open>remove(0)\<close> takes away is there.\<close>

definition log_record :: "experience_log \<Rightarrow> experience_entry \<Rightarrow> experience_log" where
  "log_record lg e =
     lg\<lparr>log_entries := (if log_max_entries lg \<le> length (log_entries lg) then tl (log_entries lg)
                         else log_entries lg) @ [e]\<rparr>"

definition recent_entries :: "experience_log \<Rightarrow> nat \<Rightarrow> experience_entry list" where
  "recent_entries lg n = take n (rev (log_entries lg))"

definition entries_for_topic :: "experience_log \<Rightarrow> ustr \<Rightarrow> experience_entry list" where
  "entries_for_topic lg t = filter (\<lambda>e. ee_signal_topic e = t) (log_entries lg)"

definition recent_outcome_summary :: "experience_log \<Rightarrow> ustr" where
  "recent_outcome_summary lg =
     join_with (u '','') (map (\<lambda>e. if ee_result e then u ''success'' else u ''failure'') (take 5 (rev (log_entries lg))))"

definition log_clear :: "experience_log \<Rightarrow> experience_log" where
  "log_clear lg = lg\<lparr>log_entries := []\<rparr>"

section \<open>Patterns\<close>

definition entry_key :: "experience_entry \<Rightarrow> ustr \<times> ustr" where
  "entry_key e = (ee_signal_topic e, ee_action e)"

definition group_entries :: "experience_entry list \<Rightarrow> ((ustr \<times> ustr) \<times> experience_entry list) list" where
  "group_entries es = foldl (\<lambda>groups e. entry_push (entry_key e) e groups) [] es"

definition propose_group :: "(ustr \<times> ustr) \<times> experience_entry list \<Rightarrow> proposed_rule option" where
  "propose_group g =
     (let ((t, act), es) = g; total = length es; good = filter ee_result es
      in if 3 \<le> length good \<and> 3 \<le> total then
           Some \<lparr>pr_signal_topic = t,
                 pattern_hint = (case good of e # _ \<Rightarrow> take 50 (ee_signal e) | [] \<Rightarrow> []),
                 pr_action = act, success_rate = f64_div (length good) total, sample_count = total\<rparr>
         else None)"

type_synonym group_order =
  "((ustr \<times> ustr) \<times> experience_entry list) list \<Rightarrow> ((ustr \<times> ustr) \<times> experience_entry list) list"

definition extract_patterns :: "group_order \<Rightarrow> experience_log \<Rightarrow> proposed_rule list" where
  "extract_patterns order lg =
     sort_key (\<lambda>p. - success_rate p) (List.map_filter propose_group (order (group_entries (log_entries lg))))"

section \<open>Learning\<close>

definition learned_rule :: "(ustr \<Rightarrow> ustr) \<Rightarrow> (rat \<Rightarrow> ustr) \<Rightarrow> proposed_rule \<Rightarrow> reflex_rule" where
  "learned_rule escape number p =
     (let flat = map (\<lambda>c. if c = 47 then 95 else c)
      in \<lparr>rule_id = u ''learned_'' @ flat (pr_signal_topic p) @ u ''_'' @ flat (pr_action p),
          rule_pattern = u ''(?i)'' @ escape (pattern_hint p), rule_topic = pr_signal_topic p,
          rule_level = L1Trial, rule_action = pr_action p,
          rule_params = JObject [(u ''source'', JString (u ''experience'')),
            (u ''success_rate'', JNumber (number (success_rate p))),
            (u ''sample_count'', JNumber (dec (sample_count p)))],
          rule_source = u ''experience'', use_count = 0, success_count = 0, consecutive_fails = 0,
          disabled = False\<rparr>)"

definition learn_tick :: "(ustr \<Rightarrow> regex option) \<Rightarrow> (ustr \<Rightarrow> ustr) \<Rightarrow> (rat \<Rightarrow> ustr) \<Rightarrow> group_order
    \<Rightarrow> experience_log \<Rightarrow> reflex_router \<Rightarrow> reflex_router" where
  "learn_tick regex_new escape number order lg router =
     foldl (add_rule regex_new) router
       (map (learned_rule escape number)
         (filter (\<lambda>p. \<not> is_code_modification (pr_action p)) (extract_patterns order lg)))"

section \<open>The log keeps the last entries\<close>

lemma log_record_keeps [simp]: "log_max_entries (log_record lg e) = log_max_entries lg"
  by (simp add: log_record_def)

lemma foldl_log_record:
  assumes "0 < log_max_entries lg" "length (log_entries lg) \<le> log_max_entries lg"
  shows "log_entries (foldl log_record lg es) =
    drop (length (log_entries lg @ es) - log_max_entries lg) (log_entries lg @ es)"
  using assms
proof (induction es arbitrary: lg)
  case (Cons e es)
  let ?l = "log_record lg e"
  have e: "log_entries ?l = drop (length (log_entries lg @ [e]) - log_max_entries lg) (log_entries lg @ [e])"
  proof (cases "log_max_entries lg \<le> length (log_entries lg)")
    case True
    then have "length (log_entries lg) = log_max_entries lg" using Cons.prems by simp
    then show ?thesis using Cons.prems by (cases "log_entries lg") (auto simp: log_record_def)
  qed (simp add: log_record_def)
  then have "length (log_entries ?l) \<le> log_max_entries ?l" by simp
  from Cons.IH [OF _ this] Cons.prems(1) show ?case
    by (auto simp: e intro!: arg_cong [where f = "\<lambda>n. drop n (log_entries lg)"])
qed simp

section \<open>What is proposed\<close>

lemma map_of_entry_push:
  "map_of (entry_push k v al) k' =
     (if k' = k then Some ((case map_of al k of Some vs \<Rightarrow> vs | None \<Rightarrow> []) @ [v]) else map_of al k')"
  by (simp add: entry_push_def update_conv')

lemma group_entries_snoc: "group_entries (es @ [e]) = entry_push (entry_key e) e (group_entries es)"
  by (simp add: group_entries_def)

lemma distinct_group_entries: "distinct (map fst (group_entries es))"
  by (induction es rule: rev_induct) (simp_all add: group_entries_snoc distinct_entry_push, simp add: group_entries_def)

lemma map_of_group_entries:
  "map_of (group_entries es) k =
     (let g = filter (\<lambda>e. entry_key e = k) es in if g = [] then None else Some g)"
proof (induction es rule: rev_induct)
  case Nil
  then show ?case by (simp add: group_entries_def)
next
  case (snoc e es)
  then show ?case by (auto simp: group_entries_snoc map_of_entry_push Let_def)
qed

lemma in_group_entries:
  "(k, g) \<in> set (group_entries es) \<longleftrightarrow> g = filter (\<lambda>e. entry_key e = k) es \<and> g \<noteq> []"
proof -
  have "(k, g) \<in> set (group_entries es) \<longleftrightarrow> map_of (group_entries es) k = Some g"
    using distinct_group_entries by simp
  then show ?thesis unfolding map_of_group_entries Let_def by (auto split: if_splits)
qed


lemma propose_group_Some:
  "propose_group ((t, act), es) = Some p \<longleftrightarrow>
     3 \<le> length (filter ee_result es) \<and>
     p = \<lparr>pr_signal_topic = t, pattern_hint = take 50 (ee_signal (hd (filter ee_result es))), pr_action = act,
          success_rate = f64_div (length (filter ee_result es)) (length es), sample_count = length es\<rparr>"
proof -
  have "length (filter ee_result es) \<le> length es" by (rule length_filter_le)
  then show ?thesis
    by (cases "filter ee_result es") (auto simp: propose_group_def Let_def)
qed

lemma propose_group_nonempty: "propose_group (k, es) = Some p \<Longrightarrow> es \<noteq> []"
  by (cases k) (auto simp: propose_group_def)

lemma pairs_of_patterns:
  assumes "mset (order (group_entries (log_entries lg))) = mset (group_entries (log_entries lg))"
  shows "mset (map (\<lambda>p. (pr_signal_topic p, pr_action p)) (extract_patterns order lg)) =
    mset (map fst (filter (\<lambda>(k, es). 3 \<le> length (filter ee_result es)) (group_entries (log_entries lg))))"
proof -
  have one: "map (\<lambda>p. (pr_signal_topic p, pr_action p)) (List.map_filter propose_group gs) =
      map fst (filter (\<lambda>(k, es). 3 \<le> length (filter ee_result es)) gs)" for gs
  proof (induction gs)
    case (Cons g gs)
    obtain t act es where g: "g = ((t, act), es)" by (metis prod.collapse)
    show ?case
    proof (cases "propose_group g")
      case None
      then show ?thesis using Cons propose_group_Some [of t act es] by (auto simp: g List.map_filter_simps)
    next
      case (Some p)
      then show ?thesis using Cons propose_group_Some [of t act es p] by (auto simp: g List.map_filter_simps)
    qed
  qed (simp add: List.map_filter_simps)
  show ?thesis
    unfolding extract_patterns_def mset_map mset_sort
    unfolding mset_map [symmetric] one mset_map mset_filter assms ..
qed

lemma in_patterns:
  assumes "mset (order (group_entries (log_entries lg))) = mset (group_entries (log_entries lg))"
  shows "p \<in> set (extract_patterns order lg) \<longleftrightarrow>
    (\<exists>es. es = filter (\<lambda>e. entry_key e = (pr_signal_topic p, pr_action p)) (log_entries lg) \<and>
       3 \<le> length (filter ee_result es) \<and> pattern_hint p = take 50 (ee_signal (hd (filter ee_result es))) \<and>
       success_rate p = f64_div (length (filter ee_result es)) (length es) \<and> sample_count p = length es)"
proof -
  have "set (order (group_entries (log_entries lg))) = set (group_entries (log_entries lg))"
    using assms mset_eq_setD by blast
  then have "p \<in> set (extract_patterns order lg) \<longleftrightarrow>
      (\<exists>k es. (k, es) \<in> set (group_entries (log_entries lg)) \<and> propose_group (k, es) = Some p)"
    by (force simp: extract_patterns_def List.map_filter_def image_iff)
  also have "\<dots> \<longleftrightarrow> (\<exists>t act es. es = filter (\<lambda>e. entry_key e = (t, act)) (log_entries lg) \<and>
      propose_group ((t, act), es) = Some p)" by (auto simp: in_group_entries dest: propose_group_nonempty)
  also have "\<dots> \<longleftrightarrow> (\<exists>es. es = filter (\<lambda>e. entry_key e = (pr_signal_topic p, pr_action p)) (log_entries lg) \<and>
       3 \<le> length (filter ee_result es) \<and> pattern_hint p = take 50 (ee_signal (hd (filter ee_result es))) \<and>
       success_rate p = f64_div (length (filter ee_result es)) (length es) \<and> sample_count p = length es)"
    unfolding propose_group_Some by (cases p) auto
  finally show ?thesis .
qed


section \<open>What is learned\<close>

text \<open>The pairs of topic and action that succeeded three times and do not change code.\<close>

definition learnable :: "experience_log \<Rightarrow> (ustr \<times> ustr) set" where
  "learnable lg = {(t, act). 3 \<le> length (filter (\<lambda>e. ee_signal_topic e = t \<and> ee_action e = act \<and> ee_result e) (log_entries lg)) \<and>
     \<not> is_code_modification act}"

lemma filter_entry_key:
  "filter ee_result (filter (\<lambda>e. entry_key e = (t, act)) es) =
     filter (\<lambda>e. ee_signal_topic e = t \<and> ee_action e = act \<and> ee_result e) es"
  by (induction es) (auto simp: entry_key_def)

lemma number_of_patterns:
  assumes "mset (order (group_entries (log_entries lg))) = mset (group_entries (log_entries lg))"
  shows "length (filter (\<lambda>p. \<not> is_code_modification (pr_action p)) (extract_patterns order lg)) = card (learnable lg)"
proof -
  let ?ps = "extract_patterns order lg" and ?pair = "\<lambda>p. (pr_signal_topic p, pr_action p)"
  let ?gs = "filter (\<lambda>(k, es). 3 \<le> length (filter ee_result es)) (group_entries (log_entries lg))"
  let ?ok = "\<lambda>k. \<not> is_code_modification (snd k)"
  have "length (filter (\<lambda>p. \<not> is_code_modification (pr_action p)) ?ps) = length (filter ?ok (map ?pair ?ps))"
    by (simp add: filter_map comp_def)
  also have "\<dots> = size (filter_mset ?ok (mset (map ?pair ?ps)))" by (simp only: mset_filter [symmetric] size_mset)
  also have "\<dots> = length (filter ?ok (map fst ?gs))"
    unfolding pairs_of_patterns [of order, OF assms] by (simp only: mset_filter [symmetric] size_mset)
  also have "\<dots> = card (set (filter ?ok (map fst ?gs)))"
  proof -
    have "distinct (map fst ?gs)" using distinct_group_entries by (rule distinct_map_filter)
    from distinct_card [OF distinct_filter [OF this, of ?ok]] show ?thesis by (simp only:)
  qed
  also have "set (filter ?ok (map fst ?gs)) = learnable lg"
  proof (rule set_eqI)
    fix k :: "ustr \<times> ustr"
    obtain t act where k: "k = (t, act)" by (cases k)
    have "k \<in> set (filter ?ok (map fst ?gs)) \<longleftrightarrow>
        (\<exists>es. (k, es) \<in> set (group_entries (log_entries lg)) \<and> 3 \<le> length (filter ee_result es)) \<and> ?ok k" by force
    also have "\<dots> \<longleftrightarrow> 3 \<le> length (filter ee_result (filter (\<lambda>e. entry_key e = k) (log_entries lg))) \<and> ?ok k"
      unfolding in_group_entries by (auto simp del: filter_filter)
    also have "\<dots> \<longleftrightarrow> k \<in> learnable lg" unfolding k filter_entry_key by (simp add: learnable_def)
    finally show "k \<in> set (filter ?ok (map fst ?gs)) \<longleftrightarrow> k \<in> learnable lg" .
  qed
  finally show ?thesis .
qed

lemma finite_learnable: "finite (learnable lg)"
proof (rule finite_subset)
  show "learnable lg \<subseteq> entry_key ` set (log_entries lg)"
  proof
    fix k assume "k \<in> learnable lg"
    then obtain t act where k: "k = (t, act)"
      "3 \<le> length (filter (\<lambda>e. ee_signal_topic e = t \<and> ee_action e = act \<and> ee_result e) (log_entries lg))"
      by (auto simp: learnable_def)
    then have "filter (\<lambda>e. ee_signal_topic e = t \<and> ee_action e = act \<and> ee_result e) (log_entries lg) \<noteq> []" by auto
    then show "k \<in> entry_key ` set (log_entries lg)" by (auto simp: k(1) filter_empty_conv entry_key_def image_iff)
  qed
qed simp

lemma learn_tick_add:
  assumes "\<And>s. regex_new (u ''(?i)'' @ escape s) \<noteq> None"
  shows "length (all_rules (learn_tick regex_new escape number order lg router)) =
    length (all_rules router) + length (filter (\<lambda>p. \<not> is_code_modification (pr_action p)) (extract_patterns order lg))"
proof -
  have "length (all_rules (foldl (add_rule regex_new) r (map (learned_rule escape number) ps))) =
      length (all_rules r) + length ps" for r ps
    using assms
    by (induction ps arbitrary: r) (simp_all add: length_all_rules_add_rule learned_rule_def Let_def del: u_Cons)
  then show ?thesis by (simp add: learn_tick_def)
qed

lemma router_inv_foldl_add:
  "router_inv router \<Longrightarrow> router_inv (foldl (add_rule regex_new) router rs)"
  by (induction rs arbitrary: router) (simp_all add: router_inv_add_rule)

lemma router_inv_learn_tick:
  "router_inv router \<Longrightarrow> router_inv (learn_tick regex_new escape number order lg router)"
  by (simp add: learn_tick_def router_inv_foldl_add)

lemma rules_after_adding:
  assumes "router_inv router"
  shows "set (all_rules (foldl (add_rule regex_new) router rs)) =
    set (all_rules router) \<union> {r \<in> set rs. regex_new (rule_pattern r) \<noteq> None}"
  using assms
proof (induction rs arbitrary: router)
  case (Cons r rs)
  from Cons.IH [OF router_inv_add_rule [OF Cons.prems, of regex_new r]] show ?case
    by (auto simp: set_all_rules_add_rule [OF Cons.prems])
qed simp


lemma learning_keeps:
  assumes "router_inv router" "mset (order (group_entries (log_entries lg))) = mset (group_entries (log_entries lg))"
    and "r \<in> set (all_rules (learn_tick regex_new escape number order lg router))"
  shows "r \<in> set (all_rules router) \<or>
    rule_level r = L1Trial \<and> \<not> disabled r \<and> (rule_topic r, rule_action r) \<in> learnable lg"
proof -
  have "r \<in> set (all_rules router) \<or> (\<exists>p \<in> set (extract_patterns order lg). \<not> is_code_modification (pr_action p) \<and>
      r = learned_rule escape number p)"
    using assms(3) by (auto simp: learn_tick_def rules_after_adding [OF assms(1)])
  then show ?thesis
  proof
    assume "\<exists>p \<in> set (extract_patterns order lg). \<not> is_code_modification (pr_action p) \<and> r = learned_rule escape number p"
    then obtain p where p: "p \<in> set (extract_patterns order lg)" "\<not> is_code_modification (pr_action p)"
      "r = learned_rule escape number p" by blast
    then have "(pr_signal_topic p, pr_action p) \<in> learnable lg"
      using in_patterns [of order, OF assms(2)] by (auto simp: learnable_def filter_entry_key simp del: filter_filter)
    then show ?thesis by (simp add: p(3) learned_rule_def Let_def del: u_Cons)
  qed simp
qed

section \<open>Properties\<close>

definition seen :: "ustr \<Rightarrow> experience_entry" where
  "seen t = \<lparr>ee_timestamp = 0, ee_signal = u ''x'', ee_signal_topic = t, ee_level = L0,
     ee_action = u ''sensory_received'', ee_result = True, ee_context = JNull\<rparr>"

definition three_seen :: experience_log where
  "three_seen = foldl log_record experience_log_new [seen (u ''sensory/ear''), seen (u ''sensory/ear''), seen (u ''sensory/ear'')]"

lemma three_seen_learnable: "(u ''sensory/ear'', u ''sensory_received'') \<in> learnable three_seen"
  by (simp add: learnable_def three_seen_def log_record_def experience_log_new_def seen_def is_code_modification_def)

text \<open>
  What is learned is on trial and backed by the log. Whatever order the groups are visited in, every
  rule in the router after a learning step was there before or is on trial, does not change code, and
  its action succeeded at least three times for its topic among the logged entries.
\<close>

theorem learning_is_cautious:
  assumes "router_inv router" "mset (order (group_entries (log_entries lg))) = mset (group_entries (log_entries lg))"
    and "r \<in> set (all_rules (learn_tick regex_new escape number order lg router))"
  shows "r \<in> set (all_rules router) \<or>
    rule_level r = L1Trial \<and> \<not> disabled r \<and> (rule_topic r, rule_action r) \<in> learnable lg"
  using assms by (rule learning_keeps)

theorem learning_is_cautious_witness:
  "rule_level (learned_rule id (\<lambda>q. []) (hd (extract_patterns id three_seen))) = L1Trial \<and>
   (\<exists>r \<in> set (all_rules (learn_tick any_regex id (\<lambda>q. []) id three_seen reflex_router_new)).
      (rule_topic r, rule_action r) \<in> learnable three_seen)"
proof -
  let ?t = "learn_tick any_regex id (\<lambda>q. []) id three_seen reflex_router_new"
  have "card (learnable three_seen) \<noteq> 0" using three_seen_learnable finite_learnable by auto
  moreover have "length (filter (\<lambda>p. \<not> is_code_modification (pr_action p)) (extract_patterns id three_seen)) =
      card (learnable three_seen)" by (rule number_of_patterns) simp
  ultimately have "length (all_rules ?t) \<noteq> 0"
    using learn_tick_add [of any_regex id "\<lambda>q. []" id three_seen reflex_router_new] by (simp add: any_regex_def)
  then obtain r where r: "r \<in> set (all_rules ?t)" by (cases "all_rules ?t") auto
  have "mset (id (group_entries (log_entries three_seen))) = mset (group_entries (log_entries three_seen))" by simp
  from learning_is_cautious [OF router_inv_new this r]
  have "(rule_topic r, rule_action r) \<in> learnable three_seen" by (simp add: all_rules_def reflex_router_new_def)
  with r show ?thesis by (auto simp: learned_rule_def Let_def)
qed

text \<open>
  Learning repeats itself without end. The learning step does not look at the rules that are there: each run
  over the same log, in whatever order the groups are visited, adds one more rule for every learnable pair,
  so \<open>n\<close> runs leave \<open>n\<close> copies of each.
\<close>

theorem learning_repeats:
  assumes "\<And>s. regex_new (u ''(?i)'' @ escape s) \<noteq> None"
    and "\<And>ord. ord \<in> set ords \<Longrightarrow> mset (ord (group_entries (log_entries lg))) = mset (group_entries (log_entries lg))"
  shows "length (all_rules (foldl (\<lambda>r ord. learn_tick regex_new escape number ord lg r) router ords)) =
    length (all_rules router) + length ords * card (learnable lg)"
  using assms(2)
proof (induction ords arbitrary: router)
  case (Cons ord ords)
  have "length (filter (\<lambda>p. \<not> is_code_modification (pr_action p)) (extract_patterns ord lg)) = card (learnable lg)"
    by (rule number_of_patterns) (rule Cons.prems, simp)
  then show ?case
    using Cons learn_tick_add [of regex_new escape number ord lg router, OF assms(1)] by simp
qed simp

theorem learning_repeats_witness:
  "length (all_rules (foldl (\<lambda>r ord. learn_tick any_regex id (\<lambda>q. []) ord three_seen r) reflex_router_new [id, rev])) =
     2 * card (learnable three_seen)"
proof -
  have "length (all_rules (foldl (\<lambda>r ord. learn_tick any_regex id (\<lambda>q. []) ord three_seen r) reflex_router_new [id, rev])) =
      length (all_rules reflex_router_new) + length [id, rev :: group_order] * card (learnable three_seen)"
    by (rule learning_repeats) (auto simp: any_regex_def)
  then show ?thesis by (simp add: all_rules_def reflex_router_new_def)
qed

end
