(* ===== verification/Param_Server.thy ===== *)
theory Param_Server
  imports UString F64 Key_Store "HOL-Library.AList"
begin

text \<open>
  The parameter server of the kernel, \<^verbatim>\<open>crates/codegen/ccore/src/message/param.rs\<close>: a store of values by
  name with a search by name patterns in which a star stands for one path segment.
\<close>

datatype param_value =
    PInteger int
  | PFloat f64
  | PBoolean bool
  | PString ustr
  | PArray "param_value list"
  | PMap "(ustr \<times> param_value) list"
  | PNull

record param_server =
  params :: "(ustr \<times> param_value) list"

definition param_server_new :: param_server where
  "param_server_new = \<lparr>params = []\<rparr>"

definition ps_set :: "param_server \<Rightarrow> ustr \<Rightarrow> param_value \<Rightarrow> param_server" where
  "ps_set s key value = s\<lparr>params := AList.update key value (params s)\<rparr>"

definition ps_get :: "param_server \<Rightarrow> ustr \<Rightarrow> param_value option" where
  "ps_get s key = map_of (params s) key"

definition ps_delete :: "param_server \<Rightarrow> ustr \<Rightarrow> param_server \<times> param_value option" where
  "ps_delete s key = (s\<lparr>params := AList.delete key (params s)\<rparr>, map_of (params s) key)"

definition ps_has :: "param_server \<Rightarrow> ustr \<Rightarrow> bool" where
  "ps_has s key \<longleftrightarrow> map_of (params s) key \<noteq> None"

definition ps_list_prefix :: "param_server \<Rightarrow> ustr \<Rightarrow> ustr list" where
  "ps_list_prefix s prefix = filter (\<lambda>k. starts_with k prefix) (map fst (params s))"

definition name_matches :: "ustr \<Rightarrow> ustr \<Rightarrow> bool" where
  "name_matches pattern k =
     (let pattern_parts = split_on 47 pattern; key_parts = split_on 47 k
      in length pattern_parts = length key_parts \<and>
         list_all (\<lambda>(p, k). \<not> (p \<noteq> u ''*'' \<and> p \<noteq> k)) (zip pattern_parts key_parts))"

definition ps_search :: "param_server \<Rightarrow> ustr \<Rightarrow> (ustr \<times> param_value) list" where
  "ps_search s pattern =
     (if 42 \<in> set pattern then filter (\<lambda>(k, v). name_matches pattern k) (params s)
      else case map_of (params s) pattern of Some v \<Rightarrow> [(pattern, v)] | None \<Rightarrow> [])"

section \<open>The store is a map\<close>

definition params_inv :: "param_server \<Rightarrow> bool" where
  "params_inv s \<longleftrightarrow> distinct (map fst (params s))"

interpretation pst: key_store params_inv ps_get ps_set "\<lambda>s k. fst (ps_delete s k)"
  by unfold_locales
    (simp_all add: params_inv_def ps_get_def [abs_def] ps_set_def ps_delete_def distinct_update distinct_delete
      update_conv' delete_conv')

abbreviation param_step :: "param_server \<Rightarrow> (ustr, param_value) store_op \<Rightarrow> param_server" where
  "param_step \<equiv> store_step ps_set (\<lambda>s k. fst (ps_delete s k))"

lemma split_on_inject: "split_on d s = split_on d t \<longleftrightarrow> s = t"
  by (metis join_split_on)

lemma split_on_subset: "w \<in> set (split_on d s) \<Longrightarrow> set w \<subseteq> set s"
proof (induction s arbitrary: w)
  case (Cons c s)
  then show ?case by (cases "split_on d s") (fastforce split: if_splits)+
qed simp

lemma zip_no_star:
  "length ps = length ks \<Longrightarrow> \<forall>p \<in> set ps. p \<noteq> star \<Longrightarrow>
     list_all (\<lambda>(p, k). \<not> (p \<noteq> star \<and> p \<noteq> k)) (zip ps ks) \<longleftrightarrow> ps = ks"
  by (induction ps ks rule: list_induct2) auto

lemma name_matches_plain:
  assumes "42 \<notin> set pattern"
  shows "name_matches pattern k \<longleftrightarrow> k = pattern"
proof -
  have "\<forall>w \<in> set (split_on 47 pattern). w \<noteq> u ''*''" using split_on_subset assms by fastforce
  from zip_no_star [OF _ this, of "split_on 47 k"] show ?thesis
    by (auto simp: name_matches_def Let_def split_on_inject simp del: u_Cons)
qed

section \<open>Properties\<close>

text \<open>
  C36. The parameter server is a map with an exact search. After any sequence of settings and deletions a
  query returns what a map under the same operations holds, and a search returns each name and value
  exactly once for which the name has as many segments as the pattern and agrees with it in all segments
  that are no star.
\<close>

theorem param_search_exact:
  "ps_get (foldl param_step param_server_new ops) = foldl store_spec Map.empty ops \<and>
   distinct (map fst (ps_search (foldl param_step param_server_new ops) pattern)) \<and>
   ((k, v) \<in> set (ps_search (foldl param_step param_server_new ops) pattern) \<longleftrightarrow>
      foldl store_spec Map.empty ops k = Some v \<and>
      list_all2 (\<lambda>p s. p = u ''*'' \<or> p = s) (split_on 47 pattern) (split_on 47 k))"
proof -
  let ?s = "foldl param_step param_server_new ops" and ?m = "foldl store_spec Map.empty ops"
  have "params_inv param_server_new" by (simp add: params_inv_def param_server_new_def)
  from pst.run_refines [OF this, of ops] have inv: "distinct (map fst (params ?s))" and get: "ps_get ?s = ?m"
    by (simp_all add: params_inv_def) (simp add: ps_get_def [abs_def] param_server_new_def)
  have nm: "name_matches pattern k \<longleftrightarrow> list_all2 (\<lambda>p s. p = u ''*'' \<or> p = s) (split_on 47 pattern) (split_on 47 k)"
    by (auto simp: name_matches_def Let_def list_all_length list_all2_conv_all_nth simp del: u_Cons)
  have "distinct (map fst (ps_search ?s pattern))"
    using inv by (auto simp: ps_search_def distinct_map_filter split: option.split)
  moreover have "(k, v) \<in> set (ps_search ?s pattern) \<longleftrightarrow> ?m k = Some v \<and> name_matches pattern k"
    unfolding get [symmetric] ps_get_def ps_search_def
    using inv by (auto simp: name_matches_plain split: option.split)
  ultimately show ?thesis using get unfolding nm by blast
qed

end
