(* ===== verification/Token_Budget.thy ===== *)
theory Token_Budget
  imports UString F64 "HOL-Library.AList" "HOL-Library.Multiset"
begin

text \<open>
  The token budget of the kernel, \<^verbatim>\<open>crates/codegen/ccore/src/sampler/token_budget.rs\<close>. The table of windows is
  kept in the order in which the hash map is walked. A count is rounded to a double first; a count times a constant is rounded to a double as
  the quotient of two integers, since a constant is an integer over a power of two; the conversion back
  to an integer truncates. Sizes are 64-bit, and the signed distance to the threshold wraps.
\<close>

section \<open>Model windows\<close>

definition MODEL_CONTEXT_WINDOWS :: "(ustr \<times> nat) list" where
  "MODEL_CONTEXT_WINDOWS =
     [(u ''claude-3.5-sonnet'', 200000), (u ''claude-3-opus'', 200000), (u ''claude-3-haiku'', 200000),
      (u ''gpt-4o'', 128000), (u ''gpt-4-turbo'', 128000), (u ''gpt-4'', 8192), (u ''gpt-3.5-turbo'', 16385),
      (u ''deepseek-chat'', 64000), (u ''deepseek-coder'', 16384)]"

record token_budget_manager =
  tb_model :: ustr
  context_window :: nat
  tokens_used :: nat
  system_prompt_tokens :: nat
  tool_definition_tokens :: nat
  model_windows :: "(ustr \<times> nat) list"

definition resolve_context_window :: "(ustr \<times> nat) list \<Rightarrow> ustr \<Rightarrow> nat" where
  "resolve_context_window windows model =
     (case map_of windows model of
        Some w \<Rightarrow> w
      | None \<Rightarrow> (case find (\<lambda>(name, w). starts_with model name) windows of Some (name, w) \<Rightarrow> w | None \<Rightarrow> 128000))"

definition token_budget_new :: "(ustr \<times> nat) list \<Rightarrow> ustr \<Rightarrow> token_budget_manager" where
  "token_budget_new windows model =
     \<lparr>tb_model = model, context_window = resolve_context_window windows model, tokens_used = 0,
      system_prompt_tokens = 0, tool_definition_tokens = 0, model_windows = windows\<rparr>"

definition switch_model :: "token_budget_manager \<Rightarrow> ustr \<Rightarrow> token_budget_manager" where
  "switch_model b model =
     b\<lparr>tb_model := model, context_window := resolve_context_window (model_windows b) model\<rparr>"

section \<open>Status\<close>

definition as_f64 :: "nat \<Rightarrow> nat" where
  "as_f64 n = nat \<lfloor>f64_div n 1\<rfloor>"

definition as_i64 :: "int \<Rightarrow> int" where
  "as_i64 i = (i + 2 ^ 63) mod 2 ^ 64 - 2 ^ 63"

text \<open>The doubles 0.1 and 0.8 are 3602879701896397 over the 55th and the 52nd power of two.\<close>

definition f64_scale :: "nat \<Rightarrow> nat \<Rightarrow> nat" where
  "f64_scale n k = nat \<lfloor>f64_div (as_f64 n * 3602879701896397) (2 ^ k)\<rfloor>"

record budget_status =
  bs_context_window :: nat
  bs_tokens_used :: nat
  tokens_available :: nat
  bs_usage_ratio :: rat
  bs_should_compact :: bool
  tokens_until_compact :: int

definition tb_status :: "token_budget_manager \<Rightarrow> budget_status" where
  "tb_status b =
     (let reserved = f64_scale (context_window b) 55;
          available = context_window b - reserved;
          compact_threshold = f64_scale available 52
      in \<lparr>bs_context_window = context_window b, bs_tokens_used = tokens_used b,
          tokens_available = available - tokens_used b,
          bs_usage_ratio = (if 0 < available then f64_div (as_f64 (tokens_used b)) (as_f64 available) else 1),
          bs_should_compact = (compact_threshold \<le> tokens_used b),
          tokens_until_compact = as_i64 (as_i64 (int compact_threshold) - as_i64 (int (tokens_used b)))\<rparr>)"

definition record_usage :: "token_budget_manager \<Rightarrow> nat \<Rightarrow> nat \<Rightarrow> token_budget_manager" where
  "record_usage b input_tokens output_tokens =
     b\<lparr>tokens_used := (tokens_used b + (input_tokens + output_tokens) mod 2 ^ 64) mod 2 ^ 64\<rparr>"

definition reset_after_compact :: "token_budget_manager \<Rightarrow> nat \<Rightarrow> token_budget_manager" where
  "reset_after_compact b new_usage = b\<lparr>tokens_used := new_usage\<rparr>"

definition can_fit :: "token_budget_manager \<Rightarrow> nat \<Rightarrow> bool" where
  "can_fit b additional_tokens \<longleftrightarrow> additional_tokens \<le> tokens_available (tb_status b)"

definition remaining_capacity :: "token_budget_manager \<Rightarrow> nat" where
  "remaining_capacity b = tokens_available (tb_status b)"

definition is_cjk :: "nat \<Rightarrow> bool" where
  "is_cjk c \<longleftrightarrow> (19968 \<le> c \<and> c \<le> 40959) \<or> (13312 \<le> c \<and> c \<le> 19903) \<or> (63744 \<le> c \<and> c \<le> 64255)"

definition rough_tokens :: "ustr \<Rightarrow> nat" where
  "rough_tokens text =
     (let cjk_count = length (filter is_cjk text); ascii_count = length text - cjk_count
      in nat \<lceil>f64_div (2 * as_f64 cjk_count) 3\<rceil> + nat \<lceil>f64_div (as_f64 ascii_count) 4\<rceil>)"

section \<open>Truncated products\<close>

lemma f64_floor:
  assumes "0 < b" "16 * q + 15 < 2 ^ 53" "q * b \<le> a" "16 * a \<le> (16 * q + 15) * b"
  shows "nat \<lfloor>f64_div a b\<rfloor> = q"
proof -
  have "of_nat q * of_nat b \<le> (of_nat a :: rat)" using assms(3) by (metis of_nat_le_iff of_nat_mult)
  moreover have "f64_repr (of_nat q)" using f64_repr_nat_power [of q 0] assms(2) by simp
  ultimately have lo: "of_nat q \<le> f64_div a b" using assms(1) by (intro f64_div_ge)
  define t :: rat where "t = of_nat (16 * q + 15) * 2 powi (- 4)"
  have t: "t = of_nat q + 15 / 16" by (simp add: t_def power_int_minus field_simps)
  have "(of_nat (16 * a) :: rat) \<le> of_nat ((16 * q + 15) * b)" using assms(4) of_nat_le_iff by blast
  then have "of_nat a \<le> t * of_nat b" by (simp add: t field_simps)
  moreover have "f64_repr t" unfolding t_def using assms(2) by (intro f64_repr_nat_power)
  ultimately have "f64_div a b \<le> t" using assms(1) by (intro f64_div_le) (auto simp: t)
  then have "f64_div a b < of_nat q + 1" by (simp add: t)
  with lo have "\<lfloor>f64_div a b\<rfloor> = int q" by (simp add: floor_eq_iff)
  then show ?thesis by simp
qed

lemma as_f64_small: "n < 2 ^ 48 \<Longrightarrow> as_f64 n = n"
  unfolding as_f64_def by (rule f64_floor) simp_all

lemma tenth:
  assumes "n < 2 ^ 48"
  shows "f64_scale n 55 = n div 10"
proof -
  have n: "n = 10 * (n div 10) + n mod 10" "n mod 10 \<le> 9" "n div 10 \<le> 2 ^ 48" using assms by auto
  show ?thesis unfolding f64_scale_def as_f64_small [OF assms]
  proof (rule f64_floor)
    show "n div 10 * 2 ^ 55 \<le> n * 3602879701896397" using n by simp
    show "16 * (n * 3602879701896397) \<le> (16 * (n div 10) + 15) * 2 ^ 55" using n by simp
  qed (use n in simp_all)
qed

lemma four_fifths:
  assumes "n < 2 ^ 48"
  shows "f64_scale n 52 = 4 * n div 5"
proof -
  have n: "4 * n = 5 * (4 * n div 5) + 4 * n mod 5" "4 * n mod 5 \<le> 4" "n \<le> 2 ^ 48"
    "4 * n div 5 \<le> 2 ^ 48" using assms by auto
  show ?thesis unfolding f64_scale_def as_f64_small [OF assms]
  proof (rule f64_floor)
    show "4 * n div 5 * 2 ^ 52 \<le> n * 3602879701896397" using n by simp
    show "16 * (n * 3602879701896397) \<le> (16 * (4 * n div 5) + 15) * 2 ^ 52" using n by simp
  qed (use n in simp_all)
qed


lemma budget_exact:
  assumes "context_window b < 2 ^ 48"
  shows "(can_fit b n \<longleftrightarrow> n \<le> context_window b - context_window b div 10 - tokens_used b) \<and>
    (bs_should_compact (tb_status b) \<longleftrightarrow> 4 * (context_window b - context_window b div 10) div 5 \<le> tokens_used b) \<and>
    remaining_capacity b + context_window b div 10 \<le> context_window b"
proof -
  have "context_window b - context_window b div 10 < 2 ^ 48" using assms by simp
  then show ?thesis
    using assms div_le_dividend [of "context_window b" 10]
    by (simp add: can_fit_def remaining_capacity_def tb_status_def Let_def tenth four_fifths)
qed

section \<open>Properties\<close>

text \<open>
  C37. The budget in doubles is the budget in integers. For every window below \<open>2 ^ 48\<close> tokens the reserve computed
  with the double 0.1 is exactly a tenth and the compaction threshold computed with the double 0.8 is exactly
  four fifths of the rest, both rounded down, so that the test for room and the advice to compact are
  comparisons of integers.
\<close>

theorem budget_is_exact:
  assumes "context_window b < 2 ^ 48"
  shows "(can_fit b n \<longleftrightarrow> n \<le> context_window b - context_window b div 10 - tokens_used b) \<and>
    (bs_should_compact (tb_status b) \<longleftrightarrow> 4 * (context_window b - context_window b div 10) div 5 \<le> tokens_used b) \<and>
    remaining_capacity b + context_window b div 10 \<le> context_window b"
  using assms by (rule budget_exact)

theorem budget_is_exact_witness:
  "\<not> can_fit (record_usage (token_budget_new MODEL_CONTEXT_WINDOWS (u ''gpt-4'')) 7000 300) 74 \<and>
   can_fit (record_usage (token_budget_new MODEL_CONTEXT_WINDOWS (u ''gpt-4'')) 7000 300) 73"
proof -
  let ?b = "record_usage (token_budget_new MODEL_CONTEXT_WINDOWS (u ''gpt-4'')) 7000 300"
  have b: "context_window ?b = 8192" "tokens_used ?b = 7300"
    by (simp_all add: record_usage_def token_budget_new_def resolve_context_window_def MODEL_CONTEXT_WINDOWS_def)
  then have "context_window ?b < 2 ^ 48" by simp
  from budget_is_exact [OF this, of 74] budget_is_exact [OF this, of 73] show ?thesis unfolding b by simp
qed

text \<open>
  The window of a dated model name can depend on the order of a hash map. A name that extends exactly one name of
  the table gets the window of that one whatever the order; a dated \<^verbatim>\<open>gpt-4o\<close> extends two, and
  gets 8192 or 128000 tokens depending on the order of iteration.
\<close>

theorem window_depends_on_order:
  assumes "mset windows = mset MODEL_CONTEXT_WINDOWS" "(name, w) \<in> set windows"
    and "\<And>name' w'. (name', w') \<in> set windows \<Longrightarrow> starts_with model name' \<longleftrightarrow> name' = name"
  shows "context_window (token_budget_new windows model) = w \<and>
    context_window (token_budget_new MODEL_CONTEXT_WINDOWS (u ''gpt-4o-2024-08-06'')) = 128000 \<and>
    context_window (token_budget_new (rev MODEL_CONTEXT_WINDOWS) (u ''gpt-4o-2024-08-06'')) = 8192"
proof -
  have "distinct (map fst MODEL_CONTEXT_WINDOWS)" by (simp add: MODEL_CONTEXT_WINDOWS_def)
  moreover have "mset (map fst windows) = mset (map fst MODEL_CONTEXT_WINDOWS)" using assms(1) by simp
  ultimately have d: "distinct (map fst windows)" using mset_eq_imp_distinct_iff by blast
  have u: "\<And>w'. (name, w') \<in> set windows \<Longrightarrow> w' = w" using eq_key_imp_eq_value [OF d assms(2)] by blast
  have "context_window (token_budget_new windows model) = w"
  proof (cases "map_of windows model")
    case None
    have "find (\<lambda>(n, w). starts_with model n) windows = Some (name, w)"
    proof (cases "find (\<lambda>(n, w). starts_with model n) windows")
      case None
      then show ?thesis using assms(2,3) by (force simp: find_None_iff)
    next
      case (Some q)
      then have q: "(fst q, snd q) \<in> set windows" "starts_with model (fst q)"
        by (auto simp: find_Some_iff case_prod_unfold)
      then have f: "fst q = name" using assms(3) by blast
      with q(1) u [of "snd q"] have "q = (name, w)" by (simp add: prod_eq_iff)
      with Some show ?thesis by simp
    qed
    with None show ?thesis by (simp add: token_budget_new_def resolve_context_window_def)
  next
    case (Some w')
    then have "(model, w') \<in> set windows" by (rule map_of_SomeD)
    moreover from this have "model = name" using assms(3) [of model w'] by (simp add: starts_with_def)
    ultimately have "w' = w" using u by simp
    with Some show ?thesis by (simp add: token_budget_new_def resolve_context_window_def)
  qed
  moreover have "context_window (token_budget_new MODEL_CONTEXT_WINDOWS (u ''gpt-4o-2024-08-06'')) = 128000"
    "context_window (token_budget_new (rev MODEL_CONTEXT_WINDOWS) (u ''gpt-4o-2024-08-06'')) = 8192"
    by (simp_all add: token_budget_new_def resolve_context_window_def MODEL_CONTEXT_WINDOWS_def)
  ultimately show ?thesis by blast
qed

theorem window_depends_on_order_witness:
  "context_window (token_budget_new (rev MODEL_CONTEXT_WINDOWS) (u ''claude-3.5-sonnet-20241022'')) = 200000"
proof -
  have m: "(u ''claude-3.5-sonnet'', 200000) \<in> set (rev MODEL_CONTEXT_WINDOWS)" by (simp add: MODEL_CONTEXT_WINDOWS_def)
  have p: "starts_with (u ''claude-3.5-sonnet-20241022'') n \<longleftrightarrow> n = u ''claude-3.5-sonnet''"
    if "(n, w) \<in> set (rev MODEL_CONTEXT_WINDOWS)" for n w
    using that by (auto simp: MODEL_CONTEXT_WINDOWS_def)
  from window_depends_on_order [OF _ m p] show ?thesis by simp
qed

end
