(* ===== verification/Backpressure.thy ===== *)
theory Backpressure
  imports F64 Prelude "HOL-Library.Sublist"
begin

text \<open>
  Load control of the kernel, \<^verbatim>\<open>crates/codegen/ccore/src/kernel/backpressure.rs\<close>: the pressure level, the
  token bucket and the sender that combines them. The outcome of \<^verbatim>\<open>try_reserve\<close> and \<^verbatim>\<open>try_send\<close> on the
  channel, its capacity and the clock are inputs. Instants are nanoseconds; the counters are 64-bit.
  Each operation is given as one step; the atomic steps of the token bucket follow in a second model
  of their interleaving.
\<close>

section \<open>The pressure level\<close>

record backpressure_config =
  high_watermark :: rat
  critical_watermark :: rat
  backpressure_delay_ms :: nat
  critical_delay_ms :: nat
  max_rate :: nat

text \<open>The floats 0.8 and 0.95.\<close>

definition backpressure_config_default :: backpressure_config where
  "backpressure_config_default =
     \<lparr>high_watermark = 3602879701896397 / 4503599627370496,
      critical_watermark = 4278419646001971 / 4503599627370496,
      backpressure_delay_ms = 10, critical_delay_ms = 100, max_rate = 1000\<rparr>"

datatype backpressure_level = Normal | High | Critical

fun level_code :: "backpressure_level \<Rightarrow> nat" where
  "level_code Normal = 0"
| "level_code High = 1"
| "level_code Critical = 2"

record controller =
  bp_config :: backpressure_config
  level :: nat
  last_check :: nat
  sent_count :: nat
  dropped_count :: nat
  backpressure_count :: nat

definition controller_new :: "nat \<Rightarrow> backpressure_config \<Rightarrow> controller" where
  "controller_new now c = \<lparr>bp_config = c, level = level_code Normal, last_check = now, sent_count = 0,
     dropped_count = 0, backpressure_count = 0\<rparr>"

datatype channel_status = Open_Slot | Full | Closed

definition usage_of :: "channel_status \<Rightarrow> nat \<Rightarrow> rat" where
  "usage_of st capacity =
     (case st of Open_Slot \<Rightarrow> 1 / 2 * min (f64_div 1 (max capacity 1)) 1 | Full \<Rightarrow> 1 | Closed \<Rightarrow> 1)"

definition inc64 :: "nat \<Rightarrow> nat" where
  "inc64 n = (n + 1) mod 2 ^ 64"

definition check_channel :: "nat \<Rightarrow> channel_status \<Rightarrow> nat \<Rightarrow> controller \<Rightarrow> controller \<times> backpressure_level" where
  "check_channel now st capacity c =
     (let usage = usage_of st capacity;
          l = (if critical_watermark (bp_config c) \<le> usage then Critical
               else if high_watermark (bp_config c) \<le> usage then High
               else Normal);
          c1 = c\<lparr>level := level_code l, last_check := now\<rparr>
      in (if l \<noteq> Normal then c1\<lparr>backpressure_count := inc64 (backpressure_count c1)\<rparr> else c1, l))"

definition get_level :: "controller \<Rightarrow> backpressure_level" where
  "get_level c = (if level c = 0 then Normal else if level c = 1 then High else if level c = 2 then Critical else Normal)"

text \<open>Delays in milliseconds.\<close>

definition get_delay :: "controller \<Rightarrow> nat option" where
  "get_delay c =
     (case get_level c of
        Normal \<Rightarrow> None
      | High \<Rightarrow> Some (backpressure_delay_ms (bp_config c))
      | Critical \<Rightarrow> Some (critical_delay_ms (bp_config c)))"

definition bp_record_sent :: "controller \<Rightarrow> controller" where
  "bp_record_sent c = c\<lparr>sent_count := inc64 (sent_count c)\<rparr>"

definition bp_record_dropped :: "controller \<Rightarrow> controller" where
  "bp_record_dropped c = c\<lparr>dropped_count := inc64 (dropped_count c)\<rparr>"

record bp_stats =
  st_level :: backpressure_level
  st_sent :: nat
  st_dropped :: nat
  st_backpressure :: nat

definition stats :: "controller \<Rightarrow> bp_stats" where
  "stats c = \<lparr>st_level = get_level c, st_sent = sent_count c, st_dropped = dropped_count c,
     st_backpressure = backpressure_count c\<rparr>"

section \<open>The token bucket\<close>

record shaper =
  tokens :: nat
  capacity :: nat
  refill_rate :: nat
  last_refill :: nat

definition shaper_new :: "nat \<Rightarrow> nat \<Rightarrow> nat \<Rightarrow> shaper" where
  "shaper_new now cap rate = \<lparr>tokens = cap, capacity = cap, refill_rate = rate, last_refill = now\<rparr>"

text \<open>Sequentially the lock is free; products and sums are assumed to fit 64 bits by the theorems.\<close>

definition refill :: "nat \<Rightarrow> shaper \<Rightarrow> shaper" where
  "refill now s =
     (let elapsed = now - last_refill s
      in if 1000000000 \<le> elapsed then
           s\<lparr>tokens := min ((tokens s + (elapsed div 1000000000 * refill_rate s) mod 2 ^ 64) mod 2 ^ 64) (capacity s),
             last_refill := now\<rparr>
         else s)"

definition try_acquire :: "nat \<Rightarrow> shaper \<Rightarrow> shaper \<times> bool" where
  "try_acquire now s =
     (let s1 = refill now s
      in if tokens s1 = 0 then (s1, False) else (s1\<lparr>tokens := tokens s1 - 1\<rparr>, True))"

text \<open>The waiting loop: one try per clock reading, until a token is there.\<close>

fun acquire :: "nat list \<Rightarrow> shaper \<Rightarrow> (shaper \<times> nat list) option" where
  "acquire [] s = None"
| "acquire (now # clock) s =
     (let (s1, ok) = try_acquire now s in if ok then Some (s1, clock) else acquire clock s1)"

section \<open>The sender\<close>

datatype send_outcome = Sent_Ok | Dropped_Full | Refused_Closed

text \<open>
  \<^verbatim>\<open>send\<close>: wait for a token, then the delay of the level, then one \<^verbatim>\<open>try_send\<close> whose result is the
  input \<open>st\<close>. The result gives the delay slept.
\<close>

definition bp_send :: "nat list \<Rightarrow> channel_status \<Rightarrow> controller \<Rightarrow> shaper option
    \<Rightarrow> (controller \<times> shaper option \<times> nat option \<times> send_outcome) option" where
  "bp_send clock st c sh =
     (case (case sh of None \<Rightarrow> Some None | Some s \<Rightarrow> map_option (Some \<circ> fst) (acquire clock s)) of
        None \<Rightarrow> None
      | Some sh' \<Rightarrow>
          (case st of
             Open_Slot \<Rightarrow> Some (bp_record_sent c, sh', get_delay c, Sent_Ok)
           | Full \<Rightarrow> Some (bp_record_dropped c, sh', get_delay c, Dropped_Full)
           | Closed \<Rightarrow> Some (c, sh', get_delay c, Refused_Closed)))"

section \<open>Levels\<close>

lemma usage_open_le_half: "usage_of Open_Slot cap \<le> 1 / 2"
  using f64_div_le_1 [of "max cap 1" 1] by (simp add: usage_of_def min_def)

text \<open>
  With the default watermarks the middle level does not exist: a channel check gives the critical
  level when the channel is full or closed and the normal level otherwise, whatever the capacity and
  however full the channel is, so the delay between the watermarks is never applied.
\<close>

theorem high_level_unreachable:
  assumes "bp_config c = backpressure_config_default"
  shows "snd (check_channel now st cap c) = (if st = Open_Slot then Normal else Critical) \<and>
    get_delay (fst (check_channel now st cap c)) = (if st = Open_Slot then None else Some 100)"
  using usage_open_le_half [of cap] assms
  by (cases st)
    (auto simp: check_channel_def Let_def backpressure_config_default_def usage_of_def get_delay_def get_level_def)

theorem high_level_unreachable_witness:
  "snd (check_channel 5 Open_Slot 64 (controller_new 0 backpressure_config_default)) = Normal"
  using high_level_unreachable [of "controller_new 0 backpressure_config_default" 5 Open_Slot 64]
  by (simp add: controller_new_def)

section \<open>The rate of the token bucket\<close>

text \<open>Tries at the given clock readings: the bucket afterwards and the number of successes.\<close>

fun tries :: "nat list \<Rightarrow> shaper \<Rightarrow> shaper \<times> nat" where
  "tries [] s = (s, 0)"
| "tries (now # clock) s =
     (let (s1, ok) = try_acquire now s; (s2, n) = tries clock s1 in (s2, of_bool ok + n))"

lemma tries_snoc:
  "tries (clock @ [now]) s =
     (let (s1, n) = tries clock s; (s2, ok) = try_acquire now s1 in (s2, n + of_bool ok))"
  by (induction clock arbitrary: s) (simp_all add: case_prod_unfold Let_def)

definition allowance :: "nat \<Rightarrow> nat \<Rightarrow> nat \<Rightarrow> nat \<Rightarrow> nat" where
  "allowance cap rate t0 now = cap + rate * ((now - t0) div 1000000000)"

lemma div_add_le: "a div n + b div n \<le> (a + b) div (n :: nat)"
  unfolding div_add1_eq [of a b n] by simp

lemma tries_bound:
  assumes "sorted (t0 # clock)" "allowance cap rate t0 (last (t0 # clock)) < 2 ^ 64"
  shows "let (s, n) = tries clock (shaper_new t0 cap rate)
         in capacity s = cap \<and> refill_rate s = rate \<and> t0 \<le> last_refill s \<and> last_refill s \<le> last (t0 # clock) \<and>
            tokens s \<le> cap \<and> n + tokens s \<le> allowance cap rate t0 (last_refill s)"
  using assms
proof (induction clock rule: rev_induct)
  case Nil
  then show ?case by (simp add: shaper_new_def allowance_def)
next
  case (snoc now clock)
  obtain s n where r: "tries clock (shaper_new t0 cap rate) = (s, n)" by fastforce
  have mono: "last (t0 # clock) \<le> now" "t0 \<le> now" "sorted (t0 # clock)"
    using snoc.prems(1) by (auto simp: sorted_append)
  have now: "allowance cap rate t0 now < 2 ^ 64" using snoc.prems(2) by simp
  have "allowance cap rate t0 (last (t0 # clock)) \<le> allowance cap rate t0 now"
    using mono(1) by (auto simp: allowance_def intro!: mult_le_mono div_le_mono)
  with now have "allowance cap rate t0 (last (t0 # clock)) < 2 ^ 64" by linarith
  from snoc.IH [OF mono(3) this] r
  have s: "capacity s = cap" "refill_rate s = rate" "t0 \<le> last_refill s" "last_refill s \<le> last (t0 # clock)"
    "tokens s \<le> cap" "n + tokens s \<le> allowance cap rate t0 (last_refill s)" by auto
  let ?add = "(now - last_refill s) div 1000000000 * rate"
  have "(last_refill s - t0) div 1000000000 + (now - last_refill s) div 1000000000 \<le> (now - t0) div 1000000000"
    using div_add_le [of "last_refill s - t0" 1000000000 "now - last_refill s"] s(3,4) mono by simp
  from mult_le_mono2 [OF this, of rate]
  have "rate * ((last_refill s - t0) div 1000000000) + ?add \<le> rate * ((now - t0) div 1000000000)"
    by (simp add: distrib_left mult.commute)
  then have a: "allowance cap rate t0 (last_refill s) + ?add \<le> allowance cap rate t0 now" by (simp add: allowance_def)
  have small: "?add < 2 ^ 64" "tokens s + ?add < 2 ^ 64" using a s(6) now by linarith+
  have f: "capacity (refill now s) = cap \<and> refill_rate (refill now s) = rate \<and>
    t0 \<le> last_refill (refill now s) \<and> last_refill (refill now s) \<le> now \<and> tokens (refill now s) \<le> cap \<and>
    n + tokens (refill now s) \<le> allowance cap rate t0 (last_refill (refill now s))"
  proof (cases "1000000000 \<le> now - last_refill s")
    case True
    have "(tokens s + ?add mod 2 ^ 64) mod 2 ^ 64 = tokens s + ?add" using small by (simp only: mod_less)
    then have "refill now s = s\<lparr>tokens := min (tokens s + ?add) cap, last_refill := now\<rparr>"
      using True s(1,2) by (simp only: refill_def Let_def if_True)
    moreover have "n + min (tokens s + ?add) cap \<le> allowance cap rate t0 now" using a s(6) by linarith
    ultimately show ?thesis using s(1,2) mono(2) by simp
  next
    case False
    then have "refill now s = s" by (simp add: refill_def Let_def)
    then show ?thesis using s mono(1) by simp
  qed
  have "tries (clock @ [now]) (shaper_new t0 cap rate) =
      (fst (try_acquire now s), n + of_bool (snd (try_acquire now s)))"
    by (simp add: tries_snoc r case_prod_unfold)
  then show ?case using f by (auto simp: try_acquire_def Let_def)
qed

text \<open>
  C34. The token bucket keeps its rate. When its calls are made one at a time at increasing clock
  readings, the number of tokens handed out by a moment is at most the capacity plus the refill rate
  times the whole seconds since the bucket was created, as long as that number fits 64 bits.
\<close>

theorem bucket_keeps_rate:
  assumes "sorted (t0 # clock)" "allowance cap rate t0 (last (t0 # clock)) < 2 ^ 64"
  shows "snd (tries clock (shaper_new t0 cap rate)) \<le> allowance cap rate t0 (last (t0 # clock))"
proof -
  obtain s n where r: "tries clock (shaper_new t0 cap rate) = (s, n)" by fastforce
  with tries_bound [OF assms] have "n \<le> allowance cap rate t0 (last_refill s)" "last_refill s \<le> last (t0 # clock)" by auto
  moreover have "allowance cap rate t0 (last_refill s) \<le> allowance cap rate t0 (last (t0 # clock))"
    using calculation(2) by (auto simp: allowance_def intro!: mult_le_mono div_le_mono)
  ultimately show ?thesis using r by simp
qed

theorem bucket_keeps_rate_witness:
  "snd (tries [0, 0, 1000000000, 1500000000] (shaper_new 0 1 1)) \<le> 2"
  using bucket_keeps_rate [of 0 "[0, 0, 1000000000, 1500000000]" 1 1] by (simp add: allowance_def)

section \<open>Waiting for a token\<close>

lemma refill_positive:
  assumes "0 < capacity s" "0 < refill_rate s" "last_refill s + 1000000000 \<le> now"
    and "tokens s + (now - last_refill s) div 1000000000 * refill_rate s < 2 ^ 64"
  shows "0 < tokens (refill now s)"
proof -
  let ?add = "(now - last_refill s) div 1000000000 * refill_rate s"
  have "1000000000 div 1000000000 \<le> (now - last_refill s) div 1000000000" using assms(3) by (intro div_le_mono) simp
  then have "0 < ?add" using assms(2) by simp
  moreover have "(tokens s + ?add mod 2 ^ 64) mod 2 ^ 64 = tokens s + ?add" using assms(4) by (simp only: mod_less)
  moreover have "1000000000 \<le> now - last_refill s" using assms(3) by linarith
  ultimately show ?thesis using assms(1) by (simp add: refill_def Let_def)
qed

text \<open>
  Waiting for a token ends. With a positive capacity and rate, \<^verbatim>\<open>acquire\<close> returns with a token as
  soon as the clock has moved on by a second since the last refill, provided the counters fit 64 bits.
\<close>

theorem acquire_returns:
  assumes "0 < capacity s" "0 < refill_rate s" "now \<in> set clock" "last_refill s + 1000000000 \<le> now"
    and "\<forall>t \<in> set clock. tokens s + (t - last_refill s) div 1000000000 * refill_rate s < 2 ^ 64"
  shows "\<exists>s' rest. acquire clock s = Some (s', rest) \<and> suffix rest clock"
  using assms(3,5)
proof (induction clock)
  case (Cons t clock)
  show ?case
  proof (cases "snd (try_acquire t s)")
    case True
    then show ?thesis by (auto simp: case_prod_unfold Let_def suffix_def)
  next
    case False
    then have 0: "tokens (refill t s) = 0" by (simp add: try_acquire_def Let_def split: if_splits)
    have "\<not> last_refill s + 1000000000 \<le> t"
      using refill_positive [OF assms(1,2), of t] Cons.prems(2) 0 by auto
    then have "refill t s = s" by (simp add: refill_def Let_def)
    then have "fst (try_acquire t s) = s" using 0 by (simp add: try_acquire_def Let_def)
    moreover have "t \<noteq> now" using \<open>\<not> last_refill s + 1000000000 \<le> t\<close> assms(4) by auto
    ultimately show ?thesis using False Cons by (auto simp: case_prod_unfold Let_def suffix_Cons)
  qed
qed simp

theorem acquire_returns_witness:
  "\<exists>s' rest. acquire [500000000, 1000000000] (fst (try_acquire 0 (shaper_new 0 1 1))) = Some (s', rest) \<and>
     suffix rest [500000000, 1000000000]"
  by (rule acquire_returns [where now = 1000000000])
    (simp_all add: try_acquire_def shaper_new_def refill_def Let_def)

section \<open>Concurrent callers\<close>

text \<open>
  The atomic steps of \<^verbatim>\<open>try_acquire\<close>: the lock attempt of \<^verbatim>\<open>refill\<close>, the load and the store of the token
  count under the lock, and the load and the compare-exchange of the loop.
\<close>

datatype acquire_pc =
    Start
  | Got_Lock
  | Loaded nat nat
  | Cas_Load
  | Cas nat
  | Ret bool

record bucket =
  shp :: shaper
  locked :: bool

fun acquire_step :: "nat \<Rightarrow> bucket \<Rightarrow> acquire_pc \<Rightarrow> bucket \<times> acquire_pc" where
  "acquire_step now b Start = (if locked b then (b, Cas_Load) else (b\<lparr>locked := True\<rparr>, Got_Lock))"
| "acquire_step now b Got_Lock =
     (if 1000000000 \<le> now - last_refill (shp b) then (b, Loaded (tokens (shp b)) now)
      else (b\<lparr>locked := False\<rparr>, Cas_Load))"
| "acquire_step now b (Loaded cur rd) =
     (b\<lparr>locked := False,
        shp := (shp b)\<lparr>tokens := min ((cur + ((rd - last_refill (shp b)) div 1000000000 * refill_rate (shp b)) mod 2 ^ 64)
                                  mod 2 ^ 64) (capacity (shp b)),
                      last_refill := rd\<rparr>\<rparr>, Cas_Load)"
| "acquire_step now b Cas_Load = (b, if tokens (shp b) = 0 then Ret False else Cas (tokens (shp b)))"
| "acquire_step now b (Cas cur) =
     (if tokens (shp b) = cur then (b\<lparr>shp := (shp b)\<lparr>tokens := cur - 1\<rparr>\<rparr>, Ret True) else (b, Cas_Load))"
| "acquire_step now b (Ret r) = (b, Ret r)"

text \<open>A schedule names the thread that moves and the clock reading it would see.\<close>

fun interleave :: "(nat \<times> nat) list \<Rightarrow> bucket \<Rightarrow> acquire_pc list \<Rightarrow> bucket \<times> acquire_pc list" where
  "interleave [] b pcs = (b, pcs)"
| "interleave ((i, now) # sch) b pcs =
     (let (b', p) = acquire_step now b (pcs ! i) in interleave sch b' (pcs[i := p]))"

lemma solo_is_sequential:
  "interleave [(0, now), (0, now), (0, now), (0, now), (0, now)] \<lparr>shp = s, locked = False\<rparr> [Start] =
     (\<lparr>shp = fst (try_acquire now s), locked = False\<rparr>, [Ret (snd (try_acquire now s))])"
proof (cases "1000000000 \<le> now - last_refill s")
  case True
  define t where "t = min ((tokens s + ((now - last_refill s) div 1000000000 * refill_rate s) mod 2 ^ 64) mod 2 ^ 64) (capacity s)"
  have "refill now s = s\<lparr>tokens := t, last_refill := now\<rparr>" using True by (simp add: refill_def Let_def t_def)
  moreover have "acquire_step now \<lparr>shp = s, locked = True\<rparr> (Loaded (tokens s) now) =
      (\<lparr>shp = s\<lparr>tokens := t, last_refill := now\<rparr>, locked = False\<rparr>, Cas_Load)"
    by (simp add: t_def)
  ultimately show ?thesis using True
    by (cases "t = 0") (simp_all add: try_acquire_def Let_def del: acquire_step.simps(3))
next
  case False
  then have "refill now s = s" by (simp add: refill_def Let_def)
  with False show ?thesis by (cases "tokens s = 0") (simp_all add: try_acquire_def Let_def)
qed

text \<open>
  Concurrent callers get more tokens than the rate allows. A bucket of two tokens with one new
  token a second hands out four tokens within its first second: while one caller has read the count for
  a refill, two others take both tokens, and the refill then writes the count it had read back.
\<close>

theorem refill_race_exceeds_rate:
  "let (b, pcs) = interleave
         (map (\<lambda>i. (i, 1000000000)) [0, 0, 1, 1, 1, 2, 2, 2, 0, 0, 0, 3, 3, 3, 3])
         \<lparr>shp = shaper_new 0 2 1, locked = False\<rparr> [Start, Start, Start, Start]
   in count_list pcs (Ret True) = 4 \<and> allowance 2 1 0 1000000000 = 3"
  by (simp add: shaper_new_def allowance_def)

end
