(* ===== verification/Kernel_Arms.thy ===== *)
theory Kernel_Arms
  imports Kernel_Incoming Experience Param_Server Token_Budget Backpressure
begin

text \<open>
  The whole of \<^verbatim>\<open>handle_incoming\<close> of \<^verbatim>\<open>crates/codegen/ccore/src/kernel/mod.rs\<close>: the registration protocol of
  \<open>Kernel_Incoming\<close>, and the arms for spawning, parameters, assessment, budget, sensory signals,
  learning requests, goal verification and plain forwarding, over the state they use; and the events of
  the main loop that change that state. The modules of \<^verbatim>\<open>stubs.rs\<close> that the build links are followed:
  they assess every task as moderate, find no conflicts and no heuristics, and their circuit breaker
  is always closed. What is outside the workspace or not a function (coding, sending, identifiers, the
  printer of JSON) is the record \<open>kernel_env\<close>. Sending stops at the first failure, as the
  question mark operator does.
\<close>

section \<open>State, environment, effects\<close>

datatype agent_type = Primary | GeneralPurpose | Explore | Plan | Codex

definition parse_agent_type :: "ustr \<Rightarrow> agent_type" where
  "parse_agent_type s =
     (if s = u ''primary'' then Primary
      else if s = u ''general-purpose'' \<or> s = u ''general'' then GeneralPurpose
      else if s = u ''explore'' then Explore
      else if s = u ''plan'' then Plan
      else if s = u ''codex'' then Codex
      else GeneralPurpose)"

fun agent_type_debug :: "agent_type \<Rightarrow> ustr" where
  "agent_type_debug Primary = u ''Primary''"
| "agent_type_debug GeneralPurpose = u ''GeneralPurpose''"
| "agent_type_debug Explore = u ''Explore''"
| "agent_type_debug Plan = u ''Plan''"
| "agent_type_debug Codex = u ''Codex''"

record kernel_node =
  kn_kernel :: kernel
  kn_params :: param_server
  kn_router :: reflex_router
  kn_log :: experience_log
  kn_backpressure :: controller
  kn_budget :: token_budget_manager
  max_subagents :: nat

text \<open>A message the kernel made, or one it passes on.\<close>

datatype parcel = Made outgoing | Relayed message

datatype node_effect =
    Base effect
  | Sleep nat
  | Deliver identity parcel
  | Encode_Episode ustr ustr "ustr list"
  | Spawn_Subagent node_id node_id agent_type ustr ustr
  | Broadcast outgoing

record kernel_env =
  new_ok :: "outgoing \<Rightarrow> bool"
  enc_ok :: "parcel \<Rightarrow> bool"
  send_ok :: "identity \<Rightarrow> parcel \<Rightarrow> bool"
  decode_payload :: "byte list \<Rightarrow> json option"
  from_value :: "json \<Rightarrow> param_value option"
  to_value :: "param_value \<Rightarrow> json"
  json_text :: "json \<Rightarrow> ustr"
  fresh_id :: ustr
  default_model :: ustr
  wall :: int
  inst :: nat

record node_handled =
  nh_node :: kernel_node
  nh_effects :: "node_effect list"
  nh_ok :: bool

definition done_with :: "kernel_node \<Rightarrow> node_effect list \<Rightarrow> bool \<Rightarrow> node_handled" where
  "done_with k es ok = \<lparr>nh_node = k, nh_effects = es, nh_ok = ok\<rparr>"

text \<open>\<^verbatim>\<open>f(..)?\<close> followed by more, and an error that is only logged.\<close>

definition and_then :: "node_handled \<Rightarrow> (kernel_node \<Rightarrow> node_handled) \<Rightarrow> node_handled" where
  "and_then h f =
     (if nh_ok h then let h' = f (nh_node h) in h'\<lparr>nh_effects := nh_effects h @ nh_effects h'\<rparr> else h)"

definition logged :: "node_handled \<Rightarrow> node_handled" where
  "logged h = h\<lparr>nh_ok := True\<rparr>"

section \<open>Forwarding\<close>

abbreviation kn_brk :: "kernel_node \<Rightarrow> broker" where
  "kn_brk k \<equiv> k_brk (kn_kernel k)"

text \<open>Routing looks at the topic and the sender only; the kernel's own messages come from \<^verbatim>\<open>kernel\<close>.\<close>

fun parcel_targets :: "broker \<Rightarrow> parcel \<Rightarrow> (identity \<times> node_id) list" where
  "parcel_targets b (Relayed msg) = find_targets b msg"
| "parcel_targets b (Made out) =
     List.map_filter (\<lambda>n. map_option (\<lambda>i. (i, n)) (map_of (node_identities b) n))
       (filter (\<lambda>n. n \<noteq> u ''kernel'') (find_subscribers b (o_topic out)))"

fun send_each :: "kernel_env \<Rightarrow> parcel \<Rightarrow> (identity \<times> node_id) list \<Rightarrow> node_effect list \<times> bool" where
  "send_each env p [] = ([], True)"
| "send_each env p ((i, n) # ts) =
     (if send_ok env i p then apfst ((#) (Deliver i p)) (send_each env p ts) else ([Deliver i p], False))"

definition route_and_forward :: "kernel_env \<Rightarrow> kernel_node \<Rightarrow> parcel \<Rightarrow> node_handled" where
  "route_and_forward env k p =
     (let waits = (case get_delay (kn_backpressure k) of Some d \<Rightarrow> [Sleep d] | None \<Rightarrow> []);
          targets = parcel_targets (kn_brk k) p
      in if targets = [] then done_with k waits True
         else if \<not> enc_ok env p then done_with k waits False
         else
           let (sends, ok) = send_each env p targets
           in done_with (if ok then k\<lparr>kn_backpressure := bp_record_sent (kn_backpressure k)\<rparr> else k) (waits @ sends) ok)"

text \<open>\<^verbatim>\<open>FrameCodec::new_message(..)?\<close> and forwarding, and the variant that logs both errors.\<close>

definition announce_made :: "kernel_env \<Rightarrow> kernel_node \<Rightarrow> outgoing \<Rightarrow> node_handled" where
  "announce_made env k out =
     (if new_ok env out then route_and_forward env k (Made out) else done_with k [] False)"

definition announce_logged :: "kernel_env \<Rightarrow> kernel_node \<Rightarrow> outgoing \<Rightarrow> node_handled" where
  "announce_logged env k out = logged (announce_made env k out)"

section \<open>Spawning\<close>

definition handle_spawn :: "kernel_env \<Rightarrow> kernel_node \<Rightarrow> message \<Rightarrow> json \<Rightarrow> node_handled" where
  "handle_spawn env k msg p =
     (let ty = parse_agent_type (str_or p (u ''agent_type'') (u ''general-purpose''));
          model = get_str p (u ''model'');
          task = str_or p (u ''task_description'') [];
          parent = src_node (header msg);
          out = \<lparr>o_topic = sys_spawn, o_reply_to = None, o_payload = JObject
            [(u ''node_id'', JString (fresh_id env)), (u ''node_type'', JString (u ''agent'')),
             (u ''agent_type'', JString (agent_type_debug ty)), (u ''parent_id'', JString parent),
             (u ''model'', case model of Some m \<Rightarrow> JString m | None \<Rightarrow> JNull),
             (u ''task_description'', JString task)]\<rparr>;
          spawned = Spawn_Subagent (fresh_id env) parent ty (case model of Some m \<Rightarrow> m | None \<Rightarrow> default_model env) task
      in if max_subagents k \<le> length (find_by_type (k_reg (kn_kernel k)) Agent) then done_with k [] True
         else if new_ok env out \<and> enc_ok env (Made out) then done_with k [spawned, Broadcast out] True
         else done_with k [spawned] True)"

section \<open>Parameters\<close>

definition handle_param_set :: "kernel_env \<Rightarrow> kernel_node \<Rightarrow> message \<Rightarrow> json \<Rightarrow> node_handled" where
  "handle_param_set env k msg p =
     (let k1 = (case get_str p (u ''key'') of
                  Some key \<Rightarrow>
                    (case json_get p (u ''value'') of
                       Some v \<Rightarrow> k\<lparr>kn_params := ps_set (kn_params k) key
                                   (case from_value env v of Some x \<Rightarrow> x | None \<Rightarrow> PNull)\<rparr>
                     | None \<Rightarrow> k)
                | None \<Rightarrow> k)
      in route_and_forward env k1 (Relayed msg))"

definition handle_param_get :: "kernel_env \<Rightarrow> kernel_node \<Rightarrow> message \<Rightarrow> json \<Rightarrow> node_handled" where
  "handle_param_get env k msg p =
     (let key = str_or p (u ''key'') []
      in case ps_get (kn_params k) key of
           Some v \<Rightarrow> announce_made env k \<lparr>o_topic = param_changed, o_reply_to = Some (msg_id (header msg)),
               o_payload = JObject [(u ''key'', JString key), (u ''value'', to_value env v)]\<rparr>
         | None \<Rightarrow> done_with k [] True)"

section \<open>Assessment and budget\<close>

definition handle_meta_assess :: "kernel_env \<Rightarrow> kernel_node \<Rightarrow> node_handled" where
  "handle_meta_assess env k =
     announce_logged env k \<lparr>o_topic = u ''cortex/meta_result'', o_reply_to = None, o_payload = JObject
       [(u ''difficulty'', JString (u ''Moderate'')), (u ''conflicts'', JArray []),
        (u ''suggested_strategy'', JString (u ''step_by_step''))]\<rparr>"

text \<open>The reason is "Token budget exhausted"; the breaker of the stubs always allows.\<close>

definition handle_budget_check :: "kernel_env \<Rightarrow> kernel_node \<Rightarrow> node_handled" where
  "handle_budget_check env k =
     (if \<not> can_fit (kn_budget k) 1000 then
        announce_logged env k \<lparr>o_topic = u ''cortex/budget_deny'', o_reply_to = None, o_payload = JObject
          [(u ''reason'', JString (u ''Token '' @ [39044, 31639, 19981, 36275]))]\<rparr>
      else done_with k [] True)"

section \<open>Sensory signals\<close>

definition send_motor :: "kernel_env \<Rightarrow> kernel_node \<Rightarrow> ustr \<Rightarrow> json \<Rightarrow> node_handled" where
  "send_motor env k act prms =
     (let out = \<lparr>o_topic = act, o_reply_to = None, o_payload = prms\<rparr>;
          targets = parcel_targets (kn_brk k) (Made out)
      in if \<not> new_ok env out \<or> targets = [] then done_with k [] True
         else if \<not> enc_ok env (Made out) then done_with k [] False
         else let (sends, ok) = send_each env (Made out) targets in done_with k sends ok)"

definition sensory_summary :: "(ustr \<times> json) list \<Rightarrow> outgoing" where
  "sensory_summary fs = \<lparr>o_topic = u ''cortex/sensory'', o_reply_to = None, o_payload = JObject fs\<rparr>"

definition run_reflex :: "kernel_env \<Rightarrow> kernel_node \<Rightarrow> ustr \<Rightarrow> ustr \<Rightarrow> reflex_action option \<Rightarrow> node_handled" where
  "run_reflex env k t payload_str a =
     (case a of
        Some (Direct act prms) \<Rightarrow>
          if act = u ''kernel/log'' then done_with k [] True else send_motor env k act prms
      | Some (Instinct act prms) \<Rightarrow>
          and_then (send_motor env k act prms) (\<lambda>k. announce_made env k (sensory_summary
            [(u ''signal_topic'', JString t), (u ''action'', JString act), (u ''params'', prms),
             (u ''level'', JString (u ''L1_formal''))]))
      | Some (Trial act prms) \<Rightarrow>
          and_then (send_motor env k act prms) (\<lambda>k. announce_made env k (sensory_summary
            [(u ''signal_topic'', JString t), (u ''action'', JString act), (u ''params'', prms),
             (u ''level'', JString (u ''L1_trial'')), (u ''needs_confirmation'', JBool True)]))
      | None \<Rightarrow>
          announce_made env k (sensory_summary
            [(u ''signal_topic'', JString t), (u ''payload'', JString payload_str), (u ''level'', JString (u ''L2''))]))"

definition sensory_entry :: "int \<Rightarrow> ustr \<Rightarrow> ustr \<Rightarrow> experience_entry" where
  "sensory_entry now payload_str t =
     \<lparr>ee_timestamp = now, ee_signal = take 200 payload_str, ee_signal_topic = t, ee_level = L0,
      ee_action = u ''sensory_received'', ee_result = True,
      ee_context = JObject [(u ''source'', JString (u ''thinker''))]\<rparr>"

definition handle_sensory :: "kernel_env \<Rightarrow> kernel_node \<Rightarrow> message \<Rightarrow> node_handled" where
  "handle_sensory env k msg =
     (let t = topic msg;
          payload_str = (case decode_payload env (payload msg) of Some v \<Rightarrow> json_text env v | None \<Rightarrow> [])
      in and_then (route_and_forward env k (Relayed msg)) (\<lambda>k.
           and_then
             (done_with (k\<lparr>kn_log := log_record (kn_log k) (sensory_entry (wall env) payload_str t)\<rparr>)
                [Encode_Episode (take 500 payload_str) t (split_on 47 t)] True)
             (\<lambda>k. run_reflex env k t payload_str (route (kn_router k) t payload_str))))"


section \<open>Goal verification\<close>

text \<open>The three strings of the request; an array of three strings is accepted as well.\<close>

fun verify_request :: "json \<Rightarrow> ustr \<times> ustr \<times> ustr" where
  "verify_request (JArray [JString a, JString s, JString v]) = (a, s, v)"
| "verify_request p = (str_or p (u ''agent_id'') [], str_or p (u ''subtask_description'') [], str_or p (u ''verification'') [])"

definition to_verify_prompt :: "ustr \<Rightarrow> ustr \<Rightarrow> ustr" where
  "to_verify_prompt subtask verification =
     [20320, 26159, 19968, 20010, 20219, 21153, 39564, 35777, 35780, 20272, 22120, 12290, 35831, 21028, 26029, 20197,
      19979, 23376, 20219, 21153, 26159, 21542, 24050, 23436, 25104, 12290, 10, 10] @
     [23376, 20219, 21153, 65306] @ subtask @ [10] @ [39564, 35777, 26631, 20934, 65306] @ verification @ [10, 10] @
     [35831, 20165, 22238, 31572] @ u '' JSON'' @ [65306, 123, 34] @ u ''passed'' @ [34] @ u '': true/false, '' @ [34] @
     u ''reasoning'' @ [34] @ u '': '' @ [34, 35780, 20272, 29702, 30001, 34, 125]"

definition quick_pass :: "ustr \<Rightarrow> ustr \<Rightarrow> bool" where
  "quick_pass verification recent \<longleftrightarrow> verification \<noteq> [] \<and>
     (contains recent (u ''success'') \<or> contains recent (u ''passed'') \<or> contains recent (u ''ok'') \<or>
      contains recent [23436, 25104] \<or> contains recent (u ''created'') \<or> contains recent (u ''written'') \<or>
      contains recent (u ''exists''))"

definition quick_fail :: "ustr \<Rightarrow> bool" where
  "quick_fail recent \<longleftrightarrow>
     contains recent (u ''error'') \<or> contains recent (u ''failed'') \<or> contains recent [22833, 36133] \<or>
     contains recent (u ''not found'') \<or> contains recent [19981, 23384, 22312]"

definition verify_result :: "bool \<Rightarrow> ustr \<Rightarrow> ustr \<Rightarrow> ustr \<Rightarrow> outgoing" where
  "verify_result passed subtask verification reasoning =
     \<lparr>o_topic = u ''cortex/goal_verify_result'', o_reply_to = None, o_payload = JObject
       [(u ''passed'', JBool passed), (u ''verification'', JString verification),
        (u ''subtask_description'', JString subtask), (u ''reasoning'', JString reasoning)]\<rparr>"

definition handle_goal_verify :: "kernel_env \<Rightarrow> kernel_node \<Rightarrow> json \<Rightarrow> node_handled" where
  "handle_goal_verify env k p =
     (let (agent, subtask, verification) = verify_request p;
          recent = recent_outcome_summary (kn_log k)
      in if quick_pass verification recent \<or> quick_fail recent then
           announce_logged env k (verify_result (quick_pass verification recent) subtask verification
             ([32463, 39564, 26085, 24535, 24555, 36895, 39564, 35777, 65306] @ recent))
         else
           let out = \<lparr>o_topic = sampler_request, o_reply_to = None, o_payload = JObject
                 [(u ''request_id'', JString (u ''goal_verify_'' @ fresh_id env)), (u ''agent_id'', JString agent),
                  (u ''model'', JString (u ''fast'')),
                  (u ''messages'', JArray [JObject [(u ''role'', JString (u ''user'')),
                     (u ''content'', JString (to_verify_prompt subtask verification))]]),
                  (u ''stream'', JBool False), (u ''max_tokens'', JNumber (u ''100'')), (u ''goal_verify'', JBool True),
                  (u ''subtask_description'', JString subtask), (u ''verification'', JString verification)]\<rparr>
           in if \<not> new_ok env out then done_with k [] False
              else
                let h = route_and_forward env k (Made out)
                in if nh_ok h then h
                   else and_then (logged h) (\<lambda>k. announce_logged env k (verify_result (byte_len verification < 15) subtask verification
                     (u ''LLM '' @ [39564, 35777, 22833, 36133, 65292, 22238, 36864, 21040, 31616, 21333, 39564, 35777]))))"

section \<open>The whole handler\<close>

definition handle_other :: "kernel_env \<Rightarrow> kernel_node \<Rightarrow> message \<Rightarrow> node_handled" where
  "handle_other env k msg =
     (if find_targets (kn_brk k) msg = [] then done_with k [] True else route_and_forward env k (Relayed msg))"

definition handle_arm :: "kernel_env \<Rightarrow> kernel_node \<Rightarrow> message \<Rightarrow> node_handled" where
  "handle_arm env k msg =
     (let t = topic msg;
          on_payload = (\<lambda>f. case decode_payload env (payload msg) of None \<Rightarrow> done_with k [] False | Some p \<Rightarrow> f p)
      in if ends_with t (u ''/spawn'') then on_payload (handle_spawn env k msg)
         else if t = param_set then on_payload (handle_param_set env k msg)
         else if t = param_get then on_payload (handle_param_get env k msg)
         else if t = u ''cortex/meta_assess'' then on_payload (\<lambda>p. handle_meta_assess env k)
         else if t = u ''cortex/budget_check'' then on_payload (\<lambda>p. handle_budget_check env k)
         else if starts_with t (u ''sensory/'') then handle_sensory env k msg
         else if t = u ''cortex/erl_trajectory'' then on_payload (\<lambda>p. done_with k [] True)
         else if t = u ''cortex/erl_retrieve_request'' then on_payload (\<lambda>p. done_with k [] True)
         else if t = u ''cortex/goal_verify'' then on_payload (handle_goal_verify env k)
         else handle_other env k msg)"

definition handle_message :: "kernel_env \<Rightarrow> kernel_node \<Rightarrow> identity \<Rightarrow> message \<Rightarrow> node_handled" where
  "handle_message env k ident msg =
     (case handle_incoming (\<lambda>out. new_ok env out \<and> enc_ok env (Made out)) (\<lambda>i out. send_ok env i (Made out))
         (decode_payload env) (wall env) (inst env) (kn_kernel k) ident msg of
        Some h \<Rightarrow> done_with (k\<lparr>kn_kernel := h_kernel h\<rparr>) (map Base (h_effects h)) (h_ok h)
      | None \<Rightarrow>
          (let (go, k1, errs) = sequence_gate (kn_kernel k) msg
           in and_then (done_with (k\<lparr>kn_kernel := k1\<rparr>) (map Base (Record_Received # errs)) True)
                (\<lambda>k. handle_arm env k msg)))"

section \<open>The main loop\<close>

definition kernel_node_new :: "(ustr \<Rightarrow> regex option) \<Rightarrow> (ustr \<times> nat) list \<Rightarrow> nat \<Rightarrow> nat \<Rightarrow> nat \<Rightarrow> nat \<Rightarrow> kernel_node" where
  "kernel_node_new regex_new windows secs maxr subagents now =
     \<lparr>kn_kernel = kernel_new secs maxr, kn_params = param_server_new,
      kn_router = with_rules regex_new builtin_reflex_rules, kn_log = experience_log_new,
      kn_backpressure = controller_new now backpressure_config_default,
      kn_budget = token_budget_new windows (u ''claude-3.5-sonnet''), max_subagents = subagents\<rparr>"

text \<open>
  One turn of the loop: a message, the health timer, the learning timer, or a heartbeat event, which starts
  a replacement agent and has the monitor watch it before it has registered.
\<close>

inductive kernel_step :: "(ustr \<Rightarrow> regex option) \<Rightarrow> kernel_node \<Rightarrow> kernel_node \<Rightarrow> bool"
  for regex_new :: "ustr \<Rightarrow> regex option"
where
  step_message: "kernel_step regex_new k (nh_node (handle_message env k ident msg))"
| step_health: "kernel_step regex_new k (k\<lparr>kn_kernel := fst (kernel_health_tick now timeout (kn_kernel k))\<rparr>)"
| step_learn: "mset (order (group_entries (log_entries (kn_log k)))) = mset (group_entries (log_entries (kn_log k))) \<Longrightarrow>
    kernel_step regex_new k (k\<lparr>kn_router := learn_tick regex_new escape number order (kn_log k) (kn_router k)\<rparr>)"
| step_restart: "kernel_step regex_new k (k\<lparr>kn_kernel := (kn_kernel k)\<lparr>k_autonomic := register_agent now (k_autonomic (kn_kernel k)) new_id\<rparr>\<rparr>)"

inductive_cases kernel_stepE: "kernel_step regex_new k k'"

definition kernel_reach :: "(ustr \<Rightarrow> regex option) \<Rightarrow> kernel_node \<Rightarrow> kernel_node \<Rightarrow> bool" where
  "kernel_reach regex_new = (kernel_step regex_new)\<^sup>*\<^sup>*"


section \<open>What the arms leave alone\<close>

lemma done_with_simps [simp]:
  "nh_node (done_with k es ok) = k" "nh_effects (done_with k es ok) = es" "nh_ok (done_with k es ok) = ok"
  by (simp_all add: done_with_def)

lemma and_then_node [simp]: "nh_node (and_then h f) = (if nh_ok h then nh_node (f (nh_node h)) else nh_node h)"
  by (simp add: and_then_def Let_def)

lemma and_then_effects:
  "nh_effects (and_then h f) = nh_effects h @ (if nh_ok h then nh_effects (f (nh_node h)) else [])"
  by (simp add: and_then_def Let_def)

lemma logged_simps [simp]:
  "nh_node (logged h) = nh_node h" "nh_effects (logged h) = nh_effects h" "nh_ok (logged h)"
  by (simp_all add: logged_def)

text \<open>An operation that changes the counters of the backpressure controller at most.\<close>

definition quiet :: "kernel_node \<Rightarrow> node_handled \<Rightarrow> bool" where
  "quiet k h \<longleftrightarrow> (\<exists>c. nh_node h = k\<lparr>kn_backpressure := c\<rparr>)"

lemma quiet_done [intro]: "quiet k (done_with k es ok)"
  by (auto simp: quiet_def intro: exI [of _ "kn_backpressure k"])

lemma quiet_and_then: "quiet k h \<Longrightarrow> (\<And>c. quiet (k\<lparr>kn_backpressure := c\<rparr>) (f (k\<lparr>kn_backpressure := c\<rparr>))) \<Longrightarrow> quiet k (and_then h f)"
  by (fastforce simp: quiet_def)

lemma quiet_forward [intro]: "quiet k (route_and_forward env k p)"
proof -
  have "nh_node (route_and_forward env k p) = k \<or>
      nh_node (route_and_forward env k p) = k\<lparr>kn_backpressure := bp_record_sent (kn_backpressure k)\<rparr>"
    by (simp add: route_and_forward_def Let_def case_prod_unfold)
  then show ?thesis by (auto simp: quiet_def intro: exI [of _ "kn_backpressure k"])
qed

lemma quiet_announce [intro]: "quiet k (announce_made env k out)" "quiet k (announce_logged env k out)"
proof -
  show "quiet k (announce_made env k out)" by (auto simp: announce_made_def)
  then show "quiet k (announce_logged env k out)" by (simp add: announce_logged_def quiet_def)
qed

lemma quiet_motor [intro]: "quiet k (send_motor env k act prms)"
  by (auto simp: send_motor_def Let_def case_prod_unfold)

lemma quiet_reflex [intro]: "quiet k (run_reflex env k t s a)"
  by (auto simp: run_reflex_def simp del: u_Cons intro!: quiet_and_then split: option.split reflex_action.split)

lemma quiet_goal_verify [intro]: "quiet k (handle_goal_verify env k p)"
proof -
  have l: "quiet k h \<Longrightarrow> quiet k (logged h)" for h by (simp add: quiet_def)
  show ?thesis
    by (auto simp: handle_goal_verify_def Let_def case_prod_unfold simp del: u_Cons intro!: quiet_and_then l)
qed

lemma quiet_arms [intro]:
  "quiet k (handle_spawn env k msg p)" "quiet k (handle_param_get env k msg p)" "quiet k (handle_meta_assess env k)"
  "quiet k (handle_budget_check env k)" "quiet k (handle_other env k msg)"
  by (auto simp: handle_spawn_def handle_param_get_def handle_meta_assess_def handle_budget_check_def handle_other_def
      Let_def simp del: u_Cons split: option.split)

text \<open>The two arms that write: parameters and the log.\<close>

lemma param_set_node:
  "\<exists>c ps. nh_node (handle_param_set env k msg p) = k\<lparr>kn_params := ps, kn_backpressure := c\<rparr> \<and>
     (ps = kn_params k \<or> (\<exists>key v. ps = ps_set (kn_params k) key v))"
proof -
  let ?k1 = "case get_str p (u ''key'') of Some key \<Rightarrow> (case json_get p (u ''value'') of
      Some v \<Rightarrow> k\<lparr>kn_params := ps_set (kn_params k) key (case from_value env v of Some x \<Rightarrow> x | None \<Rightarrow> PNull)\<rparr>
    | None \<Rightarrow> k) | None \<Rightarrow> k"
  obtain c where c: "nh_node (handle_param_set env k msg p) = ?k1\<lparr>kn_backpressure := c\<rparr>"
    using quiet_forward [of ?k1 env "Relayed msg"] by (auto simp: handle_param_set_def quiet_def Let_def simp del: u_Cons)
  obtain ps where ps: "?k1 = k\<lparr>kn_params := ps\<rparr>" "ps = kn_params k \<or> (\<exists>key v. ps = ps_set (kn_params k) key v)"
    by (rule that [of "kn_params ?k1"]) (auto simp del: u_Cons split: option.split)
  show ?thesis unfolding c ps(1) using ps(2) by blast
qed

lemma sensory_node:
  "\<exists>c s. nh_node (handle_sensory env k msg) = k\<lparr>kn_backpressure := c\<rparr> \<or>
     nh_node (handle_sensory env k msg) =
       k\<lparr>kn_log := log_record (kn_log k) (sensory_entry (wall env) s (topic msg)), kn_backpressure := c\<rparr>"
proof -
  obtain c where c: "nh_node (route_and_forward env k (Relayed msg)) = k\<lparr>kn_backpressure := c\<rparr>"
    using quiet_forward [of k env "Relayed msg"] by (auto simp: quiet_def)
  define s where "s = (case decode_payload env (payload msg) of Some v \<Rightarrow> json_text env v | None \<Rightarrow> [])"
  let ?k = "k\<lparr>kn_backpressure := c, kn_log := log_record (kn_log k) (sensory_entry (wall env) s (topic msg))\<rparr>"
  have "\<exists>c'. nh_node (run_reflex env ?k (topic msg) s (route (kn_router ?k) (topic msg) s)) = ?k\<lparr>kn_backpressure := c'\<rparr>"
    using quiet_reflex [of ?k] by (simp add: quiet_def)
  then show ?thesis by (auto simp: handle_sensory_def Let_def s_def [symmetric] c)
qed


section \<open>The tables do not depend on the heartbeat monitor\<close>

lemma gate_autonomic:
  "sequence_gate (k\<lparr>k_autonomic := a\<rparr>) msg =
     (let (go, k1, errs) = sequence_gate k msg in (go, k1\<lparr>k_autonomic := a\<rparr>, errs))"
  by (auto simp: sequence_gate_def Let_def split: prod.split sum.split sequence_check_result.split)

lemma register_autonomic:
  "k_tables (h_kernel (handle_register e s w i (k\<lparr>k_autonomic := a\<rparr>) ident msg p)) =
     k_tables (h_kernel (handle_register e s w i k ident msg p))"
proof -
  have "enter_tables w (k\<lparr>k_autonomic := a\<rparr>) ident p = (enter_tables w k ident p)\<lparr>k_autonomic := a\<rparr>"
    by (simp add: enter_tables_def Let_def del: u_Cons)
  moreover have "h_kernel (announce_publisher e (k\<lparr>k_autonomic := a\<rparr>) n addr ts) =
      (h_kernel (announce_publisher e k n addr ts))\<lparr>k_autonomic := a\<rparr>"
    "h_ok (announce_publisher e (k\<lparr>k_autonomic := a\<rparr>) n addr ts) = h_ok (announce_publisher e k n addr ts)" for k n addr ts
    by (simp_all add: announce_publisher_def with_broker_def Let_def)
  moreover have "offer_service (k\<lparr>k_autonomic := a\<rparr>) n rep name = (offer_service k n rep name)\<lparr>k_autonomic := a\<rparr>" for k n rep name
    by (simp add: offer_service_def with_broker_def split: option.split)
  ultimately show ?thesis by (simp add: handle_register_def Let_def case_prod_unfold del: u_Cons)
qed

lemma arms_autonomic:
  "k_tables (h_kernel (handle_heartbeat_msg w i (k\<lparr>k_autonomic := a\<rparr>) msg p)) = k_tables (h_kernel (handle_heartbeat_msg w i k msg p))"
  "k_tables (h_kernel (handle_deregister (k\<lparr>k_autonomic := a\<rparr>) p)) = k_tables (h_kernel (handle_deregister k p))"
  "k_tables (h_kernel (handle_service_register (k\<lparr>k_autonomic := a\<rparr>) p)) = k_tables (h_kernel (handle_service_register k p))"
  by (simp_all add: handle_heartbeat_msg_def handle_deregister_def handle_service_register_def with_broker_def Let_def
      del: u_Cons)

lemma handle_incoming_autonomic:
  "map_option (\<lambda>h. k_tables (h_kernel h)) (handle_incoming e s d w i (k\<lparr>k_autonomic := a\<rparr>) ident msg) =
     map_option (\<lambda>h. k_tables (h_kernel h)) (handle_incoming e s d w i k ident msg)"
  by (simp add: handle_incoming_def gate_autonomic Let_def case_prod_unfold register_autonomic arms_autonomic
      del: u_Cons split: option.split)

lemma tables_agree_handle_incoming:
  assumes "tables_agree (k_tables k)" "handle_incoming e s d w i k ident msg = Some h"
  shows "tables_agree (k_tables (h_kernel h))"
proof -
  let ?k = "k\<lparr>k_autonomic := (k_autonomic k)\<lparr>agents := []\<rparr>\<rparr>"
  obtain h' where h': "handle_incoming e s d w i ?k ident msg = Some h'" "k_tables (h_kernel h') = k_tables (h_kernel h)"
    using handle_incoming_autonomic [where a = "(k_autonomic k)\<lparr>agents := []\<rparr>" and k = k and e = e and s = s and d = d
        and w = w and i = i and ident = ident and msg = msg] assms(2)
    by (cases "handle_incoming e s d w i ?k ident msg") auto
  have "kernel_inv ?k" using assms(1) by (simp add: kernel_inv_def)
  from kernel_inv_handle_incoming [OF this h'(1)] show ?thesis by (simp add: kernel_inv_def h'(2))
qed


section \<open>The invariant of the whole kernel\<close>

definition log_inv :: "experience_log \<Rightarrow> bool" where
  "log_inv lg \<longleftrightarrow> log_max_entries lg = 1000 \<and> length (log_entries lg) \<le> 1000 \<and>
     (\<forall>e \<in> set (log_entries lg). ee_result e \<and> ee_action e = u ''sensory_received'')"

definition reflex_inv :: "reflex_router \<Rightarrow> bool" where
  "reflex_inv router \<longleftrightarrow> router_inv router \<and>
     (\<forall>r \<in> set (all_rules router). r \<in> set builtin_reflex_rules \<or>
        rule_level r = L1Trial \<and> rule_action r = u ''sensory_received'')"

definition node_inv :: "token_budget_manager \<Rightarrow> kernel_node \<Rightarrow> bool" where
  "node_inv budget k \<longleftrightarrow> tables_agree (k_tables (kn_kernel k)) \<and> params_inv (kn_params k) \<and> log_inv (kn_log k) \<and>
     reflex_inv (kn_router k) \<and> kn_budget k = budget"

lemma log_inv_record: "log_inv lg \<Longrightarrow> log_inv (log_record lg (sensory_entry now s t))"
proof -
  assume a: "log_inv lg"
  have "length (log_entries (log_record lg e)) \<le> 1000" for e
    using a by (auto simp: log_inv_def log_record_def)
  moreover have "set (log_entries (log_record lg e)) \<subseteq> insert e (set (log_entries lg))" for e
    using list.set_sel(2) [of "log_entries lg"] by (cases "log_entries lg") (auto simp: log_record_def)
  ultimately show ?thesis
    using a by (fastforce simp: log_inv_def sensory_entry_def simp del: u_Cons)
qed

lemma node_inv_quiet: "quiet k h \<Longrightarrow> node_inv b k \<Longrightarrow> node_inv b (nh_node h)"
  by (auto simp: quiet_def node_inv_def)

lemma node_inv_param_set: "node_inv b k \<Longrightarrow> node_inv b (nh_node (handle_param_set env k msg p))"
  using param_set_node [of env k msg p] by (auto simp: node_inv_def pst.put_inv)

lemma node_inv_sensory: "node_inv b k \<Longrightarrow> node_inv b (nh_node (handle_sensory env k msg))"
  using sensory_node [of env k msg] by (auto simp: node_inv_def log_inv_record)

lemma node_inv_arm:
  assumes "node_inv b k"
  shows "node_inv b (nh_node (handle_arm env k msg))"
proof -
  have p: "(\<And>p. node_inv b (nh_node (f p))) \<Longrightarrow>
      node_inv b (nh_node (case decode_payload env (payload msg) of None \<Rightarrow> done_with k [] False | Some p \<Rightarrow> f p))" for f
    using assms by (simp split: option.split)
  note q = node_inv_quiet [OF _ assms]
  show ?thesis
    using assms node_inv_param_set [OF assms] node_inv_sensory [OF assms]
    by (auto simp: handle_arm_def Let_def simp del: u_Cons intro!: p intro: q quiet_arms quiet_goal_verify)
qed

lemma node_inv_message:
  assumes "node_inv b k"
  shows "node_inv b (nh_node (handle_message env k ident msg))"
proof (cases "handle_incoming (\<lambda>out. new_ok env out \<and> enc_ok env (Made out)) (\<lambda>i out. send_ok env i (Made out))
         (decode_payload env) (wall env) (inst env) (kn_kernel k) ident msg")
  case None
  obtain c where "fst (snd (sequence_gate (kn_kernel k) msg)) = (kn_kernel k)\<lparr>k_seq := c\<rparr>"
    using sequence_gate_kernel by blast
  moreover have "node_inv b (k\<lparr>kn_kernel := (kn_kernel k)\<lparr>k_seq := c\<rparr>\<rparr>)" for c
    using assms by (simp add: node_inv_def)
  ultimately show ?thesis
    using None by (simp add: handle_message_def case_prod_unfold node_inv_arm)
next
  case (Some h)
  then show ?thesis
    using assms tables_agree_handle_incoming [OF _ Some] by (simp add: handle_message_def node_inv_def)
qed

lemma reflex_inv_learn:
  assumes "reflex_inv router" "log_inv lg"
    and "mset (order (group_entries (log_entries lg))) = mset (group_entries (log_entries lg))"
  shows "reflex_inv (learn_tick regex_new escape number order lg router)"
proof -
  have act: "act = u ''sensory_received''" if "(t, act) \<in> learnable lg" for t act
  proof -
    have "filter (\<lambda>e. ee_signal_topic e = t \<and> ee_action e = act \<and> ee_result e) (log_entries lg) \<noteq> []"
      using that by (auto simp: learnable_def)
    then show ?thesis using assms(2) by (auto simp: log_inv_def filter_empty_conv)
  qed
  have "router_inv router" using assms(1) by (simp add: reflex_inv_def)
  from router_inv_learn_tick [OF this] learning_keeps [where order = order and lg = lg, OF this assms(3)] assms(1) show ?thesis
    unfolding reflex_inv_def using act by (fastforce simp del: u_Cons)
qed

lemma node_inv_step: "kernel_step regex_new k k' \<Longrightarrow> node_inv b k \<Longrightarrow> node_inv b k'"
proof (induction rule: kernel_step.induct)
  case (step_message env k ident msg)
  then show ?case by (rule node_inv_message)
next
  case (step_health k now timeout)
  then show ?case
    using tables_agree_health_tick [of "k_tables (kn_kernel k)" now timeout]
    by (simp add: node_inv_def kernel_health_tick_def case_prod_unfold Let_def)
next
  case (step_learn order k escape number)
  then show ?case using reflex_inv_learn [where order = order and lg = "kn_log k", OF _ _ step_learn(1)] by (simp add: node_inv_def)
next
  case (step_restart k now new_id)
  then show ?case by (simp add: node_inv_def)
qed

lemma node_inv_new:
  "node_inv (token_budget_new windows (u ''claude-3.5-sonnet'')) (kernel_node_new regex_new windows secs maxr subagents now)"
proof -
  have "set (all_rules (with_rules regex_new builtin_reflex_rules)) \<subseteq> set builtin_reflex_rules"
    using rules_after_adding [OF router_inv_new, of regex_new builtin_reflex_rules]
    by (auto simp: with_rules_def all_rules_def reflex_router_new_def)
  moreover have "tables_agree (k_tables (kernel_new secs maxr))" using kernel_inv_new by (simp add: kernel_inv_def)
  ultimately show ?thesis
    by (auto simp: node_inv_def kernel_node_new_def params_inv_def param_server_new_def log_inv_def experience_log_new_def
        reflex_inv_def router_inv_with_rules simp del: u_Cons)
qed

lemma node_inv_reach:
  assumes "kernel_reach regex_new (kernel_node_new regex_new windows secs maxr subagents now) k"
  shows "node_inv (token_budget_new windows (u ''claude-3.5-sonnet'')) k"
proof -
  have "(kernel_step regex_new)\<^sup>*\<^sup>* k0 k \<Longrightarrow> node_inv b k0 \<Longrightarrow> node_inv b k" for b k0
    by (induction rule: rtranclp_induct) (auto dest: node_inv_step)
  then show ?thesis using assms node_inv_new unfolding kernel_reach_def by blast
qed

end
