(* ===== verification/Kernel_Props.thy ===== *)
theory Kernel_Props
  imports Kernel_Arms
begin

text \<open>
  What the kernel as a whole guarantees and what it does not: consistency of its state over all runs of the
  main loop, exactness of forwarding, parameters, the limit on sub-agents, the reflex arc, and the checks of
  budget and goals that no run can fail.
\<close>

section \<open>Concrete kernels\<close>

definition calm :: "json \<Rightarrow> kernel_env" where
  "calm p = \<lparr>new_ok = (\<lambda>out. True), enc_ok = (\<lambda>p. True), send_ok = (\<lambda>i p. True), decode_payload = (\<lambda>b. Some p),
     from_value = (\<lambda>v. Some (PInteger 1)), to_value = (\<lambda>v. JNull), json_text = (\<lambda>v. u ''x''), fresh_id = u ''f'',
     default_model = u ''m'', wall = 0, inst = 0\<rparr>"

definition start :: kernel_node where
  "start = kernel_node_new any_regex MODEL_CONTEXT_WINDOWS 30 3 10 0"

definition wired :: kernel_node where
  "wired = start\<lparr>kn_kernel := (kernel_new 30 3)\<lparr>k_tables :=
     atomic_register_node 5 kernel_tables_new (u ''n'') Tool [u ''agent/**''] [9]\<rparr>\<rparr>"

lemma wired_targets: "parcel_targets (kn_brk wired) (Relayed task_message) = [([9], u ''n'')]"
proof -
  have "find_targets (k_broker (atomic_register_node 5 kernel_tables_new (u ''n'') Tool [u ''agent/**''] [9])) task_message =
      [([9], u ''n'')]" by code_simp
  then show ?thesis by (simp add: wired_def del: u_Cons)
qed

lemma start_reached:
  "kernel_reach any_regex (kernel_node_new any_regex MODEL_CONTEXT_WINDOWS 30 3 10 0) start"
  "kernel_reach any_regex (kernel_node_new any_regex MODEL_CONTEXT_WINDOWS 30 3 10 0) (nh_node (handle_message env start ident msg))"
  by (simp_all add: kernel_reach_def start_def kernel_step.step_message r_into_rtranclp)

lemma calm_simps [simp]:
  "new_ok (calm p) out" "enc_ok (calm p) q" "send_ok (calm p) i q" "decode_payload (calm p) b = Some p"
  "from_value (calm p) v = Some (PInteger 1)" "to_value (calm p) x = JNull"
  by (simp_all add: calm_def)

section \<open>Forwarding\<close>

lemma send_each_eq:
  "send_each env p ts =
     (map (\<lambda>(i, n). Deliver i p) (take (Suc (length (takeWhile (\<lambda>(i, n). send_ok env i p) ts))) ts),
      \<forall>(i, n) \<in> set ts. send_ok env i p)"
  by (induction ts) (auto simp: apfst_def)

lemma in_parcel_targets:
  "(i, n) \<in> set (parcel_targets b (Relayed msg)) \<longleftrightarrow>
     n \<noteq> src_node (header msg) \<and> get_identity b n = Some i \<and> n \<in> set (find_subscribers b (topic msg))"
  "(i, n) \<in> set (parcel_targets b (Made out)) \<longleftrightarrow>
     n \<noteq> u ''kernel'' \<and> get_identity b n = Some i \<and> n \<in> set (find_subscribers b (o_topic out))"
  by (auto simp: find_targets_def List.map_filter_def get_identity_def image_iff simp del: u_Cons)

text \<open>
  C16. Forwarding reaches the subscribers in order until a send fails. A message that can be encoded is sent to the
  targets of the routing table one after the other up to and including the first that cannot be
  reached; the operation succeeds exactly when all can, and one unreachable node cuts off all behind it.
\<close>

theorem forward_stops_at_first_failure:
  assumes "enc_ok env p"
  shows "nh_effects (route_and_forward env k p) =
      (case get_delay (kn_backpressure k) of Some d \<Rightarrow> [Sleep d] | None \<Rightarrow> []) @
      map (\<lambda>(i, n). Deliver i p)
        (take (Suc (length (takeWhile (\<lambda>(i, n). send_ok env i p) (parcel_targets (kn_brk k) p)))) (parcel_targets (kn_brk k) p)) \<and>
    (nh_ok (route_and_forward env k p) \<longleftrightarrow> (\<forall>(i, n) \<in> set (parcel_targets (kn_brk k) p). send_ok env i p))"
  using assms by (simp add: route_and_forward_def Let_def send_each_eq)

theorem forward_stops_at_first_failure_witness:
  "nh_effects (route_and_forward (calm JNull) wired (Relayed task_message)) = [Deliver [9] (Relayed task_message)]"
proof -
  have "get_delay (kn_backpressure wired) = None"
    by (simp add: wired_def start_def kernel_node_new_def controller_new_def get_delay_def get_level_def)
  with forward_stops_at_first_failure [of "calm JNull" "Relayed task_message" wired] show ?thesis
    unfolding wired_targets by simp
qed

section \<open>Consistency over all runs\<close>

text \<open>
  C8. The state of the kernel is consistent in every run of its main loop. Whatever messages arrive, in whatever
  order with health checks, learning steps and restarts, and whatever fails to decode, encode or send:
  registry and broker know the same nodes and are well formed, every subscription the registry knows is
  routed, reflex rules are filed under their topics with compiled patterns, parameter names are unique and the
  log holds at most a thousand entries.
\<close>

theorem kernel_state_consistent:
  assumes "kernel_reach regex_new (kernel_node_new regex_new windows secs maxr subagents now) k"
  shows "broker_inv (kn_brk k) \<and> registry_inv (k_reg (kn_kernel k)) \<and>
    dom (map_of (k_reg (kn_kernel k))) = dom (map_of (node_identities (kn_brk k))) \<and>
    set (reg_find_subscribers (k_reg (kn_kernel k)) t) \<subseteq> set (find_subscribers (kn_brk k) t) \<and>
    router_inv (kn_router k) \<and> distinct (map fst (params (kn_params k))) \<and> length (log_entries (kn_log k)) \<le> 1000"
proof -
  have i: "node_inv (token_budget_new windows (u ''claude-3.5-sonnet'')) k" using assms by (rule node_inv_reach)
  then have t: "tables_agree (k_tables (kn_kernel k))" by (simp add: node_inv_def)
  then have "set (reg_find_subscribers (k_reg (kn_kernel k)) t) \<subseteq> set (find_subscribers (kn_brk k) t)"
    using reg.find_exact [of "k_reg (kn_kernel k)" t] bkr.find_exact [of "kn_brk k" t] by (auto simp: tables_agree_def)
  with i t show ?thesis by (auto simp: node_inv_def tables_agree_def params_inv_def log_inv_def reflex_inv_def)
qed

theorem kernel_state_consistent_witness:
  "length (log_entries (kn_log (nh_node (handle_message (calm hello_payload) start [9] hello)))) \<le> 1000"
  using kernel_state_consistent [OF start_reached(2), of "calm hello_payload" "[9]" hello] by blast

section \<open>The reflex arc\<close>

lemma builtin_actions: "r \<in> set builtin_reflex_rules \<Longrightarrow> \<exists>prms. action_of r = Direct (u ''kernel/log'') prms"
  by (auto simp: builtin_reflex_rules_def log_rule_def action_of_def simp del: u_Cons)

text \<open>
  C10. No reflex ever moves anything. In every reachable state a signal is answered by nothing, by a log line, or
  by a trial of the action \<^verbatim>\<open>sensory_received\<close>, which is the name under which the kernel itself logs the
  arrival of every signal: the only thing it can learn is its own bookkeeping.
\<close>

theorem reflexes_only_log:
  assumes "kernel_reach regex_new (kernel_node_new regex_new windows secs maxr subagents now) k"
    and "route (kn_router k) t p = Some a"
  shows "(\<exists>prms. a = Direct (u ''kernel/log'') prms) \<or> (\<exists>prms. a = Trial (u ''sensory_received'') prms)"
proof -
  have i: "reflex_inv (kn_router k)" using node_inv_reach [OF assms(1)] by (simp add: node_inv_def)
  then obtain r where r: "r \<in> set (all_rules (kn_router k))" "action_of r = a"
    using route_answers [OF _ assms(2)] by (auto simp: reflex_inv_def)
  from i r(1) consider "r \<in> set builtin_reflex_rules" | "rule_level r = L1Trial" "rule_action r = u ''sensory_received''"
    by (auto simp: reflex_inv_def simp del: u_Cons)
  then show ?thesis using builtin_actions r(2) by cases (auto simp: action_of_def simp del: u_Cons)
qed

theorem reflexes_only_log_witness:
  "\<exists>a. route (kn_router start) (u ''sensory/eye/read'') (u ''x'') = Some a \<and>
     ((\<exists>prms. a = Direct (u ''kernel/log'') prms) \<or> (\<exists>prms. a = Trial (u ''sensory_received'') prms))"
proof -
  have "route (with_rules any_regex builtin_reflex_rules) (u ''sensory/eye/read'') (u ''x'') \<noteq> None" by code_simp
  then obtain a where a: "route (kn_router start) (u ''sensory/eye/read'') (u ''x'') = Some a"
    by (auto simp: start_def kernel_node_new_def simp del: u_Cons)
  from reflexes_only_log [OF start_reached(1) a] a show ?thesis by blast
qed

section \<open>Checks that cannot fail\<close>

lemma sonnet_window:
  assumes "mset windows = mset MODEL_CONTEXT_WINDOWS"
  shows "context_window (token_budget_new windows (u ''claude-3.5-sonnet'')) = 200000"
proof -
  have "distinct (map fst MODEL_CONTEXT_WINDOWS)" by (simp add: MODEL_CONTEXT_WINDOWS_def)
  moreover have "mset (map fst windows) = mset (map fst MODEL_CONTEXT_WINDOWS)" using assms by simp
  ultimately have d: "distinct (map fst windows)" using mset_eq_imp_distinct_iff by blast
  have "(u ''claude-3.5-sonnet'', 200000) \<in> set windows"
    unfolding mset_eq_setD [OF assms] by (simp add: MODEL_CONTEXT_WINDOWS_def)
  then have "map_of windows (u ''claude-3.5-sonnet'') = Some 200000" using d by simp
  then show ?thesis by (simp add: token_budget_new_def resolve_context_window_def del: u_Cons)
qed

text \<open>
  The budget check never refuses. The kernel's token budget is the one it was created with in every
  reachable state, and it fits the thousand tokens asked for, so the check answers nothing and changes nothing.
\<close>

theorem budget_check_never_refuses:
  assumes "mset windows = mset MODEL_CONTEXT_WINDOWS"
    and "kernel_reach regex_new (kernel_node_new regex_new windows secs maxr subagents now) k"
  shows "handle_budget_check env k = done_with k [] True"
proof -
  let ?b = "token_budget_new windows (u ''claude-3.5-sonnet'')"
  have "kn_budget k = ?b" using node_inv_reach [OF assms(2)] by (simp add: node_inv_def)
  moreover have w: "context_window ?b = 200000" using assms(1) by (rule sonnet_window)
  moreover have "tokens_used ?b = 0" by (simp add: token_budget_new_def)
  moreover from w this have "can_fit ?b 1000" using budget_exact [of ?b 1000] by simp
  ultimately show ?thesis by (simp add: handle_budget_check_def)
qed

theorem budget_check_never_refuses_witness:
  "handle_budget_check (calm JNull) start = done_with start [] True"
  by (rule budget_check_never_refuses [OF refl start_reached(1)])

text \<open>The summary of a log in which everything succeeded.\<close>

lemma join_same: "join_with (u '','') (replicate (Suc n) w) = w @ concat (replicate n (u '','' @ w))"
  by (induction n) auto

lemma successes:
  assumes "log_inv lg" "log_entries lg \<noteq> []"
  shows "\<exists>r. recent_outcome_summary lg = u ''success'' @ r"
proof -
  let ?es = "take 5 (rev (log_entries lg))"
  have "\<forall>e \<in> set ?es. ee_result e" using assms(1) by (auto simp: log_inv_def dest: in_set_takeD)
  then have "map (\<lambda>e. if ee_result e then u ''success'' else u ''failure'') ?es = map (\<lambda>e. u ''success'') ?es"
    by (intro map_cong) auto
  also have "\<dots> = replicate (length ?es) (u ''success'')" by (simp add: map_replicate_const)
  finally have m: "recent_outcome_summary lg = join_with (u '','') (replicate (length ?es) (u ''success''))"
    by (simp add: recent_outcome_summary_def del: u_Cons)
  have "length ?es \<noteq> 0" using assms(2) by (simp add: min_def)
  then obtain n where "length ?es = Suc n" using not0_implies_Suc by blast
  then show ?thesis unfolding m by (simp only: join_same) blast
qed

lemma sensory_logs:
  assumes "nh_ok (route_and_forward env k (Relayed msg))"
  shows "log_entries (kn_log (nh_node (handle_sensory env k msg))) \<noteq> []"
proof -
  obtain c where c: "nh_node (route_and_forward env k (Relayed msg)) = k\<lparr>kn_backpressure := c\<rparr>"
    using quiet_forward [of k env "Relayed msg"] by (auto simp: quiet_def)
  have "kn_log (nh_node (run_reflex env k' t s a)) = kn_log k'" for k' t s a
    using quiet_reflex [of k' env t s a] by (auto simp: quiet_def)
  then show ?thesis using assms by (simp add: handle_sensory_def Let_def c log_record_def)
qed

lemma starts_contains: "contains (p @ r) p"
  by (auto simp: contains_iff intro: exI [of _ "[]"])

text \<open>
  C9. Goal verification passes without looking at the goal. Once the kernel has seen a single sensory signal,
  every request to verify a sub-task with a condition is answered with "passed", whatever the condition,
  the sub-task and the history: the answer is read off the kernel's own log, which records every
  arriving signal as a success.
\<close>

theorem goal_verification_always_passes:
  assumes "kernel_reach regex_new (kernel_node_new regex_new windows secs maxr subagents now) k"
    and "log_entries (kn_log k) \<noteq> []"
    and "topic msg = u ''cortex/goal_verify''" "decode_payload env (payload msg) = Some p"
    and "verify_request p = (agent, subtask, verification)" "verification \<noteq> []"
  shows "\<exists>reasoning. handle_arm env k msg = announce_logged env k (verify_result True subtask verification reasoning)"
proof -
  have "log_inv (kn_log k)" using node_inv_reach [OF assms(1)] by (simp add: node_inv_def)
  from successes [OF this assms(2)] obtain r where r: "recent_outcome_summary (kn_log k) = u ''success'' @ r" by blast
  have "quick_pass verification (u ''success'' @ r)"
    using assms(6) starts_contains [of "u ''success''" r] by (simp add: quick_pass_def del: u_Cons)
  then have v: "handle_goal_verify env k p = announce_logged env k (verify_result True subtask verification
      ([32463, 39564, 26085, 24535, 24555, 36895, 39564, 35777, 65306] @ u ''success'' @ r))"
    by (simp add: handle_goal_verify_def assms(5) r Let_def del: u_Cons)
  have "handle_arm env k msg = handle_goal_verify env k p"
    using assms(3,4) by (simp add: handle_arm_def Let_def ends_with_def param_set_def param_get_def)
  then show ?thesis unfolding v by blast
qed


definition smell :: message where
  "smell = hello\<lparr>topic := u ''sensory/nose''\<rparr>"

definition verify_message :: message where
  "verify_message = hello\<lparr>topic := u ''cortex/goal_verify''\<rparr>"

lemma smell_logged: "log_entries (kn_log (nh_node (handle_message (calm p) start [9] smell))) \<noteq> []"
proof -
  let ?k = "start\<lparr>kn_kernel := fst (snd (sequence_gate (kn_kernel start) smell))\<rparr>"
  have go: "fst (sequence_gate (kernel_new 30 3) smell)"
    by (simp add: sequence_gate_def seq_check_def kernel_new_def sequence_checker_new_def)
  have k: "kn_kernel start = kernel_new 30 3" by (simp add: start_def kernel_node_new_def)
  have t: "topic smell = u ''sensory/nose''" by (simp add: smell_def)
  have "handle_incoming e s d w i (kernel_new 30 3) [9] smell = None" for e s d w i
    using go by (simp add: handle_incoming_def Let_def case_prod_unfold t ends_with_def is_service_def
        sys_register_def sys_heartbeat_def sys_deregister_def)
  then have m: "nh_node (handle_message (calm p) start [9] smell) = nh_node (handle_arm (calm p) ?k smell)"
    by (simp add: handle_message_def k case_prod_unfold Let_def)
  have "handle_arm (calm p) ?k smell = handle_sensory (calm p) ?k smell"
    by (simp add: handle_arm_def Let_def t ends_with_def param_set_def param_get_def)
  moreover have "nh_ok (route_and_forward (calm p) ?k (Relayed smell))"
    by (simp add: route_and_forward_def Let_def send_each_eq del: parcel_targets.simps)
  ultimately show ?thesis using sensory_logs [of "calm p" ?k smell] by (simp add: m)
qed

theorem goal_verification_always_passes_witness:
  "\<exists>reasoning. handle_arm (calm (JObject [(u ''verification'', JString (u ''the tests pass''))]))
      (nh_node (handle_message (calm JNull) start [9] smell)) verify_message =
    announce_logged (calm (JObject [(u ''verification'', JString (u ''the tests pass''))]))
      (nh_node (handle_message (calm JNull) start [9] smell)) (verify_result True [] (u ''the tests pass'') reasoning)"
proof -
  let ?p = "JObject [(u ''verification'', JString (u ''the tests pass''))]"
  have v: "verify_request ?p = ([], [], u ''the tests pass'')" by code_simp
  have t: "topic verify_message = u ''cortex/goal_verify''" by (simp add: verify_message_def)
  show ?thesis
    by (rule goal_verification_always_passes [OF start_reached(2) smell_logged t calm_simps(4) v]) simp
qed

section \<open>Parameters and sub-agents\<close>

text \<open>
  A parameter that was set is answered, but not to who asked. A query for a name that was just set makes a reply
  with the value that was set, and the reply goes to the subscribers of \<^verbatim>\<open>param/changed\<close> only: a node that has
  not subscribed to that topic gets no answer to its own query.
\<close>

theorem param_reply_goes_to_subscribers:
  assumes "get_str p (u ''key'') = Some key" "json_get p (u ''value'') = Some v" "from_value env v = Some x"
    and "get_str q (u ''key'') = Some key" "new_ok env' reply"
    and "reply = \<lparr>o_topic = param_changed, o_reply_to = Some (msg_id (header query)),
           o_payload = JObject [(u ''key'', JString key), (u ''value'', to_value env' x)]\<rparr>"
    and "k' = nh_node (handle_param_set env k msg p)"
  shows "handle_param_get env' k' query q = route_and_forward env' k' (Made reply) \<and>
    (\<forall>i parcel. Deliver i parcel \<in> set (nh_effects (handle_param_get env' k' query q)) \<longrightarrow>
       parcel = Made reply \<and> (\<exists>n \<in> set (find_subscribers (kn_brk k') param_changed). get_identity (kn_brk k') n = Some i))"
proof -
  let ?k1 = "k\<lparr>kn_params := ps_set (kn_params k) key x\<rparr>"
  have "k' = nh_node (route_and_forward env ?k1 (Relayed msg))"
    using assms(1-3,7) by (simp add: handle_param_set_def Let_def del: u_Cons)
  then obtain c where "k' = ?k1\<lparr>kn_backpressure := c\<rparr>"
    using quiet_forward [of ?k1 env "Relayed msg"] by (auto simp: quiet_def)
  then have "ps_get (kn_params k') key = Some x" by (simp add: pst.get_put)
  then have g: "handle_param_get env' k' query q = route_and_forward env' k' (Made reply)"
    using assms(4-6) by (simp add: handle_param_get_def str_or_def announce_made_def Let_def del: u_Cons)
  moreover have "parcel = Made reply \<and> (\<exists>n \<in> set (find_subscribers (kn_brk k') param_changed). get_identity (kn_brk k') n = Some i)"
    if "Deliver i parcel \<in> set (nh_effects (route_and_forward env' k' (Made reply)))" for i parcel
  proof -
    have "parcel = Made reply \<and> (\<exists>n. (i, n) \<in> set (parcel_targets (kn_brk k') (Made reply)))"
      using that by (auto simp: route_and_forward_def Let_def send_each_eq dest!: in_set_takeD
          simp del: parcel_targets.simps split: if_splits option.splits)
    then show ?thesis unfolding in_parcel_targets using assms(6) by auto
  qed
  ultimately show ?thesis by simp
qed

theorem param_reply_goes_to_subscribers_witness:
  "\<exists>reply. handle_param_get (calm JNull)
      (nh_node (handle_param_set (calm JNull) wired hello (JObject [(u ''key'', JString (u ''k'')), (u ''value'', JNull)])))
      hello (JObject [(u ''key'', JString (u ''k''))]) =
    route_and_forward (calm JNull)
      (nh_node (handle_param_set (calm JNull) wired hello (JObject [(u ''key'', JString (u ''k'')), (u ''value'', JNull)])))
      (Made reply)"
proof -
  have "get_str (JObject [(u ''key'', JString (u ''k'')), (u ''value'', JNull)]) (u ''key'') = Some (u ''k'')"
    "json_get (JObject [(u ''key'', JString (u ''k'')), (u ''value'', JNull)]) (u ''value'') = Some JNull"
    "get_str (JObject [(u ''key'', JString (u ''k''))]) (u ''key'') = Some (u ''k'')" by code_simp+
  from param_reply_goes_to_subscribers [OF this(1,2) _ this(3) _ refl refl, of "calm JNull" "PInteger 1" "calm JNull" hello wired hello]
  show ?thesis by (simp del: u_Cons) blast
qed

definition spawns :: "node_effect list \<Rightarrow> nat" where
  "spawns es = length (filter (\<lambda>e. case e of Spawn_Subagent _ _ _ _ _ \<Rightarrow> True | _ \<Rightarrow> False) es)"

fun handle_all :: "kernel_env \<Rightarrow> kernel_node \<Rightarrow> identity \<Rightarrow> message list \<Rightarrow> kernel_node \<times> node_effect list" where
  "handle_all env k ident [] = (k, [])"
| "handle_all env k ident (msg # msgs) =
     (let h = handle_message env k ident msg; (k', es) = handle_all env (nh_node h) ident msgs
      in (k', nh_effects h @ es))"

lemma spawns_simps [simp]:
  "spawns [] = 0" "spawns (a @ b) = spawns a + spawns b" "spawns (map Base es) = 0" "spawns (Base e # a) = spawns a"
  by (simp_all add: spawns_def filter_empty_conv)

abbreviation registered_agents :: "kernel_node \<Rightarrow> nat" where
  "registered_agents k \<equiv> length (find_by_type (k_reg (kn_kernel k)) Agent)"

text \<open>A spawn request leaves all of the kernel as it is but the sequence checker.\<close>

lemma handle_spawn_message:
  fixes k :: kernel_node and msg :: message
  assumes "ends_with (topic msg) (u ''/spawn'')" "decode_payload env (payload msg) \<noteq> None"
  defines "go \<equiv> (case get_last_sequence (k_seq (kn_kernel k)) (src_node (header msg)) of
      None \<Rightarrow> True | Some l \<Rightarrow> l < sequence (header msg))"
  shows "\<exists>c. nh_node (handle_message env k ident msg) = k\<lparr>kn_kernel := (kn_kernel k)\<lparr>k_seq := c\<rparr>\<rparr> \<and>
      get_last_sequence c (src_node (header msg)) =
        (if go then Some (sequence (header msg)) else get_last_sequence (k_seq (kn_kernel k)) (src_node (header msg)))"
    "spawns (nh_effects (handle_message env k ident msg)) = (if go \<and> registered_agents k < max_subagents k then 1 else 0)"
proof -
  let ?c = "snd (seq_check (k_seq (kn_kernel k)) (src_node (header msg)) (sequence (header msg)))"
  let ?k = "k\<lparr>kn_kernel := (kn_kernel k)\<lparr>k_seq := ?c\<rparr>\<rparr>"
  obtain p where p: "decode_payload env (payload msg) = Some p" using assms(2) by auto
  have t: "topic msg \<noteq> sys_register" "topic msg \<noteq> sys_heartbeat" "topic msg \<noteq> sys_deregister"
    using assms(1) by (auto simp: ends_with_def sys_register_def sys_heartbeat_def sys_deregister_def)
  have "\<exists>errs. sequence_gate (kn_kernel k) msg = (go, (kn_kernel k)\<lparr>k_seq := ?c\<rparr>, errs)"
  proof -
    obtain r c where rc: "seq_check (k_seq (kn_kernel k)) (src_node (header msg)) (sequence (header msg)) = (r, c)"
      by (cases "seq_check (k_seq (kn_kernel k)) (src_node (header msg)) (sequence (header msg))")
    have "go \<longleftrightarrow> (\<exists>ok. r = Inr ok)"
      using seq_check_accepts_iff [of "k_seq (kn_kernel k)" "src_node (header msg)" "sequence (header msg)"]
      by (simp add: rc go_def get_last_sequence_def)
    then show ?thesis using t(1)
      by (cases r) (auto simp: sequence_gate_def rc split: sequence_check_result.split)
  qed
  then obtain errs where g: "sequence_gate (kn_kernel k) msg = (go, (kn_kernel k)\<lparr>k_seq := ?c\<rparr>, errs)" by blast
  have h: "handle_message env k ident msg =
      (if go then and_then (done_with ?k (map Base (Record_Received # errs)) True) (\<lambda>k. handle_spawn env k msg p)
       else done_with ?k (map Base (Record_Received # errs)) True)"
    using t assms(1) p by (simp add: handle_message_def handle_incoming_def g handle_arm_def Let_def del: u_Cons)
  have n: "nh_node (handle_spawn env ?k msg p) = ?k" by (simp add: handle_spawn_def Let_def del: u_Cons)
  have s: "spawns (nh_effects (handle_spawn env ?k msg p)) = (if registered_agents k < max_subagents k then 1 else 0)"
    by (simp add: handle_spawn_def Let_def spawns_def del: u_Cons)
  show "\<exists>c. nh_node (handle_message env k ident msg) = k\<lparr>kn_kernel := (kn_kernel k)\<lparr>k_seq := c\<rparr>\<rparr> \<and>
      get_last_sequence c (src_node (header msg)) =
        (if go then Some (sequence (header msg)) else get_last_sequence (k_seq (kn_kernel k)) (src_node (header msg)))"
    using n by (intro exI [of _ ?c]) (simp add: h get_last_sequence_def seq_check_state go_def)
  show "spawns (nh_effects (handle_message env k ident msg)) = (if go \<and> registered_agents k < max_subagents k then 1 else 0)"
    using s by (simp add: h and_then_effects)
qed

text \<open>
  C21. The limit on sub-agents counts registered nodes only. While fewer agents than the limit are registered, a node
  that sends spawn requests in a row gets one agent for each of them that the sequence check lets through, whatever
  their number: exactly those whose number is larger than all before. Starting a sub-agent changes nothing
  the next request looks at. Once the limit is reached by registered agents, none is started.
\<close>

theorem spawn_limit_lags:
  assumes "\<And>msg. msg \<in> set msgs \<Longrightarrow> ends_with (topic msg) (u ''/spawn'') \<and> decode_payload env (payload msg) \<noteq> None \<and>
      src_node (header msg) = n"
  shows "spawns (snd (handle_all env k ident msgs)) =
    (if length (find_by_type (k_reg (kn_kernel k)) Agent) < max_subagents k
     then length (new_maxima (get_last_sequence (k_seq (kn_kernel k)) n) (map (\<lambda>msg. sequence (header msg)) msgs)) else 0)"
  using assms
proof (induction msgs arbitrary: k)
  case (Cons msg msgs)
  have m: "ends_with (topic msg) (u ''/spawn'')" "decode_payload env (payload msg) \<noteq> None" "src_node (header msg) = n"
    using Cons.prems [of msg] by auto
  obtain c where c: "nh_node (handle_message env k ident msg) = k\<lparr>kn_kernel := (kn_kernel k)\<lparr>k_seq := c\<rparr>\<rparr>"
    "get_last_sequence c n = (if (case get_last_sequence (k_seq (kn_kernel k)) n of None \<Rightarrow> True | Some l \<Rightarrow> l < sequence (header msg))
       then Some (sequence (header msg)) else get_last_sequence (k_seq (kn_kernel k)) n)"
    using handle_spawn_message(1) [OF m(1,2), of k ident] unfolding m(3) by blast
  have "spawns (snd (handle_all env (nh_node (handle_message env k ident msg)) ident msgs)) =
      (if registered_agents k < max_subagents k then length (new_maxima (get_last_sequence c n) (map (\<lambda>msg. sequence (header msg)) msgs)) else 0)"
    using Cons.IH [of "nh_node (handle_message env k ident msg)"] Cons.prems unfolding c(1) by simp
  then show ?case
    using handle_spawn_message(2) [OF m(1,2), of k ident] unfolding m(3)
    by (simp add: Let_def case_prod_unfold c(2) del: u_Cons)
qed simp

definition spawn_message :: "nat \<Rightarrow> message" where
  "spawn_message i = hello\<lparr>topic := u ''agent/a/spawn'', header := (header hello)\<lparr>sequence := i\<rparr>\<rparr>"

text \<open>Twelve requests and a repeated one start twelve agents where ten are allowed.\<close>

theorem spawn_limit_lags_witness:
  "max_subagents start = 10 \<and> spawns (snd (handle_all (calm JNull) start [9] (map spawn_message ([0..<12] @ [5])))) = 12"
proof
  have e: "ends_with (topic msg) (u ''/spawn'') \<and> decode_payload (calm JNull) (payload msg) \<noteq> None \<and>
      src_node (header msg) = src_node (header hello)" if "msg \<in> set (map spawn_message ([0..<12] @ [5]))" for msg
    using that by (auto simp: spawn_message_def ends_with_def)
  have q: "map (\<lambda>msg. sequence (header msg)) (map spawn_message ([0..<12] @ [5])) = [0..<12] @ [5]"
    by (simp add: spawn_message_def comp_def)
  have "length (find_by_type (k_reg (kn_kernel start)) Agent) < max_subagents start"
    "get_last_sequence (k_seq (kn_kernel start)) n = None" for n
    by (simp_all add: start_def kernel_node_new_def kernel_new_def kernel_tables_new_def registry_new_def find_by_type_def
        get_last_sequence_def sequence_checker_new_def)
  with spawn_limit_lags [of "map spawn_message ([0..<12] @ [5])" "calm JNull" "src_node (header hello)" start "[9]", OF e]
  show "spawns (snd (handle_all (calm JNull) start [9] (map spawn_message ([0..<12] @ [5])))) = 12"
    unfolding q by (simp add: upt_rec del: upt_Suc)
  show "max_subagents start = 10" by (simp add: start_def kernel_node_new_def)
qed

end
