(* ===== verification/Goal_Loop.thy ===== *)
theory Goal_Loop
  imports UString Prelude
begin

text \<open>
  The goal loop of an agent, \<^verbatim>\<open>crates/codegen/ccore/src/agent/goal_loop.rs\<close>: a goal is split into sub-tasks
  which are executed and verified one after the other; and the step at the end of a turn that drives
  it (\<^verbatim>\<open>node/thinker/mod.rs\<close> and \<^verbatim>\<open>node/thinker/goal.rs\<close>). What the agent parsed from the answer of the
  model is an input. Counters are 32-bit.
\<close>

section \<open>Goals\<close>

datatype goal_state = Planning | ExecutingSubtask | VerifyingSubtask | GoalCompleted | GoalFailed

datatype sub_task_state = Pending | InProgress | Done | SubFailed

record sub_task =
  st_description :: ustr
  st_state :: sub_task_state
  st_verification :: ustr
  attempts :: nat
  max_retries :: nat

datatype exit_condition =
    AllSubTasksComplete
  | TestsPass ustr "ustr option"
  | LlmEval ustr
  | AllOf "exit_condition list"

record goal_spec =
  gs_description :: ustr
  exit_conditions :: "exit_condition list"
  subtasks :: "sub_task list"
  max_total_turns :: nat
  max_subtask_turns :: nat

datatype goal_done_reason =
    AllComplete
  | ExitConditionMet ustr
  | TotalTurnsExhausted
  | SubTaskTurnsExhausted ustr
  | CriticalSubTaskFailed ustr
  | UserCancelled

datatype goal_action =
    ExecuteSubTask ustr
  | VerifySubTask ustr
  | GoalComplete goal_done_reason
  | SubTaskFailed nat bool

record goal_loop =
  gl_spec :: goal_spec
  gl_state :: goal_state
  current_subtask_idx :: nat
  total_turns :: nat
  subtask_turns :: nat
  created_at :: nat
  done_reason :: "goal_done_reason option"

abbreviation tasks :: "goal_loop \<Rightarrow> sub_task list" where
  "tasks g \<equiv> subtasks (gl_spec g)"

definition goal_new :: "nat \<Rightarrow> goal_spec \<Rightarrow> goal_loop" where
  "goal_new now spec = \<lparr>gl_spec = spec, gl_state = Planning, current_subtask_idx = 0, total_turns = 0,
     subtask_turns = 0, created_at = now, done_reason = None\<rparr>"

definition goal_from_description :: "nat \<Rightarrow> ustr \<Rightarrow> goal_loop" where
  "goal_from_description now description = goal_new now
     \<lparr>gs_description = description, exit_conditions = [AllSubTasksComplete], subtasks = [], max_total_turns = 100,
      max_subtask_turns = 20\<rparr>"

definition current_subtask :: "goal_loop \<Rightarrow> sub_task option" where
  "current_subtask g = (if current_subtask_idx g < length (tasks g) then Some (tasks g ! current_subtask_idx g) else None)"

text \<open>\<^verbatim>\<open>get_mut(idx)\<close> and a change of the sub-task, nothing out of range.\<close>

definition change_task :: "nat \<Rightarrow> (sub_task \<Rightarrow> sub_task) \<Rightarrow> goal_loop \<Rightarrow> goal_loop" where
  "change_task i f g = g\<lparr>gl_spec := (gl_spec g)\<lparr>subtasks := (tasks g)[i := f (tasks g ! i)]\<rparr>\<rparr>"

section \<open>Moving on\<close>

definition open_task :: "sub_task \<Rightarrow> bool" where
  "open_task s \<longleftrightarrow> st_state s = Pending \<or> st_state s = InProgress"

definition advance_to_next_subtask :: "goal_loop \<Rightarrow> goal_loop \<times> goal_action" where
  "advance_to_next_subtask g =
     (let finished = (g\<lparr>gl_state := GoalCompleted, done_reason := Some AllComplete\<rparr>, GoalComplete AllComplete)
      in if list_all (\<lambda>s. st_state s = Done) (tasks g) then finished
         else case find (\<lambda>i. open_task (tasks g ! i)) [0..<length (tasks g)] of
                Some i \<Rightarrow>
                  (change_task i (\<lambda>s. s\<lparr>st_state := InProgress\<rparr>)
                     (g\<lparr>current_subtask_idx := i, subtask_turns := 0, gl_state := ExecutingSubtask\<rparr>),
                   ExecuteSubTask (st_description (tasks g ! i)))
              | None \<Rightarrow> finished)"

definition handle_subtask_failure :: "goal_loop \<Rightarrow> goal_loop \<times> goal_action" where
  "handle_subtask_failure g =
     (let i = current_subtask_idx g;
          will_retry = (case current_subtask g of Some s \<Rightarrow> attempts s < max_retries s | None \<Rightarrow> False)
      in if will_retry then
           (change_task i (\<lambda>s. s\<lparr>attempts := inc32 (attempts s)\<rparr>) (g\<lparr>subtask_turns := 0, gl_state := ExecutingSubtask\<rparr>),
            SubTaskFailed i True)
         else advance_to_next_subtask (change_task i (\<lambda>s. s\<lparr>st_state := SubFailed\<rparr>) g))"

section \<open>Callbacks\<close>

text \<open>The name of the missing plan is "planning failed: no sub-tasks".\<close>

definition on_subtasks_planned :: "sub_task list \<Rightarrow> goal_loop \<Rightarrow> goal_loop \<times> goal_action" where
  "on_subtasks_planned ss g =
     (case ss of
        [] \<Rightarrow>
          (let reason = CriticalSubTaskFailed [35268, 21010, 22833, 36133, 65306, 26080, 23376, 20219, 21153]
           in (g\<lparr>gl_state := GoalFailed, done_reason := Some reason\<rparr>, GoalComplete reason))
      | s # _ \<Rightarrow>
          (g\<lparr>gl_spec := (gl_spec g)\<lparr>subtasks := ss\<rparr>, gl_state := ExecutingSubtask, current_subtask_idx := 0,
             subtask_turns := 0\<rparr>, ExecuteSubTask (st_description s)))"

definition on_turn_complete :: "bool \<Rightarrow> goal_loop \<Rightarrow> goal_loop \<times> goal_action" where
  "on_turn_complete success g0 =
     (let g = g0\<lparr>total_turns := inc32 (total_turns g0), subtask_turns := inc32 (subtask_turns g0)\<rparr>
      in if max_total_turns (gl_spec g) \<le> total_turns g then
           (g\<lparr>gl_state := GoalFailed, done_reason := Some TotalTurnsExhausted\<rparr>, GoalComplete TotalTurnsExhausted)
         else if max_subtask_turns (gl_spec g) \<le> subtask_turns g then handle_subtask_failure g
         else if success then
           (let g1 = g\<lparr>gl_state := VerifyingSubtask\<rparr>
            in case current_subtask g1 of
                 Some s \<Rightarrow> (g1, VerifySubTask (st_verification s))
               | None \<Rightarrow> advance_to_next_subtask g1)
         else
           (let g1 = g\<lparr>gl_state := ExecutingSubtask\<rparr>
            in case current_subtask g1 of
                 Some s \<Rightarrow> (g1, ExecuteSubTask (st_description s))
               | None \<Rightarrow> advance_to_next_subtask g1))"

definition on_verification_result :: "bool \<Rightarrow> goal_loop \<Rightarrow> goal_loop \<times> goal_action" where
  "on_verification_result passed g =
     (let i = current_subtask_idx g
      in if passed then advance_to_next_subtask (change_task i (\<lambda>s. s\<lparr>st_state := Done\<rparr>) g)
         else handle_subtask_failure (change_task i (\<lambda>s.
                let s1 = s\<lparr>attempts := inc32 (attempts s)\<rparr>
                in if max_retries s1 \<le> attempts s1 then s1\<lparr>st_state := SubFailed\<rparr> else s1) g))"

definition goal_cancel :: "goal_loop \<Rightarrow> goal_loop \<times> goal_action" where
  "goal_cancel g = (g\<lparr>gl_state := GoalFailed, done_reason := Some UserCancelled\<rparr>, GoalComplete UserCancelled)"

definition goal_progress :: "goal_loop \<Rightarrow> nat \<times> nat" where
  "goal_progress g = (length (filter (\<lambda>s. st_state s = Done) (tasks g)), length (tasks g))"

definition check_exit_conditions :: "goal_loop \<Rightarrow> bool list \<Rightarrow> bool" where
  "check_exit_conditions g results \<longleftrightarrow>
     length results = length (exit_conditions (gl_spec g)) \<and> list_all (\<lambda>r. r) results"

record goal_loop_snapshot =
  gn_state :: goal_state
  gn_current_subtask_idx :: nat
  gn_total_turns :: nat
  gn_subtask_turns :: nat
  gn_spec :: goal_spec
  gn_done_reason :: "goal_done_reason option"

definition goal_to_snapshot :: "goal_loop \<Rightarrow> goal_loop_snapshot" where
  "goal_to_snapshot g = \<lparr>gn_state = gl_state g, gn_current_subtask_idx = current_subtask_idx g,
     gn_total_turns = total_turns g, gn_subtask_turns = subtask_turns g, gn_spec = gl_spec g,
     gn_done_reason = done_reason g\<rparr>"

definition goal_restore :: "nat \<Rightarrow> goal_loop_snapshot \<Rightarrow> goal_loop \<Rightarrow> goal_loop" where
  "goal_restore now snap g = g\<lparr>gl_state := gn_state snap, current_subtask_idx := gn_current_subtask_idx snap,
     total_turns := gn_total_turns snap, subtask_turns := gn_subtask_turns snap, gl_spec := gn_spec snap,
     done_reason := gn_done_reason snap, created_at := now\<rparr>"

section \<open>The end of a turn\<close>

text \<open>
  \<^verbatim>\<open>process_goal_action\<close> drops the loop when the goal is complete. \<open>planned\<close> is what was parsed from the
  last answer of the model, empty if there was none.
\<close>

definition keep_goal :: "goal_loop \<times> goal_action \<Rightarrow> goal_loop option" where
  "keep_goal r = (case snd r of GoalComplete reason \<Rightarrow> None | _ \<Rightarrow> Some (fst r))"

definition goal_turn_end :: "sub_task list \<Rightarrow> bool \<Rightarrow> goal_loop \<Rightarrow> goal_loop option \<times> goal_action list" where
  "goal_turn_end planned success g =
     (let (g1, acts) = (if gl_state g = Planning \<and> planned \<noteq> [] then
                          (let r = on_subtasks_planned planned g in (keep_goal r, [snd r]))
                        else (Some g, []))
      in case g1 of
           None \<Rightarrow> (None, acts)
         | Some g2 \<Rightarrow> (let r = on_turn_complete success g2 in (keep_goal r, acts @ [snd r])))"


section \<open>What the operations keep\<close>

lemma change_task_simps [simp]:
  "total_turns (change_task i f g) = total_turns g" "max_total_turns (gl_spec (change_task i f g)) = max_total_turns (gl_spec g)"
  "subtask_turns (change_task i f g) = subtask_turns g" "current_subtask_idx (change_task i f g) = current_subtask_idx g"
  "max_subtask_turns (gl_spec (change_task i f g)) = max_subtask_turns (gl_spec g)"
  "tasks (change_task i f g) = (tasks g)[i := f (tasks g ! i)]" "gl_state (change_task i f g) = gl_state g"
  by (simp_all add: change_task_def)

lemma advance_keeps [simp]:
  "total_turns (fst (advance_to_next_subtask g)) = total_turns g"
  "max_total_turns (gl_spec (fst (advance_to_next_subtask g))) = max_total_turns (gl_spec g)"
  by (simp_all add: advance_to_next_subtask_def Let_def split: option.split)

lemma failure_keeps [simp]:
  "total_turns (fst (handle_subtask_failure g)) = total_turns g"
  "max_total_turns (gl_spec (fst (handle_subtask_failure g))) = max_total_turns (gl_spec g)"
  by (simp_all add: handle_subtask_failure_def Let_def)

lemma verdict_keeps [simp]:
  "total_turns (fst (on_verification_result b g)) = total_turns g"
  "max_total_turns (gl_spec (fst (on_verification_result b g))) = max_total_turns (gl_spec g)"
  by (simp_all add: on_verification_result_def Let_def)

lemma turn_counts [simp]:
  "total_turns (fst (on_turn_complete b g)) = inc32 (total_turns g)"
  "max_total_turns (gl_spec (fst (on_turn_complete b g))) = max_total_turns (gl_spec g)"
  by (simp_all add: on_turn_complete_def Let_def split: option.split)

section \<open>Runs\<close>

datatype goal_event = Turn bool | Verdict bool

definition goal_feed :: "goal_loop \<Rightarrow> goal_event \<Rightarrow> goal_loop \<times> goal_action" where
  "goal_feed g e = (case e of Turn b \<Rightarrow> on_turn_complete b g | Verdict b \<Rightarrow> on_verification_result b g)"

text \<open>Events are fed until the goal is complete; \<open>None\<close> when they run out before.\<close>

fun goal_run :: "goal_loop \<Rightarrow> goal_event list \<Rightarrow> (goal_loop \<times> goal_done_reason) option" where
  "goal_run g [] = None"
| "goal_run g (e # es) =
     (let r = goal_feed g e in case snd r of GoalComplete reason \<Rightarrow> Some (fst r, reason) | _ \<Rightarrow> goal_run (fst r) es)"

lemma goal_run_ends:
  assumes "max_total_turns (gl_spec g) < 2 ^ 32" "total_turns g < max 1 (max_total_turns (gl_spec g))"
    and "max 1 (max_total_turns (gl_spec g)) \<le> total_turns g + length (filter (\<lambda>e. case e of Turn b \<Rightarrow> True | Verdict b \<Rightarrow> False) es)"
  shows "\<exists>g' reason. goal_run g es = Some (g', reason)"
  using assms
proof (induction es arbitrary: g)
  case (Cons e es)
  show ?case
  proof (cases e)
    case (Turn b)
    have i: "inc32 (total_turns g) = total_turns g + 1" using Cons.prems by (simp add: inc32_def max_def split: if_splits)
    show ?thesis
    proof (cases "max_total_turns (gl_spec g) \<le> total_turns g + 1")
      case True
      then show ?thesis by (simp add: Turn goal_feed_def on_turn_complete_def Let_def i)
    next
      case False
      then have "\<exists>g' reason. goal_run (fst (on_turn_complete b g)) es = Some (g', reason)"
        using Cons.prems by (intro Cons.IH) (simp_all add: i Turn)
      then show ?thesis by (auto simp: Turn goal_feed_def Let_def split: goal_action.split)
    qed
  next
    case (Verdict b)
    then have "\<exists>g' reason. goal_run (fst (on_verification_result b g)) es = Some (g', reason)"
      using Cons.prems by (intro Cons.IH) simp_all
    then show ?thesis by (auto simp: Verdict goal_feed_def Let_def split: goal_action.split)
  qed
qed (simp add: max_def split: if_splits)

section \<open>Failed verifications\<close>

definition after_failures :: "nat \<Rightarrow> goal_loop \<Rightarrow> goal_loop" where
  "after_failures n g = ((\<lambda>g. fst (on_verification_result False g)) ^^ n) g"

lemma failed_verdict:
  assumes "current_subtask g = Some s" "max_retries s < 2 ^ 32" "attempts s + 1 < max_retries s"
  shows "snd (on_verification_result False g) = SubTaskFailed (current_subtask_idx g) True"
    and "current_subtask (fst (on_verification_result False g)) = Some (s\<lparr>attempts := attempts s + 2\<rparr>)"
    and "current_subtask_idx (fst (on_verification_result False g)) = current_subtask_idx g"
proof -
  have i: "current_subtask_idx g < length (tasks g)" "tasks g ! current_subtask_idx g = s"
    using assms(1) by (auto simp: current_subtask_def split: if_splits)
  have inc: "inc32 (attempts s) = attempts s + 1" "inc32 (attempts s + 1) = attempts s + 2"
    using assms(2,3) by (simp_all add: inc32_def)
  show "snd (on_verification_result False g) = SubTaskFailed (current_subtask_idx g) True"
    "current_subtask (fst (on_verification_result False g)) = Some (s\<lparr>attempts := attempts s + 2\<rparr>)"
    "current_subtask_idx (fst (on_verification_result False g)) = current_subtask_idx g"
    using assms(3) i inc
    by (simp_all add: on_verification_result_def handle_subtask_failure_def current_subtask_def change_task_def Let_def)
qed

lemma after_failures_attempts:
  assumes "current_subtask g = Some s" "max_retries s < 2 ^ 32" "attempts s = 0" "n \<le> max_retries s div 2"
  shows "current_subtask (after_failures n g) = Some (s\<lparr>attempts := 2 * n\<rparr>) \<and>
    current_subtask_idx (after_failures n g) = current_subtask_idx g"
  using assms(4)
proof (induction n)
  case 0
  then show ?case using assms(1,3) by (cases s) (simp add: after_failures_def)
next
  case (Suc n)
  then have c: "current_subtask (after_failures n g) = Some (s\<lparr>attempts := 2 * n\<rparr>)" "2 * n + 1 < max_retries s"
    "current_subtask_idx (after_failures n g) = current_subtask_idx g" by auto
  have "after_failures (Suc n) g = fst (on_verification_result False (after_failures n g))" by (simp add: after_failures_def)
  then show ?case using failed_verdict [OF c(1)] assms(2) c(2,3) by simp
qed

section \<open>Properties\<close>

text \<open>
  C22. A goal comes to an end. Whatever the turns and the verdicts are, a goal is complete at the latest when as many
  turns have ended as the goal allows.
\<close>

theorem goal_loop_ends:
  assumes "max_total_turns spec < 2 ^ 32"
    and "max 1 (max_total_turns spec) \<le> length (filter (\<lambda>e. case e of Turn b \<Rightarrow> True | Verdict b \<Rightarrow> False) es)"
  shows "\<exists>g reason. goal_run (goal_new now spec) es = Some (g, reason)"
  using goal_run_ends [of "goal_new now spec" es] assms by (simp add: goal_new_def)

theorem goal_loop_ends_witness:
  "\<exists>g reason. goal_run (goal_from_description 0 []) (replicate 100 (Turn False)) = Some (g, reason)"
proof -
  let ?spec = "\<lparr>gs_description = [], exit_conditions = [AllSubTasksComplete], subtasks = [], max_total_turns = 100, max_subtask_turns = 20\<rparr>"
  show ?thesis unfolding goal_from_description_def by (rule goal_loop_ends) simp_all
qed

lemma find_open_None: "find (\<lambda>i. open_task (ts ! i)) [0..<length ts] = None \<longleftrightarrow> (\<forall>s \<in> set ts. \<not> open_task s)"
  by (auto simp: find_None_iff set_conv_nth)

text \<open>
  A goal is reported complete with failed sub-tasks. Moving on completes the goal with the reason "all complete"
  exactly when no sub-task is open, and a sub-task that failed for good is not open: a goal all of
  whose sub-tasks failed is completed as well.
\<close>

theorem failed_subtasks_complete_goal:
  "snd (advance_to_next_subtask g) = GoalComplete AllComplete \<longleftrightarrow>
     list_all (\<lambda>s. st_state s = Done \<or> st_state s = SubFailed) (tasks g)"
proof -
  have o: "\<not> open_task s \<longleftrightarrow> st_state s = Done \<or> st_state s = SubFailed" for s
    by (cases "st_state s") (simp_all add: open_task_def)
  have n: "list_all (\<lambda>s. st_state s = Done \<or> st_state s = SubFailed) (tasks g) \<longleftrightarrow>
      find (\<lambda>i. open_task (tasks g ! i)) [0..<length (tasks g)] = None"
    unfolding find_open_None o list_all_iff ..
  have d: "list_all (\<lambda>s. st_state s = Done) (tasks g) \<Longrightarrow>
      list_all (\<lambda>s. st_state s = Done \<or> st_state s = SubFailed) (tasks g)" by (auto simp: list_all_iff)
  show ?thesis unfolding n using d [unfolded n]
    by (auto simp: advance_to_next_subtask_def Let_def split: option.split)
qed

text \<open>
  A goal without a plan completes at once. When the model's answer to the planning prompt contains no sub-tasks that can
  be parsed, the end of that same turn completes the goal with the reason "all complete", whether the turn
  went well or not.
\<close>

theorem unplanned_goal_completes:
  "goal_turn_end [] success (goal_from_description now description) = (None, [GoalComplete AllComplete])"
  by (simp add: goal_turn_end_def goal_from_description_def goal_new_def on_turn_complete_def current_subtask_def
      advance_to_next_subtask_def keep_goal_def inc32_def Let_def)

text \<open>
  The first sub-task is verified before it is run. The turn in which the plan is made also counts as the turn of the
  first sub-task: at its end the loop asks for that sub-task and, in the same step, for its verification.
\<close>

theorem planning_turn_counts_as_work:
  assumes "gl_state g = Planning" "total_turns g + 1 < max_total_turns (gl_spec g)" "max_total_turns (gl_spec g) < 2 ^ 32"
    and "1 < max_subtask_turns (gl_spec g)"
  shows "\<exists>g'. goal_turn_end (s # ss) True g =
      (Some g', [ExecuteSubTask (st_description s), VerifySubTask (st_verification s)]) \<and>
    gl_state g' = VerifyingSubtask \<and> tasks g' = s # ss"
proof -
  have "inc32 (total_turns g) = total_turns g + 1" "inc32 0 = 1" using assms by (simp_all add: inc32_def)
  then show ?thesis
    using assms by (simp add: goal_turn_end_def on_subtasks_planned_def keep_goal_def on_turn_complete_def
        current_subtask_def Let_def)
qed

theorem planning_turn_counts_as_work_witness:
  "\<exists>g'. goal_turn_end [\<lparr>st_description = u ''a'', st_state = Pending, st_verification = u ''v'', attempts = 0, max_retries = 2\<rparr>]
     True (goal_from_description 0 []) = (Some g', [ExecuteSubTask (u ''a''), VerifySubTask (u ''v'')])"
proof -
  let ?s = "\<lparr>st_description = u ''a'', st_state = Pending, st_verification = u ''v'', attempts = 0, max_retries = 2\<rparr>"
  have "gl_state (goal_from_description 0 []) = Planning"
    "total_turns (goal_from_description 0 []) + 1 < max_total_turns (gl_spec (goal_from_description 0 []))"
    "max_total_turns (gl_spec (goal_from_description 0 [])) < 2 ^ 32"
    "1 < max_subtask_turns (gl_spec (goal_from_description 0 []))"
    by (simp_all add: goal_from_description_def goal_new_def)
  from planning_turn_counts_as_work [OF this, of ?s "[]"] show ?thesis by auto
qed


text \<open>
  C38. A sub-task gets half of its retries. A failed verification counts two attempts, one in the callback and one in the
  retry: a fresh sub-task that may be retried \<open>m\<close> times is retried after its first \<open>m div 2\<close> failures and
  is given up at the next one.
\<close>

theorem retries_are_halved:
  assumes "current_subtask g = Some s" "max_retries s < 2 ^ 32" "attempts s = 0"
  shows "(n < max_retries s div 2 \<longrightarrow>
      snd (on_verification_result False (after_failures n g)) = SubTaskFailed (current_subtask_idx g) True) \<and>
    (n = max_retries s div 2 \<longrightarrow>
      on_verification_result False (after_failures n g) = advance_to_next_subtask
        (change_task (current_subtask_idx g) (\<lambda>t. t\<lparr>attempts := 2 * n + 1, st_state := SubFailed\<rparr>) (after_failures n g)))"
proof (intro conjI impI)
  assume n: "n < max_retries s div 2"
  then have c: "current_subtask (after_failures n g) = Some (s\<lparr>attempts := 2 * n\<rparr>)"
    "current_subtask_idx (after_failures n g) = current_subtask_idx g"
    using after_failures_attempts [OF assms, of n] by auto
  have "2 * n + 1 < max_retries s" using n by auto
  then show "snd (on_verification_result False (after_failures n g)) = SubTaskFailed (current_subtask_idx g) True"
    using failed_verdict(1) [OF c(1)] assms(2) c(2) by simp
next
  assume n: "n = max_retries s div 2"
  let ?g = "after_failures n g" and ?i = "current_subtask_idx g"
  have c: "current_subtask ?g = Some (s\<lparr>attempts := 2 * n\<rparr>)" "current_subtask_idx ?g = ?i"
    using after_failures_attempts [OF assms, of n] n by auto
  then have i: "?i < length (tasks ?g)" "tasks ?g ! ?i = s\<lparr>attempts := 2 * n\<rparr>"
    by (auto simp: current_subtask_def split: if_splits)
  have "2 * n + 1 < 4294967296" using n assms(2) by simp presburger
  then have m: "max_retries s \<le> 2 * n + 1" "inc32 (2 * n) = 2 * n + 1" using n by (auto simp: inc32_def)
  show "on_verification_result False ?g = advance_to_next_subtask
      (change_task ?i (\<lambda>t. t\<lparr>attempts := 2 * n + 1, st_state := SubFailed\<rparr>) ?g)"
    using i m c(2)
    by (simp add: on_verification_result_def handle_subtask_failure_def current_subtask_def change_task_def Let_def)
qed

theorem retries_are_halved_witness:
  "\<exists>r. on_verification_result False (after_failures 1
     (fst (on_subtasks_planned [\<lparr>st_description = [], st_state = Pending, st_verification = [], attempts = 0, max_retries = 2\<rparr>]
        (goal_from_description 0 [])))) = advance_to_next_subtask r"
proof -
  let ?s = "\<lparr>st_description = [], st_state = Pending, st_verification = [], attempts = 0, max_retries = 2\<rparr>"
  let ?g = "fst (on_subtasks_planned [?s] (goal_from_description 0 []))"
  have "current_subtask ?g = Some ?s" by (simp add: on_subtasks_planned_def current_subtask_def)
  from retries_are_halved [OF this, of 1] show ?thesis by auto
qed

end
