(* ===== verification/Spec2Isabelle.thy ===== *)
theory Spec2Isabelle
  imports Breaker_Conc Hooks Patch_Apply Kernel_Incoming Ack Agent_Loop Context_Window Compact_Select
    Kernel_Props Goal_Loop
begin

text \<open>
  A verification library for the ccode workspace, a coding agent written in Rust. All paths below
  are under \<^verbatim>\<open>src/crates\<close>.

  \<^bold>\<open>The program.\<close> Agents, tools and user interfaces are processes (nodes) on a message bus whose
  centre is the kernel of \<^verbatim>\<open>codegen/ccore\<close>: it registers nodes, routes messages between them and
  watches their health. A model turn of an agent is driven by a state machine that asks for tool
  calls; each call passes hooks and a permission chain (\<^verbatim>\<open>codegen/ccode-hooks\<close>) before it runs. One
  of the tools applies patches to files (\<^verbatim>\<open>codegen/ccode-tools\<close>). Calls to remote services go through
  a circuit breaker (\<^verbatim>\<open>common/ccode-circuit-breaker\<close>).

  \<^bold>\<open>Conventions.\<close> A Rust string is the list of its Unicode scalar values (\<open>UString\<close>: \<open>u ''abc''\<close> is a
  literal; literals in other scripts are spelled by code points); slicing by bytes is in
  \<open>Text_Slices\<close>, UTF-8 in \<open>Frame\<close>. JSON is the datatype of \<open>Json\<close>. A hash map is an association list
  with distinct keys whose order is the order of iteration; theorems hold for every order. Instants
  are nanoseconds and enter an operation once for each reading of the clock. Counters that wrap are
  reduced modulo their width. Doubles are the rationals they denote, and the one operation that
  rounds, the quotient of counts, is rounded to nearest even in \<open>F64\<close>. An error is \<open>Inl\<close> of a sum, a
  panic is \<open>None\<close>. What the program sends and reports (observer callbacks, replies, metrics) is a list of
  effects in the result. Code outside the workspace (MessagePack, regular expressions, lower-case
  tables, the printer of JSON) is a parameter, with the assumption each theorem needs as its
  hypothesis.

  \<^bold>\<open>The theories.\<close>

  \<^item> \<open>Prelude\<close>, \<open>UString\<close>, \<open>Text_Slices\<close>, \<open>Json\<close>, \<open>F64\<close>: shared types, string operations and lemmas.

  \<^item> \<open>Window\<close>, \<open>Breaker\<close>, \<open>Breaker_Props\<close>, \<open>Breaker_Conc\<close> (\<^verbatim>\<open>common/ccode-circuit-breaker/src\<close>:
  \<^verbatim>\<open>window.rs\<close>, \<^verbatim>\<open>state.rs\<close>, \<^verbatim>\<open>config.rs\<close>, \<^verbatim>\<open>breaker.rs\<close>). The window is the record \<open>sliding_window\<close> with
  \<open>sw_push\<close>, \<open>sw_evict\<close> and so on; what the breaker relies on is the locale \<open>sample_window\<close>. The breaker is
  the record \<open>breaker\<close> with \<open>check\<close> and \<open>cb_record\<close>. Shown: an invariant of all runs, refinement of an
  abstract breaker, when it trips (in double arithmetic), how many probes it admits, that it cannot get
  stuck. \<open>Breaker_Conc\<close> cuts the operations at their atomic accesses: a thread alone computes the
  sequential operation, any interleaving of a burst admits at most one probe more than configured, and
  two races are exhibited.

  \<^item> \<open>Permission_Texts\<close>, \<open>Permission_Rules\<close>, \<open>Permission_Chain\<close> (\<^verbatim>\<open>codegen/ccode-hooks/src\<close>:
  \<^verbatim>\<open>permission_rules.rs\<close>, \<^verbatim>\<open>permission_chain.rs\<close>). Glob matching decides the language of the pattern; deny
  rules win; the whole chain allows a call under exactly the stated conditions; what the blacklist
  catches and misses.

  \<^item> \<open>Tool_Alias\<close> (\<^verbatim>\<open>codegen/ccode-tools/src/types/claude_alias.rs\<close>) and \<open>Hooks\<close>
  (\<^verbatim>\<open>event.rs\<close>, \<^verbatim>\<open>matcher.rs\<close>, \<^verbatim>\<open>dispatcher.rs\<close>, \<^verbatim>\<open>result.rs\<close>, lookup of \<^verbatim>\<open>discovery.rs\<close>). When a dispatch blocks a tool
  call or continues a stopped turn, composed with the permission chain; event names and tool names
  translate back and forth.

  \<^item> \<open>Patch_Parser\<close>, \<open>Patch_Apply\<close> (\<^verbatim>\<open>codegen/ccode-tools/src/implementations/codex/apply_patch\<close>). Printing
  and parsing are inverse; the search returns the best match; applied edits are spliced into the file
  and nothing else changes; application never panics.

  \<^item> \<open>Topic\<close>, \<open>Frame\<close>, \<open>Broker\<close>, \<open>Node_Registry\<close>, \<open>Sequence_Check\<close>, \<open>Kernel_Tx\<close>, \<open>Autonomic\<close>,
  \<open>Kernel_Incoming\<close>, \<open>Ack\<close>, \<open>Backpressure\<close> (\<^verbatim>\<open>codegen/ccore/src/message\<close> and \<^verbatim>\<open>codegen/ccore/src/kernel\<close>). Topic
  patterns decide their language within the depth bound; frames round-trip; the broker refines a
  directory of registrations, and routing and discovery are exact; broker and registry are both
  instances of the locale \<open>subscriber_index\<close>, and with the
  parameter server of the locale \<open>key_store\<close> (\<open>Key_Store\<close>); transactions undo registrations; the kernel's handler
  \<open>handle_incoming\<close> keeps its tables in agreement on all paths; restarts, retries, token rates are bounded
  or shown not to be.

  \<^item> \<open>Reflex\<close>, \<open>Experience\<close>, \<open>Param_Server\<close>, \<open>Token_Budget\<close>, \<open>Kernel_Arms\<close>, \<open>Kernel_Props\<close> (\<^verbatim>\<open>codegen/ccore/src\<close>:
  \<^verbatim>\<open>kernel/reflex.rs\<close>, \<^verbatim>\<open>kernel/experience.rs\<close>, \<^verbatim>\<open>message/param.rs\<close>, \<^verbatim>\<open>sampler/token_budget.rs\<close>, \<^verbatim>\<open>kernel/mod.rs\<close>,
  \<^verbatim>\<open>stubs.rs\<close>). The rest of the kernel: the record \<open>kernel_node\<close> adds to the tables of \<open>Kernel_Incoming\<close> the
  parameters, the reflex router, the experience log, the backpressure controller and the token budget;
  \<open>handle_message\<close> is the whole of \<^verbatim>\<open>handle_incoming\<close>, and \<open>kernel_step\<close> a turn of the main loop. Each part alone:
  which rule answers a signal and how results promote or disable it, what is learned from the log, that
  parameters refine a map and searches are exact, that the double arithmetic of the budget is exact. Together:
  the state of every reachable kernel is consistent; what forwarding reaches when a connection fails; and
  what the arms amount to as they are wired, such as a goal verification that passes after any logged signal.

  \<^item> \<open>Goal_Loop\<close> (\<^verbatim>\<open>codegen/ccore/src\<close>: \<^verbatim>\<open>agent/goal_loop.rs\<close>, \<^verbatim>\<open>node/thinker/goal.rs\<close>). A goal always comes to an
  end; how retries are counted, and which goals are reported complete without being so.

  \<^item> \<open>Agent_Loop\<close> (\<^verbatim>\<open>codegen/ccore/src/agent\<close>: \<^verbatim>\<open>doom_loop.rs\<close>, \<^verbatim>\<open>loop_state.rs\<close>). The repetition detector
  is exact; the counters and reasons of the loop are functions of the event history.

  \<^item> \<open>Compact_Text\<close>, \<open>Micro_Compact\<close>, \<open>Compact_Select\<close> (\<^verbatim>\<open>common/ccode-compaction/src\<close>: \<^verbatim>\<open>compactable.rs\<close>,
  \<^verbatim>\<open>snip.rs\<close>, \<^verbatim>\<open>budget.rs\<close>, \<^verbatim>\<open>micro_compact.rs\<close>, \<^verbatim>\<open>cache_aware.rs\<close>, \<^verbatim>\<open>select.rs\<close>, \<^verbatim>\<open>context_collapse.rs\<close>, and
  \<^verbatim>\<open>codegen/ccode-shell/src/session/micro_compact_gate.rs\<close>). What the gate lets through of a tool result and
  when it panics; the clearing of aged results over any message type (locale \<open>micro_compactable\<close>); the
  split of a conversation is the best one that separates no result from its request.

  \<^item> \<open>Working_Memory\<close>, \<open>Context_Window\<close> (\<^verbatim>\<open>codegen/ccore/src\<close>: \<^verbatim>\<open>memory/working.rs\<close>, \<^verbatim>\<open>memory/window.rs\<close>,
  \<^verbatim>\<open>memory/heat.rs\<close>, \<^verbatim>\<open>node/thinker/compaction.rs\<close>). The token counter is exact on every reachable memory
  (\<open>wm_reach\<close>) unless \<^verbatim>\<open>compact_conversation\<close> ran last; compaction keeps the locked prefix and of the recent
  messages those in full form, and never grows the count; the
  steps at the end of a turn, with the order in which messages are then sent.

  \<^bold>\<open>Bounds and fuel.\<close> No definition uses fuel except the depth bound of \<open>match_parts\<close>, which is the
  code's own \<^verbatim>\<open>MAX_TOPIC_DEPTH\<close>. Loops without a structural measure have termination proofs; the
  waiting loop of the token bucket consumes a list of clock readings and is shown to return.

  \<^bold>\<open>Not modelled.\<close> Sockets, tasks and files (startup of the kernel, hook runners, the front end of the
  patch tool), because they are input and output; the terminal interface, the shell session, the
  workspace and version-control services, markdown rendering, telemetry, configuration and
  authentication, which are large parts of the workspace the modelled components do not depend on.
\<close>

end
